(* ===== verification/Vfs_Prelude.thy ===== *)
theory Vfs_Prelude
  imports "HOL-Library.Word" "HOL-Library.Sublist"
begin

text \<open>
  What every component shares: the machine integers of the Rust sources and the
  generic facts about lists that several components use.

  A \<^verbatim>\<open>usize\<close>, \<^verbatim>\<open>u64\<close> or \<^verbatim>\<open>u32\<close> that is counted, compared or used as an
  offset is a natural number, and the bounds of the type are written out in
  the operations that can meet them: \<^verbatim>\<open>saturating_add\<close>, \<^verbatim>\<open>checked_add\<close>,
  \<^verbatim>\<open>try_from\<close>.  The crate is built for 64-bit targets, so \<^verbatim>\<open>usize::MAX\<close> and
  \<^verbatim>\<open>u64::MAX\<close> agree.  Flag words that are tested bitwise are words.
\<close>

section \<open>Machine integers\<close>

definition u32_max :: nat where
  "u32_max = 2 ^ 32 - 1"

definition u64_max :: nat where
  "u64_max = 2 ^ 64 - 1"

definition i64_max :: nat where
  "i64_max = 2 ^ 63 - 1"

abbreviation usize_max :: nat where
  "usize_max \<equiv> u64_max"

text \<open>\<^verbatim>\<open>saturating_add\<close>, \<^verbatim>\<open>saturating_mul\<close>, \<^verbatim>\<open>checked_add\<close> of a 64-bit unsigned
  integer; \<^verbatim>\<open>saturating_sub\<close> is subtraction on the natural numbers.\<close>

definition sat_add :: "nat \<Rightarrow> nat \<Rightarrow> nat" where
  "sat_add a b = min (a + b) u64_max"

definition sat_mul :: "nat \<Rightarrow> nat \<Rightarrow> nat" where
  "sat_mul a b = min (a * b) u64_max"

definition checked_add :: "nat \<Rightarrow> nat \<Rightarrow> nat option" where
  "checked_add a b = (if a + b \<le> u64_max then Some (a + b) else None)"

definition checked_sub :: "nat \<Rightarrow> nat \<Rightarrow> nat option" where
  "checked_sub a b = (if b \<le> a then Some (a - b) else None)"

definition checked_mul :: "nat \<Rightarrow> nat \<Rightarrow> nat option" where
  "checked_mul a b = (if a * b \<le> u64_max then Some (a * b) else None)"

text \<open>Bytes: paths and tags are lists of characters (one per byte), wire data
  are lists of 8-bit words.\<close>

type_synonym bytes = "char list"
type_synonym wire = "8 word list"

text \<open>Slices and searches of \<^verbatim>\<open>std\<close>: \<^verbatim>\<open>&xs[a..b]\<close>, \<^verbatim>\<open>iter().position\<close>,
  \<^verbatim>\<open>iter().rposition\<close> and \<^verbatim>\<open>slice::split\<close>.\<close>

definition slice :: "'a list \<Rightarrow> nat \<Rightarrow> nat \<Rightarrow> 'a list" where
  "slice xs a b = take (b - a) (drop a xs)"

definition position :: "('a \<Rightarrow> bool) \<Rightarrow> 'a list \<Rightarrow> nat option" where
  "position P xs = find (\<lambda>i. P (xs ! i)) [0..<length xs]"

definition rposition :: "('a \<Rightarrow> bool) \<Rightarrow> 'a list \<Rightarrow> nat option" where
  "rposition P xs = find (\<lambda>i. P (xs ! i)) (rev [0..<length xs])"

fun split_on :: "'a \<Rightarrow> 'a list \<Rightarrow> 'a list list" where
  "split_on c [] = [[]]"
| "split_on c (x # xs) =
     (if x = c then [] # split_on c xs
      else case split_on c xs of [] \<Rightarrow> [[x]] | y # ys \<Rightarrow> (x # y) # ys)"

section \<open>Collections of facts\<close>

named_theorems machine_int \<open>unfolding of the machine-integer operations\<close>

lemma u64_max_pos [simp]: "0 < u64_max" "Suc 0 \<le> u64_max"
  by (simp_all add: u64_max_def)

lemmas machine_int_defs [machine_int] =
  sat_add_def sat_mul_def checked_add_def checked_sub_def checked_mul_def

lemma sat_add_le [simp]: "sat_add a b \<le> u64_max"
  by (simp add: sat_add_def)

lemma sat_add_0 [simp]: "a \<le> u64_max \<Longrightarrow> sat_add a 0 = a"
  by (simp add: sat_add_def)

lemma sat_add_exact: "a + b \<le> u64_max \<Longrightarrow> sat_add a b = a + b"
  by (simp add: sat_add_def)

lemma le_sat_add: "a \<le> u64_max \<Longrightarrow> a \<le> sat_add a b"
  by (simp add: sat_add_def)

lemma checked_add_Some_iff [simp]:
  "checked_add a b = Some c \<longleftrightarrow> a + b \<le> u64_max \<and> c = a + b"
  by (auto simp: checked_add_def)

lemma checked_add_None_iff [simp]: "checked_add a b = None \<longleftrightarrow> u64_max < a + b"
  by (auto simp: checked_add_def)

lemma checked_sub_Some_iff [simp]:
  "checked_sub a b = Some c \<longleftrightarrow> b \<le> a \<and> c = a - b"
  by (auto simp: checked_sub_def)

lemma checked_sub_None_iff [simp]: "checked_sub a b = None \<longleftrightarrow> a < b"
  by (auto simp: checked_sub_def)

lemma checked_mul_Some_iff [simp]:
  "checked_mul a b = Some c \<longleftrightarrow> a * b \<le> u64_max \<and> c = a * b"
  by (auto simp: checked_mul_def)

lemma checked_mul_None_iff [simp]: "checked_mul a b = None \<longleftrightarrow> u64_max < a * b"
  by (auto simp: checked_mul_def)

section \<open>Lists\<close>

text \<open>A search over an index interval finds the least index with the property.\<close>

lemma find_upt_Some:
  "find P [a..<b] = Some i \<longleftrightarrow> a \<le> i \<and> i < b \<and> P i \<and> (\<forall>j. a \<le> j \<and> j < i \<longrightarrow> \<not> P j)"
proof
  assume "find P [a..<b] = Some i"
  then obtain k where k: "k < b - a" "P (a + k)" "i = a + k" "\<forall>j<k. \<not> P (a + j)"
    by (auto simp: find_Some_iff)
  have "\<not> P j" if "a \<le> j" "j < i" for j
    using k(3,4) that by (metis le_add_diff_inverse less_diff_conv2 add.commute less_diff_conv)
  then show "a \<le> i \<and> i < b \<and> P i \<and> (\<forall>j. a \<le> j \<and> j < i \<longrightarrow> \<not> P j)"
    using k by auto
next
  assume "a \<le> i \<and> i < b \<and> P i \<and> (\<forall>j. a \<le> j \<and> j < i \<longrightarrow> \<not> P j)"
  then show "find P [a..<b] = Some i"
    by (auto simp: find_Some_iff intro!: exI [of _ "i - a"])
qed

lemma find_upt_None:
  "find P [a..<b] = None \<longleftrightarrow> (\<forall>j. a \<le> j \<and> j < b \<longrightarrow> \<not> P j)"
  by (auto simp: find_None_iff)

lemma find_map_option: "find P (map f xs) = map_option f (find (\<lambda>x. P (f x)) xs)"
  by (induction xs) auto

lemma position_Cons:
  "position P (x # xs) = (if P x then Some 0 else map_option Suc (position P xs))"
proof -
  have "[0..<length (x # xs)] = 0 # map Suc [0..<length xs]"
    by (simp add: upt_conv_Cons map_Suc_upt del: upt_Suc)
  then show ?thesis by (simp add: position_def find_map_option del: upt_Suc)
qed

lemma position_Nil [simp]: "position P [] = None"
  by (simp add: position_def)

lemma position_eq:
  "position P xs = (if \<exists>x \<in> set xs. P x then Some (length (takeWhile (\<lambda>x. \<not> P x) xs)) else None)"
  by (induction xs) (auto simp: position_Cons)

lemma rposition_eq:
  "rposition P xs = map_option (\<lambda>i. length xs - Suc i) (position P (rev xs))"
proof -
  have "rev [0..<length xs] = map (\<lambda>i. length xs - Suc i) [0..<length xs]"
    by (rule nth_equalityI) (auto simp: rev_nth)
  then have "rposition P xs = find (\<lambda>i. P (xs ! i)) (map (\<lambda>i. length xs - Suc i) [0..<length xs])"
    by (simp add: rposition_def)
  also have "\<dots> = map_option (\<lambda>i. length xs - Suc i)
      (find (\<lambda>i. P (xs ! (length xs - Suc i))) [0..<length xs])"
    by (rule find_map_option)
  also have "find (\<lambda>i. P (xs ! (length xs - Suc i))) [0..<length xs] = position P (rev xs)"
    unfolding position_def by (auto simp: rev_nth intro!: find_cong)
  finally show ?thesis .
qed

lemma split_on_not_Nil [simp]: "split_on c xs \<noteq> []"
  by (cases xs) (auto split: list.split)

lemma split_on_append_sep: "split_on c (xs @ c # ys) = split_on c xs @ split_on c ys"
  by (induction xs) (auto split: list.split simp: Cons_eq_append_conv)

lemma split_on_no_sep: "x \<in> set (split_on c xs) \<Longrightarrow> c \<notin> set x"
  by (induction xs arbitrary: x) (auto split: if_splits list.splits)

lemma split_on_single: "c \<notin> set xs \<Longrightarrow> split_on c xs = [xs]"
  by (induction xs) auto

end
