(* ===== verification/Nfs_Planner.thy ===== *)
theory Nfs_Planner
  imports Vfs_Prelude
begin

text \<open>
  Failure attribution and batch sizing for vectorised NFS compounds:
  \<^verbatim>\<open>crates/vfsi-nfs/src/planner.rs\<close>.

  \<^item> \<^verbatim>\<open>AdaptiveBatchSizer\<close> and \<^verbatim>\<open>AdaptiveCompoundLimits\<close>: the soft window each
    compound shape learns from the server's replies;
  \<^item> \<^verbatim>\<open>ExecutionMap\<close>: which operations of a compound belong to which caller item,
    and \<^verbatim>\<open>analyze\<close>, which turns a reply into completed, failed and never
    executed items;
  \<^item> \<^verbatim>\<open>resource_rejected_before_mutation\<close> and \<^verbatim>\<open>recovery_action\<close>: what may be sent
    again.

  The trait \<^verbatim>\<open>ReplyView\<close> is a record of its three methods.  A reply whose
  statuses have the shape NFS prescribes satisfies \<^verbatim>\<open>wf_reply\<close>; the locale
  \<^verbatim>\<open>reply_source\<close> is the contract between the component that decodes replies
  and the planner.
\<close>

section \<open>Status codes the planner interprets\<close>

definition NFS_OK :: nat where
  "NFS_OK = 0"

definition NFS4ERR_RESOURCE :: nat where
  "NFS4ERR_RESOURCE = 10018"

definition NFS4ERR_TOO_MANY_OPS :: nat where
  "NFS4ERR_TOO_MANY_OPS = 10070"

lemmas planner_status = NFS_OK_def NFS4ERR_RESOURCE_def NFS4ERR_TOO_MANY_OPS_def

section \<open>The batch sizer\<close>

record AdaptiveBatchSizer =
  sz_current :: nat
  sz_ceiling :: nat
  sz_resource_backoff :: nat
  sz_successes_at_limit :: nat

definition sizer_new :: "nat \<Rightarrow> nat \<Rightarrow> AdaptiveBatchSizer" where
  "sizer_new conservative_start negotiated_capacity =
     (let c = max negotiated_capacity 1
      in \<lparr> sz_current = min (max conservative_start 1) c, sz_ceiling = c,
           sz_resource_backoff = 0, sz_successes_at_limit = 0 \<rparr>)"

definition sizer_next :: "AdaptiveBatchSizer \<Rightarrow> nat \<Rightarrow> nat \<Rightarrow> nat" where
  "sizer_next s remaining caller_cap =
     (let cap = (if caller_cap = 0 then sz_current s else min (sz_current s) caller_cap)
      in min remaining cap)"

definition sizer_succeeded :: "AdaptiveBatchSizer \<Rightarrow> nat \<Rightarrow> bool \<Rightarrow> AdaptiveBatchSizer" where
  "sizer_succeeded s attempted more_work =
     (if \<not> more_work \<or> attempted < sz_current s - 16 then s
      else let n = sz_successes_at_limit s + 1;
               needed = 2 ^ sz_resource_backoff s
           in if needed \<le> n
              then s \<lparr> sz_current := min (sat_add (sz_current s) 8) (sz_ceiling s),
                       sz_successes_at_limit := 0 \<rparr>
              else s \<lparr> sz_successes_at_limit := n \<rparr>)"

definition sizer_resource_rejected :: "AdaptiveBatchSizer \<Rightarrow> nat \<Rightarrow> AdaptiveBatchSizer" where
  "sizer_resource_rejected s attempted =
     s \<lparr> sz_current := min (sz_current s) (max (attempted div 2) 1),
         sz_resource_backoff := min (min (sz_resource_backoff s + 1) 255) 5,
         sz_successes_at_limit := 0 \<rparr>"

definition sizer_op_limit_rejected :: "AdaptiveBatchSizer \<Rightarrow> nat \<Rightarrow> AdaptiveBatchSizer" where
  "sizer_op_limit_rejected s attempted =
     (if 1 < attempted
      then s \<lparr> sz_ceiling := min (sz_ceiling s) (attempted - 1),
               sz_current := min (sz_current s) (max (attempted div 2) 1),
               sz_successes_at_limit := 0 \<rparr>
      else s)"

section \<open>One sizer per compound shape\<close>

record AdaptiveCompoundLimits =
  cl_negotiated_ops :: nat
  cl_shapes :: "bytes \<Rightarrow> AdaptiveBatchSizer option"

definition limits_new :: "nat \<Rightarrow> AdaptiveCompoundLimits" where
  "limits_new n = \<lparr> cl_negotiated_ops = n, cl_shapes = (\<lambda>_. None) \<rparr>"

definition starting_ops :: "bytes \<Rightarrow> nat \<Rightarrow> nat" where
  "starting_ops tag negotiated =
     (if tag = ''removev'' then 26
      else if tag = ''lookupv'' then 73
      else if tag \<in> set [''lookup_typev'', ''getattrv'', ''getattrv1'', ''vstatfs_impl'',
                ''readlinkv'', ''readv'', ''readv1'', ''readv2'', ''readdir_children'',
                ''readdir_pages''] then 96
      else negotiated)"

definition limits_limit :: "AdaptiveCompoundLimits \<Rightarrow> bytes \<Rightarrow> nat" where
  "limits_limit l tag =
     (case cl_shapes l tag of
        None \<Rightarrow> min (starting_ops tag (cl_negotiated_ops l)) (cl_negotiated_ops l)
      | Some sz \<Rightarrow> sizer_next sz usize_max 0)"

definition limits_record :: "AdaptiveBatchSizer \<Rightarrow> nat \<Rightarrow> nat \<Rightarrow> nat \<Rightarrow> AdaptiveBatchSizer" where
  "limits_record limit sent_ops status reply_ops =
     (if status = NFS_OK then sizer_succeeded limit sent_ops True
      else if status = NFS4ERR_RESOURCE then sizer_resource_rejected limit sent_ops
      else if status = NFS4ERR_TOO_MANY_OPS then sizer_op_limit_rejected limit sent_ops
      else limit)"

definition limits_observe ::
  "AdaptiveCompoundLimits \<Rightarrow> bytes \<Rightarrow> nat \<Rightarrow> nat \<Rightarrow> nat \<Rightarrow> AdaptiveCompoundLimits" where
  "limits_observe l tag sent_ops status reply_ops =
     (let limit = (case cl_shapes l tag of
                     Some s \<Rightarrow> s
                   | None \<Rightarrow> sizer_new (starting_ops tag (cl_negotiated_ops l)) (cl_negotiated_ops l))
      in l \<lparr> cl_shapes := (cl_shapes l)(tag \<mapsto> limits_record limit sent_ops status reply_ops) \<rparr>)"

text \<open>One entry of a session's history: the tag, the operations sent, the
  compound status and the operations of the reply.\<close>

type_synonym observation = "bytes \<times> nat \<times> nat \<times> nat"

definition limits_observe_all ::
  "AdaptiveCompoundLimits \<Rightarrow> observation list \<Rightarrow> AdaptiveCompoundLimits" where
  "limits_observe_all l obs =
     foldl (\<lambda>l (tag, sent, status, reply). limits_observe l tag sent status reply) l obs"

section \<open>Replies as the planner sees them\<close>

record reply_view =
  rv_status :: nat
  rv_nops :: nat
  rv_op_status :: "nat \<Rightarrow> nat"

definition resource_rejected_before_mutation :: "reply_view \<Rightarrow> bool" where
  "resource_rejected_before_mutation reply =
     (if rv_status reply \<noteq> NFS4ERR_RESOURCE \<and> rv_status reply \<noteq> NFS4ERR_TOO_MANY_OPS
      then False
      else if rv_nops reply = 0 \<or> rv_nops reply = 1 then True
      else if rv_nops reply = 2 then rv_op_status reply 1 \<noteq> NFS_OK
      else False)"

section \<open>Execution maps\<close>

type_synonym item_range = "nat \<times> nat \<times> nat"

record ExecutionMap =
  em_ranges :: "item_range list"
  em_next :: nat

definition map_new :: ExecutionMap where
  "map_new = \<lparr> em_ranges = [], em_next = 1 \<rparr>"

definition map_begin :: "ExecutionMap \<Rightarrow> nat \<Rightarrow> ExecutionMap" where
  "map_begin m caller = m \<lparr> em_ranges := em_ranges m @ [(caller, em_next m, em_next m)] \<rparr>"

definition map_note_ops :: "ExecutionMap \<Rightarrow> nat \<Rightarrow> ExecutionMap" where
  "map_note_ops m count = m \<lparr> em_next := sat_add (em_next m) count \<rparr>"

definition map_end :: "ExecutionMap \<Rightarrow> ExecutionMap" where
  "map_end m =
     (if em_ranges m = [] then m
      else let (caller, start, _) = last (em_ranges m)
           in m \<lparr> em_ranges := butlast (em_ranges m) @ [(caller, start, em_next m)] \<rparr>)"

record ItemFailure =
  if_caller :: nat
  if_op_index :: nat
  if_status :: nat

record ExecutionReport =
  er_completed :: "nat list"
  er_failure :: "ItemFailure option"
  er_unexecuted :: "nat list"
  er_compound_failure :: "nat option"
  er_compound_failure_op :: "nat option"

datatype MalformedReply =
    MissingSequence
  | TruncatedItem nat nat nat
  | OperationsAfterFailure nat nat
  | StatusMismatch nat nat

definition completed_ranges :: "ExecutionMap \<Rightarrow> ExecutionReport \<Rightarrow> item_range list" where
  "completed_ranges m report = take (length (er_completed report)) (em_ranges m)"

definition executed_ranges :: "ExecutionMap \<Rightarrow> ExecutionReport \<Rightarrow> (nat \<times> nat) list" where
  "executed_ranges m report =
     map (\<lambda>(_, start, e). (start, e)) (completed_ranges m report) @
     (case er_failure report of
        None \<Rightarrow> []
      | Some f \<Rightarrow>
          (case find (\<lambda>(caller, _, _). caller = if_caller f) (em_ranges m) of
             None \<Rightarrow> []
           | Some (_, start, _) \<Rightarrow> [(start, if_op_index f)]))"

text \<open>The loop of \<^verbatim>\<open>analyze\<close> over the items, with the callers completed so far.\<close>

fun analyze_items ::
  "reply_view \<Rightarrow> item_range list \<Rightarrow> nat list
     \<Rightarrow> MalformedReply + nat list \<times> ItemFailure option \<times> nat list" where
  "analyze_items reply [] done_callers = Inr (done_callers, None, [])"
| "analyze_items reply ((caller, start, e) # rest) done_callers =
     (if rv_nops reply \<le> start
      then Inr (done_callers, None, caller # map fst rest)
      else case find (\<lambda>i. rv_op_status reply i \<noteq> NFS_OK) [start..<min e (rv_nops reply)] of
             Some i \<Rightarrow>
               (if rv_nops reply \<noteq> i + 1
                then Inl (OperationsAfterFailure i (rv_nops reply))
                else if rv_status reply \<noteq> rv_op_status reply i
                then Inl (StatusMismatch (rv_status reply) (rv_op_status reply i))
                else Inr (done_callers,
                          Some \<lparr> if_caller = caller, if_op_index = i,
                                 if_status = rv_op_status reply i \<rparr>,
                          map fst rest))
           | None \<Rightarrow>
               (if rv_nops reply < e
                then Inl (TruncatedItem caller e (rv_nops reply))
                else analyze_items reply rest (done_callers @ [caller])))"

definition analyze :: "ExecutionMap \<Rightarrow> reply_view \<Rightarrow> MalformedReply + ExecutionReport" where
  "analyze m reply =
     (if rv_nops reply = 0
      then if rv_status reply \<noteq> NFS_OK
           then Inr \<lparr> er_completed = [], er_failure = None, er_unexecuted = map fst (em_ranges m),
                      er_compound_failure = Some (rv_status reply), er_compound_failure_op = None \<rparr>
           else Inl MissingSequence
      else if rv_op_status reply 0 \<noteq> NFS_OK
      then Inr \<lparr> er_completed = [], er_failure = None, er_unexecuted = map fst (em_ranges m),
                 er_compound_failure = Some (rv_op_status reply 0),
                 er_compound_failure_op = Some 0 \<rparr>
      else case analyze_items reply (em_ranges m) [] of
             Inl e \<Rightarrow> Inl e
           | Inr (cs, f, us) \<Rightarrow>
               (if f = None \<and> rv_status reply \<noteq> NFS_OK
                then let op_index = rv_nops reply - 1;
                         operation = rv_op_status reply op_index
                     in if operation \<noteq> rv_status reply
                        then Inl (StatusMismatch (rv_status reply) operation)
                        else Inr \<lparr> er_completed = cs, er_failure = f, er_unexecuted = us,
                                   er_compound_failure = Some (rv_status reply),
                                   er_compound_failure_op = Some op_index \<rparr>
                else Inr \<lparr> er_completed = cs, er_failure = f, er_unexecuted = us,
                           er_compound_failure = None, er_compound_failure_op = None \<rparr>))"

section \<open>Recovery policy\<close>

datatype RequestSafety = ReadOnly | IdempotentMutation | NonIdempotentMutation

datatype FailureCause = ItemStatus | ResourceLimit | Transport (exact_replay: bool)

datatype RecoveryAction =
    ContinueSuffix | ReplaySame | ReconnectAndRetry | SplitAndRetry | ReturnFailure | Ambiguous

fun recovery_action :: "RequestSafety \<Rightarrow> FailureCause \<Rightarrow> bool \<Rightarrow> RecoveryAction" where
  "recovery_action safety ItemStatus independent_suffix =
     (if independent_suffix then ContinueSuffix else ReturnFailure)"
| "recovery_action safety ResourceLimit independent_suffix = SplitAndRetry"
| "recovery_action safety (Transport True) independent_suffix = ReplaySame"
| "recovery_action ReadOnly (Transport False) independent_suffix = ReconnectAndRetry"
| "recovery_action IdempotentMutation (Transport False) independent_suffix = Ambiguous"
| "recovery_action NonIdempotentMutation (Transport False) independent_suffix = Ambiguous"

section \<open>Specification vocabulary\<close>

text \<open>The shape NFS prescribes for a reply: every operation but the last one
  succeeded and the last one carries the compound status.\<close>

definition wf_reply :: "reply_view \<Rightarrow> bool" where
  "wf_reply r \<longleftrightarrow>
     (rv_nops r = 0 \<longrightarrow> rv_status r \<noteq> NFS_OK) \<and>
     (0 < rv_nops r \<longrightarrow> rv_op_status r (rv_nops r - 1) = rv_status r) \<and>
     (\<forall>i < rv_nops r - 1. rv_op_status r i = NFS_OK)"

text \<open>The reply of a server that executes a compound whose operations would
  return the given statuses: it stops after the first failure.\<close>

definition server_reply :: "nat list \<Rightarrow> reply_view" where
  "server_reply stats =
     (let ok = takeWhile (\<lambda>s. s = NFS_OK) stats;
          ex = ok @ take 1 (drop (length ok) stats)
      in \<lparr> rv_status = (if ex = [] then NFS_OK else last ex), rv_nops = length ex,
           rv_op_status = (\<lambda>i. ex ! i) \<rparr>)"

text \<open>The calls a compound builder makes, one item after the other: the caller
  index and the number of operations it appends.\<close>

definition build_map :: "(nat \<times> nat) list \<Rightarrow> ExecutionMap" where
  "build_map items =
     foldl (\<lambda>m (caller, count). map_end (map_note_ops (map_begin m caller) count)) map_new items"

fun layout :: "nat \<Rightarrow> (nat \<times> nat) list \<Rightarrow> item_range list" where
  "layout n [] = []"
| "layout n ((caller, count) # items) = (caller, n, n + count) # layout (n + count) items"

text \<open>Well-formed sizers.\<close>

definition sizer_wf :: "AdaptiveBatchSizer \<Rightarrow> bool" where
  "sizer_wf s \<longleftrightarrow> 1 \<le> sz_current s \<and> sz_current s \<le> sz_ceiling s \<and>
     sz_resource_backoff s \<le> 5 \<and> sz_successes_at_limit s < 2 ^ sz_resource_backoff s"

definition limits_wf :: "AdaptiveCompoundLimits \<Rightarrow> bool" where
  "limits_wf l \<longleftrightarrow> (\<forall>tag s. cl_shapes l tag = Some s \<longrightarrow>
     sizer_wf s \<and> sz_ceiling s \<le> max (cl_negotiated_ops l) 1)"

text \<open>One full window accepted by the server while more work is waiting.\<close>

definition sizer_full_success :: "AdaptiveBatchSizer \<Rightarrow> AdaptiveBatchSizer" where
  "sizer_full_success s = sizer_succeeded s (sz_current s) True"

section \<open>The sizer keeps its invariant\<close>

lemma sizer_new_wf [simp, intro]: "sizer_wf (sizer_new a b)"
  by (auto simp: sizer_wf_def sizer_new_def Let_def)

lemma sizer_new_ceiling [simp]: "sz_ceiling (sizer_new a b) = max b 1"
  by (simp add: sizer_new_def Let_def)

lemma sizer_succeeded_wf [intro]:
  assumes "sizer_wf s"
  shows "sizer_wf (sizer_succeeded s n mw)"
proof -
  have "1 \<le> sat_add (sz_current s) 8"
    using assms by (auto simp: sat_add_def sizer_wf_def min_def)
  then show ?thesis
    using assms by (auto simp: sizer_wf_def sizer_succeeded_def Let_def)
qed

lemma sizer_resource_rejected_wf [intro]:
  "sizer_wf s \<Longrightarrow> sizer_wf (sizer_resource_rejected s n)"
  by (auto simp: sizer_wf_def sizer_resource_rejected_def)

lemma sizer_op_limit_rejected_wf [intro]:
  "sizer_wf s \<Longrightarrow> sizer_wf (sizer_op_limit_rejected s n)"
  by (auto simp: sizer_wf_def sizer_op_limit_rejected_def)

lemma limits_record_wf [intro]: "sizer_wf s \<Longrightarrow> sizer_wf (limits_record s n st k)"
  by (auto simp: limits_record_def)

lemma sizer_ceiling_mono:
  "sz_ceiling (sizer_succeeded s n mw) = sz_ceiling s"
  "sz_ceiling (sizer_resource_rejected s n) = sz_ceiling s"
  "sz_ceiling (sizer_op_limit_rejected s n) \<le> sz_ceiling s"
  by (auto simp: sizer_succeeded_def sizer_resource_rejected_def sizer_op_limit_rejected_def Let_def)

lemma limits_record_ceiling: "sz_ceiling (limits_record s n st k) \<le> sz_ceiling s"
  by (auto simp: limits_record_def sizer_ceiling_mono)

lemma limits_observe_negotiated [simp]:
  "cl_negotiated_ops (limits_observe l tag n st k) = cl_negotiated_ops l"
  by (simp add: limits_observe_def Let_def)

lemma limits_observe_other [simp]:
  "tag' \<noteq> tag \<Longrightarrow> cl_shapes (limits_observe l tag n st k) tag' = cl_shapes l tag'"
  by (simp add: limits_observe_def Let_def)

lemma limits_observe_wf [intro]:
  assumes "limits_wf l"
  shows "limits_wf (limits_observe l tag n st k)"
proof -
  let ?s = "case cl_shapes l tag of Some s \<Rightarrow> s
            | None \<Rightarrow> sizer_new (starting_ops tag (cl_negotiated_ops l)) (cl_negotiated_ops l)"
  have "sizer_wf ?s \<and> sz_ceiling ?s \<le> max (cl_negotiated_ops l) 1"
    using assms by (auto simp: limits_wf_def split: option.split)
  then have "sizer_wf (limits_record ?s n st k)"
    and "sz_ceiling (limits_record ?s n st k) \<le> max (cl_negotiated_ops l) 1"
    using limits_record_ceiling [of ?s n st k] by auto
  then show ?thesis
    using assms by (auto simp: limits_wf_def limits_observe_def Let_def)
qed

lemma limits_observe_all_simps [simp]:
  "limits_observe_all l [] = l"
  "limits_observe_all l ((tag, n, st, k) # obs) = limits_observe_all (limits_observe l tag n st k) obs"
  by (simp_all add: limits_observe_all_def)

lemma limits_observe_all_wf [intro]:
  "limits_wf l \<Longrightarrow> limits_wf (limits_observe_all l obs)"
  by (induction obs arbitrary: l) (auto simp: limits_observe_wf)

lemma limits_observe_all_negotiated [simp]:
  "cl_negotiated_ops (limits_observe_all l obs) = cl_negotiated_ops l"
  by (induction obs arbitrary: l) auto

lemma limits_new_wf [simp, intro]: "limits_wf (limits_new n)"
  by (simp add: limits_wf_def limits_new_def)

lemma starting_ops_pos: "1 \<le> n \<Longrightarrow> 1 \<le> starting_ops tag n"
  by (auto simp: starting_ops_def)

lemma limits_wf_limit:
  assumes "limits_wf l" "1 \<le> cl_negotiated_ops l"
  shows "1 \<le> limits_limit l tag \<and> limits_limit l tag \<le> cl_negotiated_ops l"
  using assms starting_ops_pos [OF assms(2), of tag]
  by (auto simp: limits_limit_def limits_wf_def sizer_wf_def sizer_next_def max_def Let_def Suc_le_eq
      split: option.split if_splits)
     fastforce+

text \<open>Rejected operation counts stay out of the window.\<close>

definition shape_below :: "bytes \<Rightarrow> nat \<Rightarrow> AdaptiveCompoundLimits \<Rightarrow> bool" where
  "shape_below tag n l \<longleftrightarrow> (\<exists>s. cl_shapes l tag = Some s \<and> sz_ceiling s < n)"

lemma shape_below_observe:
  "shape_below tag n l \<Longrightarrow> shape_below tag n (limits_observe l tag' k st r)"
  by (auto simp: shape_below_def limits_observe_def Let_def
      intro: le_less_trans [OF limits_record_ceiling])

lemma shape_below_observe_all:
  "shape_below tag n l \<Longrightarrow> shape_below tag n (limits_observe_all l obs)"
  by (induction obs arbitrary: l) (auto simp: shape_below_observe)

lemma too_many_ops_shape_below:
  "1 < n \<Longrightarrow> shape_below tag n (limits_observe l tag n NFS4ERR_TOO_MANY_OPS r)"
  by (auto simp: shape_below_def limits_observe_def limits_record_def planner_status
      sizer_op_limit_rejected_def Let_def)

lemma shape_below_limit:
  assumes "limits_wf l" "shape_below tag n l"
  shows "limits_limit l tag < n"
proof -
  obtain s where "cl_shapes l tag = Some s" "sz_ceiling s < n" "sz_current s \<le> sz_ceiling s"
    using assms by (auto simp: shape_below_def limits_wf_def sizer_wf_def)
  then show ?thesis by (simp add: limits_limit_def sizer_next_def Let_def)
qed

section \<open>Successful windows reach the ceiling\<close>

lemma sizer_full_success_wf [intro]: "sizer_wf s \<Longrightarrow> sizer_wf (sizer_full_success s)"
  by (auto simp: sizer_full_success_def)

lemma sizer_full_success_ceiling [simp]: "sz_ceiling (sizer_full_success s) = sz_ceiling s"
  by (simp add: sizer_full_success_def sizer_ceiling_mono)

lemma sizer_full_success_backoff [simp]:
  "sz_resource_backoff (sizer_full_success s) = sz_resource_backoff s"
  by (auto simp: sizer_full_success_def sizer_succeeded_def Let_def)

lemma sizer_full_success_cases:
  "if 2 ^ sz_resource_backoff s \<le> sz_successes_at_limit s + 1
   then sizer_full_success s =
          s \<lparr> sz_current := min (sat_add (sz_current s) 8) (sz_ceiling s), sz_successes_at_limit := 0 \<rparr>
   else sizer_full_success s = s \<lparr> sz_successes_at_limit := sz_successes_at_limit s + 1 \<rparr>"
  by (simp add: sizer_full_success_def sizer_succeeded_def Let_def)

lemma funpow_invariant: "(\<And>x. P x \<Longrightarrow> P (f x)) \<Longrightarrow> P x \<Longrightarrow> P ((f ^^ n) x)"
  by (induction n) auto

lemma sizer_grows_once:
  assumes "sizer_wf s"
  shows "\<exists>m. m \<le> 2 ^ sz_resource_backoff s - sz_successes_at_limit s \<and>
    (sizer_full_success ^^ m) s =
      s \<lparr> sz_current := min (sat_add (sz_current s) 8) (sz_ceiling s), sz_successes_at_limit := 0 \<rparr>"
  using assms
proof (induction "2 ^ sz_resource_backoff s - sz_successes_at_limit s" arbitrary: s)
  case 0
  then show ?case by (simp add: sizer_wf_def)
next
  case (Suc d)
  show ?case
  proof (cases "2 ^ sz_resource_backoff s \<le> sz_successes_at_limit s + 1")
    case True
    then have "(sizer_full_success ^^ 1) s =
        s \<lparr> sz_current := min (sat_add (sz_current s) 8) (sz_ceiling s), sz_successes_at_limit := 0 \<rparr>"
      using sizer_full_success_cases [of s] by simp
    then show ?thesis using Suc.hyps(2) by (intro exI [of _ 1]) linarith
  next
    case False
    then have step: "sizer_full_success s = s \<lparr> sz_successes_at_limit := sz_successes_at_limit s + 1 \<rparr>"
      using sizer_full_success_cases [of s] by simp
    have "d = 2 ^ sz_resource_backoff s - Suc (sz_successes_at_limit s)"
      using Suc.hyps(2) by simp
    with Suc.hyps(1) [of "sizer_full_success s"]
    obtain m where "m \<le> 2 ^ sz_resource_backoff s - (sz_successes_at_limit s + 1)"
      and "(sizer_full_success ^^ m) (sizer_full_success s) =
        s \<lparr> sz_current := min (sat_add (sz_current s) 8) (sz_ceiling s), sz_successes_at_limit := 0 \<rparr>"
      using sizer_full_success_wf [OF Suc.prems] by (auto simp: step)
    then show ?thesis
      using False by (intro exI [of _ "Suc m"]) (simp add: funpow_swap1)
  qed
qed

lemma sizer_reaches_ceiling:
  assumes "sizer_wf s" "sz_ceiling s \<le> usize_max"
  shows "\<exists>m. m \<le> 32 * (sz_ceiling s - sz_current s) \<and>
    sz_current ((sizer_full_success ^^ m) s) = sz_ceiling s"
  using assms
proof (induction "sz_ceiling s - sz_current s" arbitrary: s rule: less_induct)
  case less
  show ?case
  proof (cases "sz_current s = sz_ceiling s")
    case True
    then show ?thesis by (intro exI [of _ 0]) simp
  next
    case False
    with less.prems have lt: "sz_current s < sz_ceiling s" by (simp add: sizer_wf_def)
    let ?s = "s \<lparr> sz_current := min (sat_add (sz_current s) 8) (sz_ceiling s), sz_successes_at_limit := 0 \<rparr>"
    obtain m where m: "m \<le> 2 ^ sz_resource_backoff s" "(sizer_full_success ^^ m) s = ?s"
      using sizer_grows_once [OF less.prems(1)] by (metis diff_le_self le_trans)
    have wf: "sizer_wf ?s" using m(2) less.prems(1)
      by (metis (no_types, lifting) funpow_invariant sizer_full_success_wf)
    have gain: "sz_current s < sz_current ?s" using lt less.prems(2) by (simp add: sat_add_def)
    obtain k where k: "k \<le> 32 * (sz_ceiling ?s - sz_current ?s)"
      "sz_current ((sizer_full_success ^^ k) ?s) = sz_ceiling ?s"
    proof -
      have "sz_ceiling ?s - sz_current ?s < sz_ceiling s - sz_current s"
        using diff_less_mono2 [OF gain lt] by simp
      from less.hyps [OF this wf] less.prems(2) that show thesis by auto
    qed
    have "(2::nat) ^ sz_resource_backoff s \<le> 2 ^ 5"
      using less.prems(1) by (intro power_increasing) (auto simp: sizer_wf_def)
    then have "k + m \<le> 32 * (sz_ceiling s - sz_current s)"
      using m(1) k(1) gain lt by simp
    moreover have "sz_current ((sizer_full_success ^^ (k + m)) s) = sz_ceiling s"
      using k(2) m(2) by (simp add: funpow_add)
    ultimately show ?thesis by blast
  qed
qed

section \<open>Failure attribution\<close>

lemma layout_callers [simp]: "map fst (layout n items) = map fst items"
  by (induction n items rule: layout.induct) auto

lemma layout_append [simp]:
  "layout n (xs @ ys) = layout n xs @ layout (n + sum_list (map snd xs)) ys"
  by (induction n xs rule: layout.induct) (auto simp: add.assoc)

lemma build_map_layout:
  assumes "1 + sum_list (map snd items) \<le> usize_max"
  shows "build_map items = \<lparr> em_ranges = layout 1 items, em_next = 1 + sum_list (map snd items) \<rparr>"
  using assms
proof (induction items rule: rev_induct)
  case Nil
  then show ?case by (simp add: build_map_def map_new_def)
next
  case (snoc item items)
  then have "build_map items = \<lparr> em_ranges = layout 1 items, em_next = 1 + sum_list (map snd items) \<rparr>"
    by simp
  with snoc.prems show ?case
    by (cases item)
      (simp add: build_map_def map_begin_def map_note_ops_def map_end_def sat_add_exact)
qed

text \<open>Whatever the reply, a report the analysis accepts splits the callers of the
  compound into a completed prefix, at most one failed item and an unexecuted
  suffix.\<close>

lemma analyze_items_split:
  assumes "analyze_items r rs acc = Inr (cs, f, us)"
  shows "acc @ map fst rs = cs @ (case f of None \<Rightarrow> [] | Some x \<Rightarrow> [if_caller x]) @ us"
  using assms
  by (induction r rs acc rule: analyze_items.induct) (auto split: if_splits option.splits)

lemma analyze_items_prefix:
  assumes "analyze_items r rs acc = Inr (cs, f, us)"
  shows "\<exists>cs'. cs = acc @ cs'"
  using assms
proof (induction r rs acc rule: analyze_items.induct)
  case (2 reply caller start e rest acc)
  then show ?case by (auto split: if_splits option.splits)
qed simp

lemma analyze_items_completed_ok:
  assumes "analyze_items r rs acc = Inr (acc @ cs, f, us)"
    and "(c, s, e) \<in> set (take (length cs) rs)" "s \<le> i" "i < e"
  shows "i < rv_nops r \<and> rv_op_status r i = NFS_OK"
  using assms
proof (induction r rs acc arbitrary: cs rule: analyze_items.induct)
  case (2 reply caller start e' rest acc)
  show ?case
  proof (cases cs)
    case (Cons c' cs')
    from 2(2) Cons have step: "start < rv_nops reply" "e' \<le> rv_nops reply"
      and ok: "find (\<lambda>i. rv_op_status reply i \<noteq> NFS_OK) [start..<min e' (rv_nops reply)] = None"
      by (auto split: if_splits option.splits)
    with 2(2) have rec: "analyze_items reply rest (acc @ [caller]) = Inr (acc @ cs, f, us)"
      by simp
    from analyze_items_split [OF rec] Cons have "c' = caller"
      by (auto split: option.splits)
    show ?thesis
    proof (cases "(c, s, e) = (caller, start, e')")
      case True
      with ok step 2(4,5) show ?thesis by (auto simp: find_upt_None min_def)
    next
      case False
      with 2(3) Cons have "(c, s, e) \<in> set (take (length cs') rest)" by auto
      moreover have "analyze_items reply rest (acc @ [caller]) = Inr ((acc @ [caller]) @ cs', f, us)"
        using rec Cons \<open>c' = caller\<close> by simp
      ultimately show ?thesis
        using 2(1) [of cs'] step ok 2(4,5) by (metis not_le)
    qed
  qed (use 2(3) in simp)
qed simp

lemma analyze_items_failure:
  assumes "analyze_items r rs acc = Inr (acc @ cs, Some x, us)"
  shows "length cs < length rs \<and> fst (rs ! length cs) = if_caller x \<and>
    fst (snd (rs ! length cs)) \<le> if_op_index x \<and> if_op_index x < snd (snd (rs ! length cs)) \<and>
    rv_nops r = if_op_index x + 1 \<and> if_status x = rv_op_status r (if_op_index x) \<and>
    if_status x \<noteq> NFS_OK \<and> rv_status r = if_status x \<and>
    (\<forall>i. fst (snd (rs ! length cs)) \<le> i \<and> i < if_op_index x \<longrightarrow> rv_op_status r i = NFS_OK)"
  using assms
proof (induction r rs acc arbitrary: cs rule: analyze_items.induct)
  case (2 reply caller start e' rest acc)
  let ?f = "find (\<lambda>i. rv_op_status reply i \<noteq> NFS_OK) [start..<min e' (rv_nops reply)]"
  show ?case
  proof (cases ?f)
    case (Some j)
    with 2(2) have "cs = []" and "x = \<lparr> if_caller = caller, if_op_index = j, if_status = rv_op_status reply j \<rparr>"
      and "rv_nops reply = j + 1" "rv_status reply = rv_op_status reply j"
      by (auto split: if_splits)
    with Some show ?thesis by (auto simp: find_upt_Some)
  next
    case None
    with 2(2) have nle: "\<not> rv_nops reply \<le> start" "\<not> rv_nops reply < e'"
      and rec: "analyze_items reply rest (acc @ [caller]) = Inr (acc @ cs, Some x, us)"
      by (auto split: if_splits)
    from analyze_items_prefix [OF rec] obtain cs' where "cs = caller # cs'" by auto
    with rec 2(1) [OF nle(1) None nle(2), of cs'] show ?thesis by simp
  qed
qed simp

lemma analyze_Inr_cases:
  assumes "analyze m r = Inr rep"
  obtains (rejected) st op where "rep = \<lparr> er_completed = [], er_failure = None,
      er_unexecuted = map fst (em_ranges m), er_compound_failure = Some st, er_compound_failure_op = op \<rparr>"
      "st \<noteq> NFS_OK"
  | (items) cs f us where "analyze_items r (em_ranges m) [] = Inr (cs, f, us)"
      "er_completed rep = cs" "er_failure rep = f" "er_unexecuted rep = us"
      "er_compound_failure rep = None \<or> f = None"
      "f = None \<Longrightarrow> er_compound_failure rep = (if rv_status r = NFS_OK then None else Some (rv_status r))"
  using assms by (auto simp: analyze_def Let_def split: if_splits sum.splits)

subsection \<open>Replies of a conforming server\<close>

definition first_failure :: "nat list \<Rightarrow> nat" where
  "first_failure stats = length (takeWhile (\<lambda>s. s = NFS_OK) stats)"

lemma first_failure_ok: "i < first_failure stats \<Longrightarrow> stats ! i = NFS_OK"
  unfolding first_failure_def by (metis (mono_tags, lifting) nth_mem set_takeWhileD takeWhile_nth)

lemma first_failure_le: "first_failure stats \<le> length stats"
  by (simp add: first_failure_def length_takeWhile_le)

lemma first_failure_bad: "first_failure stats < length stats \<Longrightarrow> stats ! first_failure stats \<noteq> NFS_OK"
  unfolding first_failure_def by (rule nth_length_takeWhile)

lemma server_reply_ok_prefix:
  "takeWhile (\<lambda>s. s = NFS_OK) stats = take (first_failure stats) stats"
  unfolding first_failure_def by (rule takeWhile_eq_take)

lemma server_reply_executed:
  "takeWhile (\<lambda>s. s = NFS_OK) stats @
     take 1 (drop (length (takeWhile (\<lambda>s. s = NFS_OK) stats)) stats) =
   take (first_failure stats + 1) stats"
  unfolding server_reply_ok_prefix using first_failure_le [of stats]
  by (simp only: length_take min_absorb2 take_add)

lemma server_reply_view:
  "rv_nops (server_reply stats) = min (first_failure stats + 1) (length stats)"
  "i \<le> first_failure stats \<Longrightarrow> rv_op_status (server_reply stats) i = stats ! i"
  unfolding server_reply_def Let_def server_reply_executed by simp_all

lemma server_reply_status:
  "first_failure stats < length stats \<Longrightarrow>
     rv_status (server_reply stats) = stats ! first_failure stats"
  "first_failure stats = length stats \<Longrightarrow> rv_status (server_reply stats) = NFS_OK"
proof -
  assume "first_failure stats < length stats"
  then show "rv_status (server_reply stats) = stats ! first_failure stats"
    unfolding server_reply_def Let_def server_reply_executed
    by (simp add: take_Suc_conv_app_nth)
next
  assume eq: "first_failure stats = length stats"
  then have "stats = [] \<or> last stats = NFS_OK"
    using first_failure_ok [of "length stats - 1" stats]
    by (cases "stats = []") (simp_all add: last_conv_nth)
  then show "rv_status (server_reply stats) = NFS_OK"
    unfolding server_reply_def Let_def server_reply_executed using eq by auto
qed

lemma server_reply_wf: "stats \<noteq> [] \<Longrightarrow> wf_reply (server_reply stats)"
  using first_failure_le [of stats]
  by (auto simp: wf_reply_def server_reply_view server_reply_status first_failure_ok min_def
      dest!: le_imp_less_or_eq)

lemma layout_bounds:
  "(c, s, e) \<in> set (layout n items) \<Longrightarrow> n \<le> s \<and> s \<le> e"
  by (induction n items rule: layout.induct) auto

lemma layout_after [simp]:
  assumes "k < n"
  shows "filter (\<lambda>(c, s, e). e \<le> k) (layout n items) = []"
    "filter (\<lambda>(c, s, e). k < s) (layout n items) = layout n items"
    "find (\<lambda>(c, s, e). s \<le> k \<and> k < e) (layout n items) = None"
  using assms layout_bounds [of _ _ _ n items]
  by (fastforce simp: filter_empty_conv find_None_iff intro!: filter_True)+

text \<open>The specification of the analysis: an item is completed when all its
  operations precede the first failure, failed when it contains it, and
  unexecuted when it starts after it.\<close>

definition item_failure :: "nat list \<Rightarrow> item_range list \<Rightarrow> ItemFailure option" where
  "item_failure stats rs =
     (let k = first_failure stats
      in map_option (\<lambda>(c, s, e). \<lparr> if_caller = c, if_op_index = k, if_status = stats ! k \<rparr>)
           (find (\<lambda>(c, s, e). s \<le> k \<and> k < e) rs))"

lemma find_status_server:
  assumes "e \<le> length stats"
  shows "find (\<lambda>i. rv_op_status (server_reply stats) i \<noteq> NFS_OK)
      [s..<min e (rv_nops (server_reply stats))] =
    (if s \<le> first_failure stats \<and> first_failure stats < e then Some (first_failure stats) else None)"
proof (cases "s \<le> first_failure stats \<and> first_failure stats < e")
  case True
  then have "first_failure stats < length stats" using assms by simp
  with True have "find (\<lambda>i. rv_op_status (server_reply stats) i \<noteq> NFS_OK)
      [s..<min e (rv_nops (server_reply stats))] = Some (first_failure stats)"
    unfolding find_upt_Some by (auto simp: server_reply_view first_failure_ok first_failure_bad)
  with True show ?thesis by simp
next
  case False
  have "rv_op_status (server_reply stats) j = NFS_OK"
    if "s \<le> j" "j < e" "j < rv_nops (server_reply stats)" for j
  proof -
    have "j < first_failure stats"
      using False that by (auto simp: server_reply_view)
    then show ?thesis by (simp add: server_reply_view first_failure_ok)
  qed
  then have "find (\<lambda>i. rv_op_status (server_reply stats) i \<noteq> NFS_OK)
      [s..<min e (rv_nops (server_reply stats))] = None"
    unfolding find_upt_None by auto
  with False show ?thesis by argo
qed

lemma analyze_items_server:
  assumes "\<forall>item \<in> set items. 0 < snd item" "n + sum_list (map snd items) \<le> length stats"
  shows "analyze_items (server_reply stats) (layout n items) acc =
    Inr (acc @ map fst (filter (\<lambda>(c, s, e). e \<le> first_failure stats) (layout n items)),
         item_failure stats (layout n items),
         map fst (filter (\<lambda>(c, s, e). first_failure stats < s) (layout n items)))"
  using assms
proof (induction items arbitrary: n acc)
  case Nil
  then show ?case by (simp add: item_failure_def Let_def)
next
  case (Cons item items)
  obtain c count where [simp]: "item = (c, count)" by fastforce
  let ?k = "first_failure stats" and ?r = "server_reply stats"
  have pos: "0 < count" and len: "n + count \<le> length stats" using Cons.prems by auto
  show ?case
  proof (cases "?k < n")
    case True
    then have "rv_nops ?r \<le> n" by (simp add: server_reply_view)
    with True show ?thesis by (simp add: item_failure_def Let_def)
  next
    case False
    then have start: "\<not> rv_nops ?r \<le> n" using pos len by (simp add: server_reply_view)
    show ?thesis
    proof (cases "?k < n + count")
      case True
      then have "?k < length stats" using len by simp
      then show ?thesis
        using True False start find_status_server [OF len, of n]
        by (simp add: item_failure_def Let_def server_reply_view server_reply_status)
    next
      case past: False
      then have "n + count \<le> rv_nops ?r" using len by (simp add: server_reply_view)
      then show ?thesis
        using past False start find_status_server [OF len, of n] Cons
        by (simp add: item_failure_def Let_def add.assoc)
    qed
  qed
qed

lemma executed_range_op_ok:
  assumes "analyze m reply = Inr report" "distinct (map fst (em_ranges m))"
    and "(s, e) \<in> set (executed_ranges m report)" "s \<le> i" "i < e"
  shows "i < rv_nops reply \<and> rv_op_status reply i = NFS_OK"
  using assms(1)
proof (cases rule: analyze_Inr_cases)
  case rejected
  then show ?thesis using assms(3) by (simp add: executed_ranges_def completed_ranges_def)
next
  case (items cs f us)
  have it: "analyze_items reply (em_ranges m) [] = Inr ([] @ cs, f, us)" using items(1) by simp
  show ?thesis
  proof (cases "\<exists>c. (c, s, e) \<in> set (take (length cs) (em_ranges m))")
    case True
    then show ?thesis using analyze_items_completed_ok [OF it] assms(4,5) by blast
  next
    case False
    then obtain x where f: "f = Some x"
      using assms(3) items by (cases f) (auto simp: executed_ranges_def completed_ranges_def)
    let ?find = "find (\<lambda>(caller, _, _). caller = if_caller x) (em_ranges m)"
    obtain c e' where found: "?find = Some (c, s, e')" and e: "e = if_op_index x"
      using False assms(3) items f
      by (cases ?find) (auto simp: executed_ranges_def completed_ranges_def)
    let ?y = "em_ranges m ! length cs"
    note fail = analyze_items_failure [OF it [unfolded f]]
    from found have "(c, s, e') \<in> set (em_ranges m)" "c = if_caller x"
      by (auto simp: find_Some_iff in_set_conv_nth)
    moreover have "?y \<in> set (em_ranges m)" "fst ?y = if_caller x" using fail by auto
    ultimately have "?y = (c, s, e')"
      using eq_key_imp_eq_value [OF assms(2), of c "(s, e')" "snd ?y"] by (metis prod.collapse)
    then show ?thesis using fail e assms(4,5) by auto
  qed
qed

text \<open>The executed ranges are the completed items and the part of the failed item before its
  failed operation.\<close>

lemma executed_ranges_items:
  assumes "analyze_items reply (em_ranges m) [] = Inr (cs, f, us)" "er_completed report = cs" "er_failure report = f"
    and "distinct (map fst (em_ranges m))"
  shows "executed_ranges m report = map snd (take (length cs) (em_ranges m)) @
    (case f of None \<Rightarrow> [] | Some x \<Rightarrow> [(fst (snd (em_ranges m ! length cs)), if_op_index x)])"
proof (cases f)
  case None
  then show ?thesis using assms(2,3) by (simp add: executed_ranges_def completed_ranges_def case_prod_beta)
next
  case (Some x)
  let ?y = "em_ranges m ! length cs" and ?find = "find (\<lambda>(caller, _, _). caller = if_caller x) (em_ranges m)"
  have it: "analyze_items reply (em_ranges m) [] = Inr ([] @ cs, Some x, us)" using assms(1) Some by simp
  note fail = analyze_items_failure [OF it]
  have y: "?y \<in> set (em_ranges m)" "fst ?y = if_caller x" using fail by auto
  then have "?find \<noteq> None" by (auto simp: find_None_iff) (metis prod.collapse)
  then obtain c s e where found: "?find = Some (c, s, e)" by (cases ?find) auto
  then have "(c, s, e) \<in> set (em_ranges m)" "c = if_caller x" by (auto simp: find_Some_iff in_set_conv_nth)
  then have "?y = (c, s, e)"
    using y eq_key_imp_eq_value [OF assms(4), of c "(s, e)" "snd ?y"] by (metis prod.collapse)
  then show ?thesis using Some found assms(2,3) by (simp add: executed_ranges_def completed_ranges_def case_prod_beta)
qed

lemma executed_in_item:
  assumes "analyze m reply = Inr report" "distinct (map fst (em_ranges m))" "(s, e) \<in> set (executed_ranges m report)"
  shows "\<exists>c e'. (c, s, e') \<in> set (em_ranges m) \<and> e \<le> e'"
  using assms(1)
proof (cases rule: analyze_Inr_cases)
  case rejected
  then show ?thesis using assms(3) by (simp add: executed_ranges_def completed_ranges_def)
next
  case (items cs f us)
  note ranges = executed_ranges_items [OF items(1-3) assms(2)]
  show ?thesis
  proof (cases "(s, e) \<in> set (map snd (take (length cs) (em_ranges m)))")
    case True
    then obtain c where "(c, s, e) \<in> set (em_ranges m)" by (auto dest!: in_set_takeD)
    then show ?thesis by blast
  next
    case False
    then obtain x where x: "f = Some x" "s = fst (snd (em_ranges m ! length cs))" "e = if_op_index x"
      using assms(3) unfolding ranges by (auto split: option.splits)
    have it: "analyze_items reply (em_ranges m) [] = Inr ([] @ cs, Some x, us)" using items(1) x(1) by simp
    from analyze_items_failure [OF it] x(2,3) show ?thesis
      by (metis less_imp_le nth_mem prod.collapse)
  qed
qed

lemma layout_ordered: "sorted_wrt (\<lambda>x y. snd (snd x) \<le> fst (snd y)) (layout n items)"
proof (induction n items rule: layout.induct)
  case (2 n caller count items)
  then show ?case using layout_bounds [of _ _ _ "n + count" items] by fastforce
qed simp

text \<open>They follow each other in the reply.\<close>

lemma executed_ordered:
  assumes "analyze m reply = Inr report" "distinct (map fst (em_ranges m))" "em_ranges m = layout n items"
  shows "sorted_wrt (\<lambda>x y. snd x \<le> fst y) (executed_ranges m report)"
  using assms(1)
proof (cases rule: analyze_Inr_cases)
  case rejected
  then show ?thesis by (simp add: executed_ranges_def completed_ranges_def)
next
  case (items cs f us)
  have sorted: "sorted_wrt (\<lambda>x y. snd (snd x) \<le> fst (snd y)) (em_ranges m)" unfolding assms(3) by (rule layout_ordered)
  have front: "sorted_wrt (\<lambda>x y. snd x \<le> fst y) (map snd (take (length cs) (em_ranges m)))"
    using sorted_wrt_take [OF sorted] by (simp add: sorted_wrt_map)
  show ?thesis
  proof (cases f)
    case None
    then show ?thesis using executed_ranges_items [OF items(1-3) assms(2)] front by simp
  next
    case (Some x)
    have it: "analyze_items reply (em_ranges m) [] = Inr ([] @ cs, Some x, us)" using items(1) Some by simp
    note fail = analyze_items_failure [OF it]
    have "snd (snd y) \<le> fst (snd (em_ranges m ! length cs))" if "y \<in> set (take (length cs) (em_ranges m))" for y
      using that sorted fail by (auto simp: in_set_conv_nth sorted_wrt_iff_nth_less)
    then show ?thesis using executed_ranges_items [OF items(1-3) assms(2)] front Some by (auto simp: sorted_wrt_append)
  qed
qed

text \<open>Whatever succeeded is in one of them.\<close>

lemma analyze_items_reached:
  assumes "analyze_items r (layout n items) acc = Inr (acc @ cs, f, us)"
    and "(c, s, e) \<in> set (layout n items)" "s \<le> i" "i < e" "i < rv_nops r" "rv_op_status r i = NFS_OK"
  shows "(c, s, e) \<in> set (take (length cs) (layout n items)) \<or>
    (\<exists>x. f = Some x \<and> (c, s, e) = layout n items ! length cs \<and> i < if_op_index x)"
  using assms
proof (induction items arbitrary: n acc cs)
  case (Cons item items)
  obtain caller count where item: "item = (caller, count)" by fastforce
  let ?rest = "layout (n + count) items"
  let ?find = "find (\<lambda>i. rv_op_status r i \<noteq> NFS_OK) [n..<min (n + count) (rv_nops r)]"
  have later: "n + count \<le> s" if "(c, s, e) \<in> set ?rest" using layout_bounds [OF that] by simp
  have before: "n < rv_nops r" using Cons.prems(2-5) later item by auto
  show ?case
  proof (cases ?find)
    case (Some j)
    then have j: "j < n + count" "n \<le> j" "rv_op_status r j \<noteq> NFS_OK" by (auto simp: find_upt_Some)
    have fail: "cs = []" "rv_nops r = j + 1" "f = Some \<lparr> if_caller = caller, if_op_index = j, if_status = rv_op_status r j \<rparr>"
      using Cons.prems(1) Some before item by (auto split: if_splits)
    then have "(c, s, e) \<notin> set ?rest" using later Cons.prems(3,5) j(1) by auto
    moreover have "i < j" using Cons.prems(5,6) fail(2) j(3) by (metis less_SucE Suc_eq_plus1)
    ultimately show ?thesis using Cons.prems(2) fail item by auto
  next
    case None
    then have nle: "\<not> rv_nops r < n + count"
      and rec: "analyze_items r ?rest (acc @ [caller]) = Inr (acc @ cs, f, us)"
      using Cons.prems(1) before item by (auto split: if_splits)
    from analyze_items_prefix [OF rec] obtain cs' where cs: "cs = caller # cs'" by auto
    show ?thesis
    proof (cases "(c, s, e) \<in> set ?rest")
      case True
      have "analyze_items r ?rest (acc @ [caller]) = Inr ((acc @ [caller]) @ cs', f, us)" using rec cs by simp
      from Cons.IH [OF this True Cons.prems(3-6)] show ?thesis using cs item by auto
    next
      case False
      then show ?thesis using Cons.prems(2) cs item by auto
    qed
  qed
qed simp

lemma executed_ranges_cover:
  assumes "analyze m reply = Inr report" "distinct (map fst (em_ranges m))" "em_ranges m = layout n items"
    and "rv_op_status reply 0 = NFS_OK"
    and "(c, s, e) \<in> set (em_ranges m)" "s \<le> i" "i < e" "i < rv_nops reply" "rv_op_status reply i = NFS_OK"
  shows "\<exists>e'. (s, e') \<in> set (executed_ranges m report) \<and> i < e' \<and> e' \<le> e"
proof -
  from assms(1,4,8) obtain cs f us where items: "analyze_items reply (em_ranges m) [] = Inr (cs, f, us)"
    "er_completed report = cs" "er_failure report = f"
    by (auto simp: analyze_def Let_def split: if_splits sum.splits)
  have it: "analyze_items reply (layout n items) [] = Inr ([] @ cs, f, us)" using items(1) assms(3) by simp
  note ranges = executed_ranges_items [OF items assms(2)]
  from analyze_items_reached [OF it assms(5) [unfolded assms(3)] assms(6-9)] show ?thesis
  proof (elim disjE exE conjE)
    assume "(c, s, e) \<in> set (take (length cs) (layout n items))"
    then have "(s, e) \<in> set (executed_ranges m report)" unfolding ranges assms(3) by (force simp: image_iff)
    then show ?thesis using assms(7) by blast
  next
    fix x assume x: "f = Some x" "(c, s, e) = layout n items ! length cs" "i < if_op_index x"
    have "if_op_index x < e" using analyze_items_failure [OF it [unfolded x(1)]] x(2) by (metis snd_conv)
    then show ?thesis unfolding ranges assms(3) using x by (metis (no_types, lifting) Un_iff fst_conv list.set_intros(1)
        option.case(2) set_append snd_conv less_imp_le)
  qed
qed

section \<open>The contract of the reply decoder\<close>

text \<open>The component that decodes replies hands over only replies it validated;
  what it promises of them is \<^const>\<open>wf_reply\<close>.  On such replies the analysis can
  fail in one way only: the server stopped inside an item although the compound
  succeeded so far, which the decoder excludes by comparing the operation counts.\<close>

locale reply_source =
  fixes accepted :: "'req \<Rightarrow> 'res \<Rightarrow> bool"
    and view :: "'res \<Rightarrow> reply_view"
    and op_count :: "'req \<Rightarrow> nat"
  assumes accepted_wf: "accepted req res \<Longrightarrow> 0 < op_count req \<Longrightarrow> wf_reply (view res)"
    and accepted_count: "accepted req res \<Longrightarrow> rv_nops (view res) \<le> op_count req"
    and accepted_ok: "accepted req res \<Longrightarrow> rv_status (view res) = NFS_OK \<Longrightarrow>
      rv_nops (view res) = op_count req"
begin

lemma analyze_items_accepted:
  assumes "accepted req res" "0 < op_count req" "\<forall>(c, s, e) \<in> set rs. e \<le> op_count req"
    "0 < rv_nops (view res)"
  shows "\<exists>out. analyze_items (view res) rs acc = Inr out"
  using assms(3)
proof (induction rs arbitrary: acc)
  case (Cons range rs)
  obtain c s e where [simp]: "range = (c, s, e)" by (cases range)
  let ?r = "view res"
  have wf: "wf_reply ?r" using assms(1,2) by (rule accepted_wf)
  let ?f = "find (\<lambda>i. rv_op_status ?r i \<noteq> NFS_OK) [s..<min e (rv_nops ?r)]"
  show ?case
  proof (cases ?f)
    case (Some i)
    then have i: "i < rv_nops ?r" "rv_op_status ?r i \<noteq> NFS_OK"
      unfolding find_upt_Some by auto
    with wf have "\<not> i < rv_nops ?r - 1" by (auto simp: wf_reply_def)
    with i have eq: "rv_nops ?r = i + 1" by simp
    with wf have "rv_status ?r = rv_op_status ?r i" by (simp add: wf_reply_def)
    with eq Some show ?thesis by simp
  next
    case None
    have "e \<le> rv_nops ?r" if "s < rv_nops ?r"
    proof (rule ccontr)
      assume "\<not> e \<le> rv_nops ?r"
      then have "s \<le> rv_nops ?r - 1 \<and> rv_nops ?r - 1 < min e (rv_nops ?r)"
        using that by auto
      with None have "rv_op_status ?r (rv_nops ?r - 1) = NFS_OK"
        unfolding find_upt_None by blast
      with wf assms(4) have "rv_status ?r = NFS_OK" by (simp add: wf_reply_def)
      with accepted_ok [OF assms(1)] Cons.prems \<open>\<not> e \<le> rv_nops ?r\<close> show False by simp
    qed
    then show ?thesis using None Cons by (cases "rv_nops ?r \<le> s") auto
  qed
qed simp

theorem analyze_accepted:
  assumes "accepted req res" "0 < op_count req" "\<forall>(c, s, e) \<in> set (em_ranges m). e \<le> op_count req"
  shows "\<exists>rep. analyze m (view res) = Inr rep"
proof (cases "rv_nops (view res) = 0")
  case True
  then show ?thesis using accepted_wf [OF assms(1,2)] by (simp add: analyze_def wf_reply_def)
next
  case False
  with analyze_items_accepted [OF assms(1,2,3)] obtain cs f us
    where "analyze_items (view res) (em_ranges m) [] = Inr (cs, f, us)" by (metis prod_cases3 neq0_conv)
  with False show ?thesis
    using accepted_wf [OF assms(1,2)] by (auto simp: analyze_def Let_def wf_reply_def)
qed

end

section \<open>Properties\<close>

text \<open>C8 (partition).  Whatever the reply, a report accepted by \<^verbatim>\<open>analyze\<close> lists every
  caller of the compound exactly where it stood: the completed items are a
  prefix, followed by at most one failed item, followed by the items that were
  never executed.  No caller is lost, duplicated or reordered.\<close>

theorem analyze_partitions_callers:
  assumes "analyze m reply = Inr report"
  shows "map fst (em_ranges m) =
    er_completed report @
    (case er_failure report of None \<Rightarrow> [] | Some f \<Rightarrow> [if_caller f]) @
    er_unexecuted report"
  using assms
proof (cases rule: analyze_Inr_cases)
  case (items cs f us)
  then show ?thesis using analyze_items_split [OF items(1)] by simp
qed simp

theorem analyze_partitions_callers_witness:
  "map fst (em_ranges (build_map [(7, 2), (9, 1), (4, 3)])) = [7] @ [9] @ [4]"
  using analyze_partitions_callers [of "build_map [(7, 2), (9, 1), (4, 3)]" "server_reply [0, 0, 0, 13]"
      "\<lparr> er_completed = [7], er_failure = Some \<lparr> if_caller = 9, if_op_index = 3, if_status = 13 \<rparr>,
         er_unexecuted = [4], er_compound_failure = None, er_compound_failure_op = None \<rparr>"]
  by (simp add: build_map_def map_new_def map_begin_def map_note_ops_def map_end_def sat_add_def
      u64_max_def server_reply_def analyze_def NFS_OK_def upt_rec)

text \<open>C7 (exact attribution).  For a compound built with \<^verbatim>\<open>begin\<close>, \<^verbatim>\<open>note_ops\<close> and
  \<^verbatim>\<open>end\<close> from non-empty items, possibly followed by trailing operations, and for a
  server that stops at the first failing operation, \<^verbatim>\<open>analyze\<close> never rejects the
  reply and classifies exactly: an item is completed iff all its operations
  precede the first failure, it is the failed item iff it contains the first
  failure, it is unexecuted iff it starts after it, and a failure outside all
  items is reported as a failure of the compound.\<close>

theorem analyze_conforming_server:
  assumes "\<forall>item \<in> set items. 0 < snd item"
    and "1 + sum_list (map snd items) \<le> length stats" "length stats \<le> usize_max"
    and "stats ! 0 = NFS_OK"
  shows "analyze (build_map items) (server_reply stats) = Inr
    (let k = first_failure stats;
         trailing = k < length stats \<and> item_failure stats (layout 1 items) = None
     in \<lparr> er_completed = map fst (filter (\<lambda>(c, s, e). e \<le> k) (layout 1 items)),
          er_failure = item_failure stats (layout 1 items),
          er_unexecuted = map fst (filter (\<lambda>(c, s, e). k < s) (layout 1 items)),
          er_compound_failure = (if trailing then Some (stats ! k) else None),
          er_compound_failure_op = (if trailing then Some k else None) \<rparr>)"
proof -
  let ?k = "first_failure stats" and ?r = "server_reply stats"
  have nonempty: "stats \<noteq> []" using assms(2) by auto
  then have kpos: "0 < ?k" using assms(4) by (cases stats) (simp_all add: first_failure_def)
  have map: "em_ranges (build_map items) = layout 1 items"
    using build_map_layout [of items] assms(2,3) by simp
  have nops: "rv_nops ?r \<noteq> 0" "rv_op_status ?r 0 = NFS_OK"
    using nonempty assms(4) by (simp_all add: server_reply_view)
  have items: "analyze_items ?r (layout 1 items) [] =
     Inr (map fst (filter (\<lambda>(c, s, e). e \<le> ?k) (layout 1 items)), item_failure stats (layout 1 items),
          map fst (filter (\<lambda>(c, s, e). ?k < s) (layout 1 items)))"
    using analyze_items_server [OF assms(1), of 1 stats "[]"] assms(2) by simp
  show ?thesis
  proof (cases "?k < length stats")
    case True
    then have "rv_status ?r = stats ! ?k" "rv_status ?r \<noteq> NFS_OK" "rv_nops ?r - 1 = ?k"
      by (simp_all add: server_reply_status first_failure_bad server_reply_view)
    then show ?thesis
      using True nops by (simp add: analyze_def map items Let_def server_reply_view del: One_nat_def)
  next
    case False
    then have "rv_status ?r = NFS_OK"
      using first_failure_le [of stats] by (simp add: server_reply_status)
    then show ?thesis using False nops by (simp add: analyze_def map items Let_def del: One_nat_def)
  qed
qed

theorem analyze_conforming_server_witness:
  "analyze (build_map [(7, 2), (9, 1), (4, 3)]) (server_reply [0, 0, 0, 13, 0, 0, 0]) =
    Inr \<lparr> er_completed = [7], er_failure = Some \<lparr> if_caller = 9, if_op_index = 3, if_status = 13 \<rparr>,
          er_unexecuted = [4], er_compound_failure = None, er_compound_failure_op = None \<rparr>"
  using analyze_conforming_server [of "[(7, 2), (9, 1), (4, 3)]" "[0, 0, 0, 13, 0, 0, 0]"]
  by (simp add: NFS_OK_def u64_max_def item_failure_def first_failure_def)

text \<open>C20 (cleanup ranges).  Let the items of a compound have distinct callers and its SEQUENCE
  have succeeded.  Then an operation of an item lies in a range returned by
  \<^verbatim>\<open>executed_ranges\<close> exactly if the reply contains it and it succeeded, so the stateids
  read from those positions exist and none is missed.\<close>

theorem executed_ranges_succeeded:
  assumes "analyze (build_map items) reply = Inr report" "distinct (map fst items)"
    and "1 + sum_list (map snd items) \<le> usize_max" "rv_op_status reply 0 = NFS_OK"
    and "(c, s, e) \<in> set (em_ranges (build_map items))" "s \<le> i" "i < e"
  shows "(\<exists>s' e'. (s', e') \<in> set (executed_ranges (build_map items) report) \<and> s' \<le> i \<and> i < e') \<longleftrightarrow>
    i < rv_nops reply \<and> rv_op_status reply i = NFS_OK"
proof -
  have ranges: "em_ranges (build_map items) = layout 1 items" using build_map_layout [OF assms(3)] by simp
  have dist: "distinct (map fst (em_ranges (build_map items)))" using assms(2) by (simp add: ranges)
  show ?thesis
    using executed_range_op_ok [OF assms(1) dist] executed_ranges_cover [OF assms(1) dist ranges assms(4-7)] assms(6) by blast
qed

theorem executed_ranges_succeeded_witness:
  "\<exists>report. analyze (build_map [(7, 1), (9, 2)]) (server_reply [0, 0, 0, 13]) = Inr report \<and>
     executed_ranges (build_map [(7, 1), (9, 2)]) report = [(1, 2), (2, 3)] \<and>
     (\<exists>s' e'. (s', e') \<in> set (executed_ranges (build_map [(7, 1), (9, 2)]) report) \<and> s' \<le> 2 \<and> 2 < e') \<and>
     \<not> (\<exists>s' e'. (s', e') \<in> set (executed_ranges (build_map [(7, 1), (9, 2)]) report) \<and> s' \<le> 3 \<and> 3 < e')"
proof -
  let ?m = "build_map [(7, 1), (9, 2)]" and ?reply = "server_reply [0, 0, 0, 13]"
  let ?report = "\<lparr> er_completed = [7], er_failure = Some \<lparr> if_caller = 9, if_op_index = 3, if_status = 13 \<rparr>,
      er_unexecuted = [], er_compound_failure = None, er_compound_failure_op = None \<rparr>"
  note defs = build_map_def map_new_def map_begin_def map_note_ops_def map_end_def sat_add_def u64_max_def server_reply_def
    NFS_OK_def upt_rec
  have ana: "analyze ?m ?reply = Inr ?report" by (simp add: defs analyze_def)
  have "executed_ranges ?m ?report = [(1, 2), (2, 3)]" by (simp add: defs executed_ranges_def completed_ranges_def)
  moreover have "(9, 2, 4) \<in> set (em_ranges ?m)" by (simp add: defs)
  ultimately show ?thesis
    using ana executed_ranges_succeeded [OF ana _ _ _ \<open>(9, 2, 4) \<in> set (em_ranges ?m)\<close>, of 2]
      executed_ranges_succeeded [OF ana _ _ _ \<open>(9, 2, 4) \<in> set (em_ranges ?m)\<close>, of 3]
    by (simp add: server_reply_def NFS_OK_def u64_max_def)
qed

text \<open>C12 (retry only before mutation).  A mutation compound starts with SEQUENCE and
  a PUTFH.  On the reply of a conforming server,
  \<^verbatim>\<open>resource_rejected_before_mutation\<close> holds iff the compound was rejected for lack
  of resources at one of these two operations, so nothing that mutates ran.\<close>

theorem resource_rejected_before_mutation_iff:
  assumes "2 < length stats"
  shows "resource_rejected_before_mutation (server_reply stats) \<longleftrightarrow>
    first_failure stats < 2 \<and>
    stats ! first_failure stats \<in> {NFS4ERR_RESOURCE, NFS4ERR_TOO_MANY_OPS}"
proof (cases "first_failure stats < 2")
  case True
  then have "rv_status (server_reply stats) = stats ! first_failure stats"
    "rv_nops (server_reply stats) = first_failure stats + 1"
    "rv_op_status (server_reply stats) (first_failure stats) \<noteq> NFS_OK"
    using assms first_failure_bad [of stats] by (simp_all add: server_reply_status server_reply_view)
  with True show ?thesis
    by (cases "first_failure stats")
      (auto simp: resource_rejected_before_mutation_def less_Suc_eq)
next
  case False
  then have "3 \<le> rv_nops (server_reply stats)" using assms by (simp add: server_reply_view)
  with False show ?thesis by (simp add: resource_rejected_before_mutation_def)
qed

theorem resource_rejected_before_mutation_iff_witness:
  "resource_rejected_before_mutation (server_reply [0, 10018, 0]) \<and>
   \<not> resource_rejected_before_mutation (server_reply [0, 0, 10018])"
  using resource_rejected_before_mutation_iff [of "[0, 10018, 0]"]
    resource_rejected_before_mutation_iff [of "[0, 0, 10018]"]
  by (simp add: first_failure_def planner_status)

text \<open>C21 (window bounds).  Starting from the negotiated operation limit, no sequence
  of observed replies ever drives the window of any shape to zero or above the
  negotiated limit.\<close>

theorem limits_window_bounds:
  assumes "1 \<le> negotiated"
  shows "1 \<le> limits_limit (limits_observe_all (limits_new negotiated) obs) tag \<and>
    limits_limit (limits_observe_all (limits_new negotiated) obs) tag \<le> negotiated"
  using limits_wf_limit [of "limits_observe_all (limits_new negotiated) obs" tag] assms
    limits_observe_all_wf [OF limits_new_wf, of negotiated obs]
  by (simp add: limits_new_def)

theorem limits_window_bounds_witness:
  "1 \<le> limits_limit (limits_observe_all (limits_new 40) [(''readv'', 40, 10018, 0), (''readv'', 20, 0, 20)]) ''readv''"
  using limits_window_bounds [of 40 "[(''readv'', 40, 10018, 0), (''readv'', 20, 0, 20)]" "''readv''"] by simp

text \<open>C22 (rejected sizes stay rejected).  Once the server answered TOO_MANY_OPS to a
  compound of n operations, the window of that shape stays below n, whatever is
  observed afterwards.\<close>

theorem limits_rejected_size_not_retried:
  assumes "limits_wf l" "1 < n"
  shows "limits_limit
    (limits_observe_all (limits_observe l tag n NFS4ERR_TOO_MANY_OPS k) obs) tag < n"
  using assms
  by (intro shape_below_limit limits_observe_all_wf limits_observe_wf shape_below_observe_all
      too_many_ops_shape_below)

theorem limits_rejected_size_not_retried_witness:
  "limits_limit (limits_observe_all (limits_observe (limits_new 64) ''setattrv'' 50 10070 0)
     [(''setattrv'', 25, 0, 25), (''setattrv'', 33, 0, 33)]) ''setattrv'' < 50"
  using limits_rejected_size_not_retried [of "limits_new 64" 50 "''setattrv''" 0
      "[(''setattrv'', 25, 0, 25), (''setattrv'', 33, 0, 33)]"]
  by (simp add: NFS4ERR_TOO_MANY_OPS_def)

text \<open>C23 (recovery of the window).  After any back-off, full windows accepted by the
  server grow the window back to its ceiling, and at most 32 of them are needed
  per operation regained.\<close>

theorem sizer_recovers:
  assumes "sizer_wf s" "sz_ceiling s \<le> usize_max"
  shows "\<exists>m \<le> 32 * (sz_ceiling s - sz_current s).
    sz_current ((sizer_full_success ^^ m) s) = sz_ceiling s"
  using sizer_reaches_ceiling [OF assms] by blast

theorem sizer_recovers_witness:
  "\<exists>m \<le> 32 * 30. sz_current ((sizer_full_success ^^ m)
     (sizer_resource_rejected (sizer_new 40 40) 20)) = 40"
  using sizer_recovers [of "sizer_resource_rejected (sizer_new 40 40) 20"]
  by (simp add: sizer_wf_def sizer_resource_rejected_def sizer_new_def u64_max_def)

end
