(* ===== verification/Vfs_Error.thy ===== *)
theory Vfs_Error
  imports Vfs_Prelude
begin

text \<open>
  Portable errors and the diagnostics of the RPC layer:
  \<^verbatim>\<open>crates/vfsi-core/src/error.rs\<close>.

  A \<^verbatim>\<open>VfError\<close> carries the index of the input it is about, a detail (native
  status, client category or transport provenance) and an optional context.
  \<^verbatim>\<open>std::io::ErrorKind\<close> and its decoding of Linux errno values belong to the
  standard library and are modelled here as the sources use them.  Messages are
  strings; the source of an error keeps its category and its errno.
\<close>

section \<open>Categories\<close>

datatype ErrorKind =
    K_NotFound | K_PermissionDenied | K_ConnectionRefused | K_ConnectionReset
  | K_HostUnreachable | K_NetworkUnreachable | K_ConnectionAborted | K_NotConnected
  | K_AddrInUse | K_AddrNotAvailable | K_NetworkDown | K_BrokenPipe | K_AlreadyExists
  | K_WouldBlock | K_NotADirectory | K_IsADirectory | K_DirectoryNotEmpty
  | K_ReadOnlyFilesystem | K_FilesystemLoop | K_StaleNetworkFileHandle | K_InvalidInput
  | K_InvalidData | K_TimedOut | K_WriteZero | K_StorageFull | K_NotSeekable
  | K_QuotaExceeded | K_FileTooLarge | K_ResourceBusy | K_ExecutableFileBusy | K_Deadlock
  | K_CrossesDevices | K_TooManyLinks | K_InvalidFilename | K_ArgumentListTooLong
  | K_Interrupted | K_Unsupported | K_UnexpectedEof | K_OutOfMemory | K_InProgress
  | K_Other | K_Uncategorized

datatype TransportKind = Timeout | Connection | InvalidReply | Auth | OtherTransport

datatype ErrorDomain = Filesystem | Nfs_Domain | Smb_Domain | Transport_Domain | Client_Domain

datatype StatusCode = Errno nat | Nfs nat | Smb nat

datatype ErrorDetail = Status StatusCode | Client ErrorKind | TransportFailure TransportKind

text \<open>Linux errno values used by the sources.\<close>

definition EPERM :: nat where "EPERM = 1"
definition ENOENT :: nat where "ENOENT = 2"
definition EINTR :: nat where "EINTR = 4"
definition EIO :: nat where "EIO = 5"
definition EBADF :: nat where "EBADF = 9"
definition EAGAIN :: nat where "EAGAIN = 11"
definition ENOMEM :: nat where "ENOMEM = 12"
definition EACCES :: nat where "EACCES = 13"
definition EBUSY :: nat where "EBUSY = 16"
definition EEXIST :: nat where "EEXIST = 17"
definition EXDEV :: nat where "EXDEV = 18"
definition ENOTDIR :: nat where "ENOTDIR = 20"
definition EISDIR :: nat where "EISDIR = 21"
definition EINVAL :: nat where "EINVAL = 22"
definition EMFILE :: nat where "EMFILE = 24"
definition EFBIG :: nat where "EFBIG = 27"
definition ENOSPC :: nat where "ENOSPC = 28"
definition EROFS :: nat where "EROFS = 30"
definition EMLINK :: nat where "EMLINK = 31"
definition EPIPE :: nat where "EPIPE = 32"
definition ENAMETOOLONG :: nat where "ENAMETOOLONG = 36"
definition ENOTEMPTY :: nat where "ENOTEMPTY = 39"
definition EBADMSG :: nat where "EBADMSG = 74"
definition EOVERFLOW :: nat where "EOVERFLOW = 75"
definition EOPNOTSUPP :: nat where "EOPNOTSUPP = 95"
definition ECONNABORTED :: nat where "ECONNABORTED = 103"
definition ECONNRESET :: nat where "ECONNRESET = 104"
definition ENOTCONN :: nat where "ENOTCONN = 107"
definition ETIMEDOUT :: nat where "ETIMEDOUT = 110"
definition ECONNREFUSED :: nat where "ECONNREFUSED = 111"
definition ESTALE :: nat where "ESTALE = 116"
definition EDQUOT :: nat where "EDQUOT = 122"

lemmas errno_defs = EPERM_def ENOENT_def EINTR_def EIO_def EBADF_def EAGAIN_def ENOMEM_def
  EACCES_def EBUSY_def EEXIST_def EXDEV_def ENOTDIR_def EISDIR_def EINVAL_def EMFILE_def
  EFBIG_def ENOSPC_def EROFS_def EMLINK_def EPIPE_def ENAMETOOLONG_def ENOTEMPTY_def
  EBADMSG_def EOVERFLOW_def EOPNOTSUPP_def ECONNABORTED_def ECONNRESET_def ENOTCONN_def
  ETIMEDOUT_def ECONNREFUSED_def ESTALE_def EDQUOT_def

text \<open>A finite table with a default, the shape of the \<^verbatim>\<open>match\<close> expressions below.\<close>

definition table :: "('a \<times> 'b) list \<Rightarrow> 'b \<Rightarrow> 'a \<Rightarrow> 'b" where
  "table rows other key = (case map_of rows key of Some v \<Rightarrow> v | None \<Rightarrow> other)"

text \<open>\<^verbatim>\<open>std::io::Error::from_raw_os_error(code).kind()\<close> on Linux.\<close>

definition errno_kind_rows :: "(int \<times> ErrorKind) list" where
  "errno_kind_rows =
    [(7, K_ArgumentListTooLong), (98, K_AddrInUse), (99, K_AddrNotAvailable),
     (16, K_ResourceBusy), (103, K_ConnectionAborted), (111, K_ConnectionRefused),
     (104, K_ConnectionReset), (35, K_Deadlock), (122, K_QuotaExceeded), (17, K_AlreadyExists),
     (27, K_FileTooLarge), (113, K_HostUnreachable), (4, K_Interrupted), (22, K_InvalidInput),
     (21, K_IsADirectory), (40, K_FilesystemLoop), (2, K_NotFound), (12, K_OutOfMemory),
     (28, K_StorageFull), (38, K_Unsupported), (31, K_TooManyLinks), (36, K_InvalidFilename),
     (100, K_NetworkDown), (101, K_NetworkUnreachable), (107, K_NotConnected),
     (20, K_NotADirectory), (39, K_DirectoryNotEmpty), (32, K_BrokenPipe),
     (30, K_ReadOnlyFilesystem), (29, K_NotSeekable), (116, K_StaleNetworkFileHandle),
     (110, K_TimedOut), (26, K_ExecutableFileBusy), (18, K_CrossesDevices),
     (115, K_InProgress), (95, K_Unsupported), (13, K_PermissionDenied), (1, K_PermissionDenied),
     (11, K_WouldBlock)]"

definition errno_kind :: "int \<Rightarrow> ErrorKind" where
  "errno_kind = table errno_kind_rows K_Uncategorized"

section \<open>Errors of the RPC layer\<close>

definition STATUS_TRANSPORT :: nat where
  "STATUS_TRANSPORT = u32_max"

record RpcError =
  re_op_index :: nat
  re_status :: nat
  re_message :: string
  re_transport_kind :: "TransportKind option"

definition rpc_op :: "nat \<Rightarrow> nat \<Rightarrow> RpcError" where
  "rpc_op i st = \<lparr> re_op_index = i, re_status = st, re_message = [], re_transport_kind = None \<rparr>"

definition rpc_transport_with_kind :: "TransportKind \<Rightarrow> string \<Rightarrow> RpcError" where
  "rpc_transport_with_kind kind message =
     \<lparr> re_op_index = 0, re_status = STATUS_TRANSPORT, re_message = message,
       re_transport_kind = Some kind \<rparr>"

definition rpc_transport :: "string \<Rightarrow> RpcError" where
  "rpc_transport message = rpc_transport_with_kind OtherTransport message"

text \<open>An I/O error as the conversions below inspect it.\<close>

record io_error =
  io_kind :: ErrorKind
  io_raw_os_error :: "int option"
  io_text :: string

definition rpc_from_io :: "io_error \<Rightarrow> RpcError" where
  "rpc_from_io error =
     (let kind = (if io_kind error = K_TimedOut then Timeout
                  else if io_kind error \<in> set [K_ConnectionRefused, K_ConnectionReset,
                    K_ConnectionAborted, K_NotConnected, K_BrokenPipe] then Connection
                  else OtherTransport)
      in rpc_transport_with_kind kind (io_text error))"

definition rpc_is_transport :: "RpcError \<Rightarrow> bool" where
  "rpc_is_transport e \<longleftrightarrow> re_status e = STATUS_TRANSPORT"

definition rpc_with_op_index :: "RpcError \<Rightarrow> nat \<Rightarrow> RpcError" where
  "rpc_with_op_index e i = e \<lparr> re_op_index := i \<rparr>"

section \<open>Portable errors\<close>

record ErrorContext =
  ec_operation :: "string option"
  ec_path :: "bytes option"
  ec_message :: "string option"
  ec_source :: "io_error option"

definition context_default :: ErrorContext where
  "context_default = \<lparr> ec_operation = None, ec_path = None, ec_message = None, ec_source = None \<rparr>"

record VfError =
  ve_index :: "nat option"
  ve_detail :: ErrorDetail
  ve_context :: "ErrorContext option"

definition VF_ERR_RPC :: nat where
  "VF_ERR_RPC = u32_max"

definition VF_ERR_UNSUPPORTED :: nat where
  "VF_ERR_UNSUPPORTED = u32_max - 1"

definition context_mut :: "(ErrorContext \<Rightarrow> ErrorContext) \<Rightarrow> VfError \<Rightarrow> VfError" where
  "context_mut upd e =
     e \<lparr> ve_context := Some (upd (case ve_context e of Some c \<Rightarrow> c | None \<Rightarrow> context_default)) \<rparr>"

definition vf_from_status :: "nat option \<Rightarrow> StatusCode \<Rightarrow> VfError" where
  "vf_from_status i st = \<lparr> ve_index = i, ve_detail = Status st, ve_context = None \<rparr>"

definition vf_errno :: "nat option \<Rightarrow> nat \<Rightarrow> VfError" where
  "vf_errno i code = vf_from_status i (Errno code)"

definition vf_from_kind :: "nat option \<Rightarrow> ErrorKind \<Rightarrow> VfError" where
  "vf_from_kind i kind = \<lparr> ve_index = i, ve_detail = Client kind, ve_context = None \<rparr>"

definition vf_nfs :: "nat option \<Rightarrow> nat \<Rightarrow> VfError" where
  "vf_nfs i st = vf_from_status i (Nfs st)"

definition vf_smb :: "nat option \<Rightarrow> nat \<Rightarrow> VfError" where
  "vf_smb i st = vf_from_status i (Smb st)"

definition vf_with_message :: "VfError \<Rightarrow> string \<Rightarrow> VfError" where
  "vf_with_message e message = context_mut (\<lambda>c. c \<lparr> ec_message := Some message \<rparr>) e"

definition vf_with_context :: "VfError \<Rightarrow> string \<Rightarrow> bytes \<Rightarrow> VfError" where
  "vf_with_context e operation path =
     context_mut (\<lambda>c. c \<lparr> ec_operation := Some operation, ec_path := Some path \<rparr>) e"

text \<open>\<^verbatim>\<open>code as u32\<close> reads a signed errno modulo \<^verbatim>\<open>2^32\<close>.\<close>

definition vf_from_io :: "nat option \<Rightarrow> io_error \<Rightarrow> VfError" where
  "vf_from_io i source =
     context_mut (\<lambda>c. c \<lparr> ec_source := Some source \<rparr>)
       (case io_raw_os_error source of
          Some code \<Rightarrow> vf_errno i (nat (code mod 2 ^ 32))
        | None \<Rightarrow> vf_from_kind i (io_kind source))"

definition vf_transport_with_kind :: "nat option \<Rightarrow> TransportKind \<Rightarrow> string \<Rightarrow> VfError" where
  "vf_transport_with_kind i kind message =
     vf_with_message \<lparr> ve_index = i, ve_detail = TransportFailure kind, ve_context = None \<rparr> message"

definition vf_transport :: "nat option \<Rightarrow> string \<Rightarrow> VfError" where
  "vf_transport i message = vf_transport_with_kind i OtherTransport message"

definition vf_invalid_reply :: "nat option \<Rightarrow> string \<Rightarrow> VfError" where
  "vf_invalid_reply i message = vf_transport_with_kind i InvalidReply message"

definition vf_unsupported :: "nat option \<Rightarrow> VfError" where
  "vf_unsupported i = vf_from_kind i K_Unsupported"

definition vf_status :: "VfError \<Rightarrow> StatusCode option" where
  "vf_status e = (case ve_detail e of Status st \<Rightarrow> Some st | _ \<Rightarrow> None)"

definition vf_domain :: "VfError \<Rightarrow> ErrorDomain" where
  "vf_domain e =
     (case ve_detail e of
        Status (Errno _) \<Rightarrow> Filesystem
      | Status (Nfs _) \<Rightarrow> Nfs_Domain
      | Status (Smb _) \<Rightarrow> Smb_Domain
      | Client _ \<Rightarrow> Client_Domain
      | TransportFailure _ \<Rightarrow> Transport_Domain)"

definition vf_is_transport :: "VfError \<Rightarrow> bool" where
  "vf_is_transport e \<longleftrightarrow> (case ve_detail e of TransportFailure _ \<Rightarrow> True | _ \<Rightarrow> False)"

definition vf_transport_kind :: "VfError \<Rightarrow> TransportKind option" where
  "vf_transport_kind e = (case ve_detail e of TransportFailure kind \<Rightarrow> Some kind | _ \<Rightarrow> None)"

definition vf_message :: "VfError \<Rightarrow> string option" where
  "vf_message e = Option.bind (ve_context e) ec_message"

definition vf_operation :: "VfError \<Rightarrow> string option" where
  "vf_operation e = Option.bind (ve_context e) ec_operation"

definition vf_path :: "VfError \<Rightarrow> bytes option" where
  "vf_path e = Option.bind (ve_context e) ec_path"

definition vf_transport_message :: "VfError \<Rightarrow> string option" where
  "vf_transport_message e = (if vf_is_transport e then vf_message e else None)"

definition vf_with_index :: "VfError \<Rightarrow> nat \<Rightarrow> VfError" where
  "vf_with_index e i = e \<lparr> ve_index := Some i \<rparr>"

definition vf_map_index :: "VfError \<Rightarrow> (nat \<Rightarrow> nat) \<Rightarrow> VfError" where
  "vf_map_index e f = e \<lparr> ve_index := map_option f (ve_index e) \<rparr>"

definition nfs_kind_rows :: "(nat \<times> ErrorKind) list" where
  "nfs_kind_rows =
    [(1, K_PermissionDenied), (13, K_PermissionDenied), (10016, K_PermissionDenied),
     (2, K_NotFound), (17, K_AlreadyExists), (18, K_CrossesDevices), (20, K_NotADirectory),
     (21, K_IsADirectory), (22, K_InvalidInput), (27, K_FileTooLarge), (28, K_StorageFull),
     (30, K_ReadOnlyFilesystem), (31, K_TooManyLinks), (63, K_InvalidFilename),
     (66, K_DirectoryNotEmpty), (69, K_QuotaExceeded), (70, K_StaleNetworkFileHandle),
     (10004, K_Unsupported), (10019, K_Unsupported), (10032, K_Unsupported),
     (10008, K_WouldBlock)]"

definition smb_kind_rows :: "(nat \<times> ErrorKind) list" where
  "smb_kind_rows =
    [(0xc0000022, K_PermissionDenied), (0xc000006d, K_PermissionDenied),
     (0xc000006a, K_PermissionDenied), (0xc000006e, K_PermissionDenied),
     (0xc0000071, K_PermissionDenied), (0xc0000072, K_PermissionDenied),
     (0xc0000234, K_PermissionDenied), (0xc000006f, K_PermissionDenied),
     (0xc0000070, K_PermissionDenied), (0xc0000193, K_PermissionDenied),
     (0xc0000224, K_PermissionDenied),
     (0xc000000f, K_NotFound), (0xc0000034, K_NotFound), (0xc000003a, K_NotFound),
     (0xc00000cc, K_NotFound), (0xc0000035, K_AlreadyExists), (0xc000000d, K_InvalidInput),
     (0xc0000033, K_InvalidFilename), (0xc0000106, K_InvalidFilename),
     (0xc0000043, K_ResourceBusy), (0xc0000054, K_ResourceBusy), (0xc000007f, K_StorageFull),
     (0xc0000044, K_QuotaExceeded), (0xc00000a2, K_ReadOnlyFilesystem),
     (0xc0000002, K_Unsupported), (0xc0000010, K_Unsupported), (0xc00000bb, K_Unsupported),
     (0xc0000257, K_Unsupported), (0xc0000101, K_DirectoryNotEmpty),
     (0xc0000103, K_NotADirectory), (0xc00000ba, K_IsADirectory), (0xc00000d4, K_CrossesDevices)]"

text \<open>\<^verbatim>\<open>code as i32\<close> reads an unsigned code as a signed 32-bit integer.\<close>

definition as_i32 :: "nat \<Rightarrow> int" where
  "as_i32 n = sint (word_of_nat n :: 32 word)"

definition vf_kind :: "VfError \<Rightarrow> ErrorKind" where
  "vf_kind e =
     (case ve_detail e of
        Client kind \<Rightarrow> kind
      | TransportFailure Timeout \<Rightarrow> K_TimedOut
      | TransportFailure InvalidReply \<Rightarrow> K_InvalidData
      | TransportFailure Auth \<Rightarrow> K_PermissionDenied
      | TransportFailure _ \<Rightarrow> K_Other
      | Status (Errno code) \<Rightarrow> errno_kind (as_i32 code)
      | Status (Nfs code) \<Rightarrow> table nfs_kind_rows K_Other code
      | Status (Smb code) \<Rightarrow> table smb_kind_rows K_Other code)"

definition kind_errno_rows :: "(ErrorKind \<times> nat) list" where
  "kind_errno_rows =
    [(K_NotFound, ENOENT), (K_PermissionDenied, EACCES), (K_AlreadyExists, EEXIST),
     (K_NotADirectory, ENOTDIR), (K_IsADirectory, EISDIR), (K_DirectoryNotEmpty, ENOTEMPTY),
     (K_InvalidInput, EINVAL), (K_InvalidData, EBADMSG), (K_InvalidFilename, ENAMETOOLONG),
     (K_Unsupported, EOPNOTSUPP), (K_TimedOut, ETIMEDOUT), (K_WouldBlock, EAGAIN),
     (K_Interrupted, EINTR), (K_StorageFull, ENOSPC), (K_QuotaExceeded, EDQUOT),
     (K_StaleNetworkFileHandle, ESTALE), (K_FileTooLarge, EFBIG), (K_ReadOnlyFilesystem, EROFS),
     (K_ResourceBusy, EBUSY), (K_CrossesDevices, EXDEV), (K_TooManyLinks, EMLINK),
     (K_OutOfMemory, ENOMEM), (K_BrokenPipe, EPIPE), (K_ConnectionRefused, ECONNREFUSED),
     (K_ConnectionReset, ECONNRESET), (K_ConnectionAborted, ECONNABORTED),
     (K_NotConnected, ENOTCONN)]"

definition vf_to_errno :: "VfError \<Rightarrow> int" where
  "vf_to_errno e =
     (case vf_status e of
        Some (Errno code) \<Rightarrow> as_i32 code
      | _ \<Rightarrow> int (table kind_errno_rows EIO (vf_kind e)))"

definition vf_raw_code :: "VfError \<Rightarrow> nat" where
  "vf_raw_code e =
     (case ve_detail e of
        Status (Errno n) \<Rightarrow> n
      | Status (Nfs n) \<Rightarrow> n
      | Status (Smb n) \<Rightarrow> n
      | TransportFailure _ \<Rightarrow> VF_ERR_RPC
      | Client kind \<Rightarrow>
          (if kind = K_Unsupported then VF_ERR_UNSUPPORTED
           else nat (vf_to_errno e mod 2 ^ 32)))"

section \<open>Conversion of RPC errors\<close>

definition error_from_rpc :: "RpcError \<Rightarrow> nat option \<Rightarrow> VfError" where
  "error_from_rpc error i =
     (if rpc_is_transport error
      then vf_transport_with_kind i
             (case re_transport_kind error of Some k \<Rightarrow> k | None \<Rightarrow> OtherTransport)
             (re_message error)
      else let result = vf_nfs i (re_status error)
           in if re_message error = [] then result
              else vf_with_message result (re_message error))"

definition error_from_rpc_indexed :: "RpcError \<Rightarrow> VfError" where
  "error_from_rpc_indexed error =
     (if rpc_is_transport error then error_from_rpc error None
      else error_from_rpc error (Some (re_op_index error)))"

section \<open>Facts about the tables\<close>

named_theorems vf_error_defs \<open>constructors and modifiers of errors\<close>

lemmas vf_constructors [vf_error_defs] = vf_from_status_def vf_errno_def vf_from_kind_def vf_nfs_def
  vf_smb_def vf_with_message_def vf_with_context_def vf_transport_with_kind_def vf_transport_def
  vf_invalid_reply_def vf_unsupported_def context_mut_def vf_with_index_def vf_map_index_def

lemma table_cases:
  "table rows other key = other \<or> (key, table rows other key) \<in> set rows"
  by (auto simp: table_def split: option.split dest: map_of_SomeD)

lemma table_invariant:
  assumes "list_all (\<lambda>(k, v). P v) rows" "P other"
  shows "P (table rows other key)"
  using assms table_cases [of rows other key] by (auto simp: list_all_iff)

lemma errno_kind_of_table:
  assumes "kind \<in> fst ` set kind_errno_rows" "kind \<noteq> K_InvalidData"
  shows "errno_kind (int (table kind_errno_rows EIO kind)) = kind"
  using assms
  by (auto simp: kind_errno_rows_def table_def errno_kind_def errno_kind_rows_def errno_defs)

definition protocol_kind :: "ErrorKind \<Rightarrow> bool" where
  "protocol_kind kind \<longleftrightarrow>
     kind = K_Other \<or> kind \<noteq> K_InvalidData \<and> kind \<in> fst ` set kind_errno_rows"

lemma nfs_kinds: "protocol_kind (table nfs_kind_rows K_Other code)"
  by (rule table_invariant) (simp_all add: nfs_kind_rows_def protocol_kind_def kind_errno_rows_def)

lemma smb_kinds: "protocol_kind (table smb_kind_rows K_Other code)"
  by (rule table_invariant) (simp_all add: smb_kind_rows_def protocol_kind_def kind_errno_rows_def)

lemma vf_with_index_simps [simp]:
  "ve_index (vf_with_index e i) = Some i"
  "ve_detail (vf_with_index e i) = ve_detail e"
  "ve_context (vf_with_index e i) = ve_context e"
  by (simp_all add: vf_with_index_def)

lemma vf_with_index_twice [simp]: "vf_with_index (vf_with_index e i) j = vf_with_index e j"
  by (simp add: vf_with_index_def)

lemma vf_transport_detail [simp]:
  "ve_detail (vf_transport_with_kind i k m) = TransportFailure k"
  "ve_index (vf_transport_with_kind i k m) = i"
  by (simp_all add: vf_error_defs)

section \<open>Properties\<close>

text \<open>C24 (categories at the errno boundary).  The errno handed to C and Python callers is the
  native errno if there is one.  For an NFS or SMB status it decodes to the category
  of the native status whenever the status has one; a status without a portable
  category (kind \<^verbatim>\<open>Other\<close>) gives \<^verbatim>\<open>EIO\<close>.\<close>

theorem protocol_category_survives_errno:
  assumes "vf_status e = Some st"
  shows "case st of
      Errno code \<Rightarrow> vf_to_errno e = as_i32 code \<and> errno_kind (vf_to_errno e) = vf_kind e
    | _ \<Rightarrow> if vf_kind e = K_Other then vf_to_errno e = int EIO else errno_kind (vf_to_errno e) = vf_kind e"
proof (cases "\<exists>code. st = Errno code")
  case True
  then show ?thesis using assms by (auto simp: vf_to_errno_def vf_status_def vf_kind_def split: ErrorDetail.splits)
next
  case False
  then have errno: "vf_to_errno e = int (table kind_errno_rows EIO (vf_kind e))"
    using assms by (cases st) (auto simp: vf_to_errno_def)
  from False assms have "protocol_kind (vf_kind e)"
    by (cases st) (auto simp: vf_status_def vf_kind_def nfs_kinds smb_kinds split: ErrorDetail.splits)
  then have "vf_kind e \<noteq> K_Other \<Longrightarrow> errno_kind (int (table kind_errno_rows EIO (vf_kind e))) = vf_kind e"
    by (intro errno_kind_of_table) (auto simp: protocol_kind_def)
  moreover have "table kind_errno_rows EIO K_Other = EIO" by (simp add: kind_errno_rows_def table_def)
  ultimately show ?thesis using errno False by (cases st) auto
qed

theorem protocol_category_survives_errno_witness:
  "errno_kind (vf_to_errno (vf_nfs (Some 3) 66)) = K_DirectoryNotEmpty \<and> vf_to_errno (vf_nfs None 5) = int EIO"
  using protocol_category_survives_errno [of "vf_nfs (Some 3) 66" "Nfs 66"]
    protocol_category_survives_errno [of "vf_nfs None 5" "Nfs 5"]
  by (simp add: vf_error_defs vf_status_def vf_kind_def nfs_kind_rows_def table_def)

text \<open>Converting an RPC
  error never changes the numeric status a caller can observe, transport
  failures included; the converted error names an input exactly when the RPC
  error carries a server status, and then it is the RPC error's operation.\<close>

lemma error_from_rpc_indexed_faithful:
  "vf_raw_code (error_from_rpc_indexed e) = re_status e \<and>
   ve_index (error_from_rpc_indexed e) = (if rpc_is_transport e then None else Some (re_op_index e)) \<and>
   vf_domain (error_from_rpc_indexed e) = (if rpc_is_transport e then Transport_Domain else Nfs_Domain)"
  by (auto simp: error_from_rpc_indexed_def error_from_rpc_def vf_raw_code_def vf_domain_def Let_def
      vf_error_defs VF_ERR_RPC_def STATUS_TRANSPORT_def rpc_is_transport_def)

end
