(* ===== verification/Vfs_Path.thy ===== *)
theory Vfs_Path
  imports Vfs_Prelude
begin

text \<open>
  Byte paths: \<^verbatim>\<open>crates/vfsi-core/src/path.rs\<close>.

  A path is a list of bytes; nothing is assumed about its encoding.  The
  functions follow the source, slices and searches included.  The lemmas relate
  them to the list of non-empty components.  The specification of
  \<^verbatim>\<open>normalize_bytes\<close> is semantic: in every directory tree the normalised path leads
  to the same place as the original one.
\<close>

abbreviation slash :: char where
  "slash \<equiv> CHR ''/''"

section \<open>Definitions\<close>

definition trim_slashes :: "bytes \<Rightarrow> bytes" where
  "trim_slashes path =
     (let start = (case position (\<lambda>b. b \<noteq> slash) path of Some i \<Rightarrow> i | None \<Rightarrow> length path);
          e = (case map_option (\<lambda>i. i + 1) (rposition (\<lambda>b. b \<noteq> slash) path) of
                 Some i \<Rightarrow> i | None \<Rightarrow> start)
      in slice path start e)"

definition split_path_bytes :: "bytes \<Rightarrow> (bytes \<times> bytes) option" where
  "split_path_bytes path =
     (let trimmed = trim_slashes path
      in if trimmed = [] then None
         else let (dir, name) =
                (case rposition (\<lambda>b. b = slash) trimmed of
                   Some split \<Rightarrow> (slice trimmed 0 split, slice trimmed (split + 1) (length trimmed))
                 | None \<Rightarrow> ([], trimmed))
              in Some (trim_slashes dir, name))"

definition join_path_bytes :: "bytes \<Rightarrow> bytes \<Rightarrow> bytes" where
  "join_path_bytes dir name =
     (if dir = [] then name
      else let separator = last dir \<noteq> slash
           in dir @ (if separator then [slash] else []) @ name)"

definition normalize_step :: "bytes list \<Rightarrow> bytes \<Rightarrow> bytes list" where
  "normalize_step parts part =
     (if part = [] \<or> part = ''.'' then parts
      else if part = ''..'' then butlast parts
      else parts @ [part])"

definition normalize_join :: "bytes list \<Rightarrow> bytes" where
  "normalize_join parts =
     foldl (\<lambda>out (i, part). (if 0 < i then out @ [slash] else out) @ part) []
       (enumerate (0::nat) parts)"

definition normalize_bytes :: "bytes \<Rightarrow> bytes" where
  "normalize_bytes path =
     normalize_join (foldl normalize_step [] (split_on slash (trim_slashes path)))"

definition components_bytes :: "bytes \<Rightarrow> bytes list" where
  "components_bytes path = filter (\<lambda>c. c \<noteq> []) (split_on slash (trim_slashes path))"

text \<open>\<^verbatim>\<open>CString::new\<close> rejects interior NUL bytes; the result is represented by the
  bytes before the terminator.\<close>

definition cstring_from_bytes :: "bytes \<Rightarrow> bytes option" where
  "cstring_from_bytes bs = (if CHR 0x00 \<in> set bs then None else Some bs)"

section \<open>Components\<close>

definition comps :: "bytes \<Rightarrow> bytes list" where
  "comps path = filter (\<lambda>c. c \<noteq> []) (split_on slash path)"

text \<open>The part list of \<^verbatim>\<open>normalize_bytes\<close> after the components \<open>cs\<close>.\<close>

definition resolve :: "bytes list \<Rightarrow> bytes list \<Rightarrow> bytes list" where
  "resolve base cs = foldl normalize_step base cs"

definition clean :: "bytes list \<Rightarrow> bool" where
  "clean cs \<longleftrightarrow> (\<forall>c \<in> set cs. c \<noteq> [] \<and> c \<noteq> ''.'' \<and> c \<noteq> ''..'' \<and> slash \<notin> set c)"

lemma comps_sep [simp]: "comps (p @ slash # q) = comps p @ comps q"
  by (simp add: comps_def split_on_append_sep)

lemma comps_Nil [simp]: "comps [] = []"
  by (simp add: comps_def)

lemma comps_leading [simp]: "comps (slash # p) = comps p"
  using comps_sep [of "[]" p] by simp

lemma comps_trailing [simp]: "comps (p @ [slash]) = comps p"
  using comps_sep [of p "[]"] by simp

lemma comps_leading_many: "set s \<subseteq> {slash} \<Longrightarrow> comps (s @ p) = comps p"
  by (induction s) auto

lemma comps_trailing_many: "set s \<subseteq> {slash} \<Longrightarrow> comps (p @ s) = comps p"
proof (induction s rule: rev_induct)
  case (snoc x xs)
  then show ?case using comps_trailing [of "p @ xs"] by simp
qed simp

lemma comps_props: "c \<in> set (comps p) \<Longrightarrow> c \<noteq> [] \<and> slash \<notin> set c"
  by (auto simp: comps_def dest: split_on_no_sep)

lemma comps_single: "c \<noteq> [] \<Longrightarrow> slash \<notin> set c \<Longrightarrow> comps c = [c]"
  by (simp add: comps_def split_on_single)

section \<open>Trimming\<close>

lemma takeWhile_slashes:
  assumes "set l \<subseteq> {slash}" "m \<noteq> []" "hd m \<noteq> slash"
  shows "takeWhile (\<lambda>b. b = slash) (l @ m @ r) = l"
  using assms by (induction l) (auto simp: neq_Nil_conv)

lemma trim_slashes_decomposed:
  assumes "set l \<subseteq> {slash}" "set r \<subseteq> {slash}" "m \<noteq> []" "hd m \<noteq> slash" "last m \<noteq> slash"
  shows "trim_slashes (l @ m @ r) = m"
proof -
  let ?p = "l @ m @ r"
  have ex: "\<exists>b \<in> set ?p. b \<noteq> slash" using assms(3,4) by (metis Un_iff hd_in_set set_append)
  have s: "position (\<lambda>b. b \<noteq> slash) ?p = Some (length l)"
    using ex takeWhile_slashes [OF assms(1,3,4), of r] by (simp add: position_eq)
  have "takeWhile (\<lambda>b. b = slash) (rev r @ rev m @ rev l) = rev r"
    by (rule takeWhile_slashes) (use assms in \<open>simp_all add: hd_rev\<close>)
  then have "rposition (\<lambda>b. b \<noteq> slash) ?p = Some (length ?p - Suc (length r))"
    using ex by (auto simp: position_eq rposition_eq)
  moreover have "length ?p - Suc (length r) + 1 = length l + length m"
    using assms(3) by (cases m) simp_all
  ultimately show ?thesis
    by (simp add: trim_slashes_def s slice_def)
qed

lemma trim_slashes_none:
  assumes "set p \<subseteq> {slash}"
  shows "trim_slashes p = []"
proof -
  have "\<not> (\<exists>b \<in> set p. b \<noteq> slash)" using assms by auto
  then have "position (\<lambda>b. b \<noteq> slash) p = None" "rposition (\<lambda>b. b \<noteq> slash) p = None"
    by (simp_all only: position_eq rposition_eq set_rev if_False option.map)
  then show ?thesis by (simp add: trim_slashes_def slice_def)
qed

lemma slashes_decompose:
  assumes "\<not> set p \<subseteq> {slash}"
  obtains l m r where "p = l @ m @ r" "set l \<subseteq> {slash}" "set r \<subseteq> {slash}" "m \<noteq> []"
    "hd m \<noteq> slash" "last m \<noteq> slash"
proof -
  let ?is = "\<lambda>b. b = slash"
  define q where "q = dropWhile ?is p"
  define m where "m = rev (dropWhile ?is (rev q))"
  have p: "p = takeWhile ?is p @ q" by (simp add: q_def)
  define r where "r = rev (takeWhile ?is (rev q))"
  have "rev (rev q) = rev (takeWhile ?is (rev q) @ dropWhile ?is (rev q))"
    by (simp only: takeWhile_dropWhile_id)
  then have qmr: "q = m @ r" by (simp only: rev_rev_ident rev_append m_def r_def)
  have q: "q \<noteq> []" using assms by (auto simp: q_def)
  then have hq: "hd q \<noteq> slash" unfolding q_def by (rule hd_dropWhile)
  then have ne: "dropWhile ?is (rev q) \<noteq> []"
    using hd_in_set [OF q] by (auto simp only: dropWhile_eq_Nil_conv set_rev)
  then have m: "m \<noteq> []" "last m \<noteq> slash"
    using hd_dropWhile [OF ne] by (simp_all add: m_def last_rev)
  have hm: "hd m \<noteq> slash" using hq m(1) unfolding qmr by simp
  have pm: "p = takeWhile ?is p @ m @ r" using p unfolding qmr .
  have sub: "set r \<subseteq> {slash}" "set (takeWhile ?is p) \<subseteq> {slash}"
    by (auto simp: r_def dest: set_takeWhileD)
  show thesis by (rule that [OF pm sub(2) sub(1) m(1) hm m(2)])
qed

lemma trim_slashes_split:
  "\<exists>l r. path = l @ trim_slashes path @ r \<and> set l \<subseteq> {slash} \<and> set r \<subseteq> {slash}"
proof (cases "set path \<subseteq> {slash}")
  case True
  then have "path = path @ trim_slashes path @ []" by (simp add: trim_slashes_none)
  with True show ?thesis by (metis empty_set empty_subsetI)
next
  case False
  then obtain l m r where "path = l @ m @ r" "set l \<subseteq> {slash}" "set r \<subseteq> {slash}" "m \<noteq> []"
    "hd m \<noteq> slash" "last m \<noteq> slash" by (rule slashes_decompose)
  then show ?thesis using trim_slashes_decomposed [of l r m] by auto
qed

lemma trim_slashes_ends:
  assumes "trim_slashes p \<noteq> []"
  shows "hd (trim_slashes p) \<noteq> slash" "last (trim_slashes p) \<noteq> slash"
proof -
  have "\<not> set p \<subseteq> {slash}" using assms trim_slashes_none by blast
  then obtain l m r where "p = l @ m @ r" "set l \<subseteq> {slash}" "set r \<subseteq> {slash}" "m \<noteq> []"
    "hd m \<noteq> slash" "last m \<noteq> slash" by (rule slashes_decompose)
  then show "hd (trim_slashes p) \<noteq> slash" "last (trim_slashes p) \<noteq> slash"
    using trim_slashes_decomposed [of l r m] by simp_all
qed

lemma comps_trim [simp]: "comps (trim_slashes p) = comps p"
proof -
  obtain l r where p: "p = l @ trim_slashes p @ r" and "set l \<subseteq> {slash}" "set r \<subseteq> {slash}"
    using trim_slashes_split by blast
  from p have "comps p = comps (l @ (trim_slashes p @ r))" by (rule arg_cong)
  also have "\<dots> = comps (trim_slashes p)"
    using \<open>set l \<subseteq> {slash}\<close> \<open>set r \<subseteq> {slash}\<close>
    by (simp only: comps_leading_many comps_trailing_many)
  finally show ?thesis by simp
qed

lemma components_bytes_eq: "components_bytes p = comps p"
  using comps_trim [of p] by (simp add: components_bytes_def comps_def)

section \<open>Joining and resolving\<close>

lemma normalize_join_snoc:
  "normalize_join (parts @ [p]) = (if parts = [] then p else normalize_join parts @ slash # p)"
  by (simp add: normalize_join_def enumerate_append_eq)

lemma comps_normalize_join:
  "\<forall>c \<in> set parts. c \<noteq> [] \<and> slash \<notin> set c \<Longrightarrow> comps (normalize_join parts) = parts"
proof (induction parts rule: rev_induct)
  case Nil
  then show ?case by (simp add: normalize_join_def)
next
  case (snoc p parts)
  then show ?case by (auto simp: normalize_join_snoc comps_single)
qed

lemma normalize_step_filter:
  "foldl normalize_step base (filter (\<lambda>c. c \<noteq> []) cs) = foldl normalize_step base cs"
  by (induction cs arbitrary: base) (auto simp: normalize_step_def)

lemma normalize_bytes_eq: "normalize_bytes p = normalize_join (resolve [] (comps p))"
  using components_bytes_eq [of p] normalize_step_filter [of "[]" "split_on slash (trim_slashes p)"]
  by (simp add: normalize_bytes_def resolve_def components_bytes_def)

lemma clean_append [simp]: "clean (xs @ ys) \<longleftrightarrow> clean xs \<and> clean ys"
  by (auto simp: clean_def)

lemma resolve_append: "resolve base (xs @ ys) = resolve (resolve base xs) ys"
  by (simp add: resolve_def)

lemma clean_step:
  "clean base \<Longrightarrow> slash \<notin> set c \<Longrightarrow> clean (normalize_step base c)"
  by (auto simp: clean_def normalize_step_def dest: in_set_butlastD)

lemma clean_resolve:
  "clean base \<Longrightarrow> \<forall>c \<in> set cs. slash \<notin> set c \<Longrightarrow> clean (resolve base cs)"
  by (induction cs arbitrary: base) (auto simp: resolve_def clean_step)

lemma resolve_clean: "clean cs \<Longrightarrow> resolve base cs = base @ cs"
  by (induction cs arbitrary: base) (auto simp: resolve_def clean_def normalize_step_def)

lemma clean_comps: "clean (resolve [] (comps p))"
  by (rule clean_resolve) (auto simp: clean_def dest: comps_props)

lemma comps_normalize_bytes: "comps (normalize_bytes p) = resolve [] (comps p)"
  unfolding normalize_bytes_eq
  by (rule comps_normalize_join) (use clean_comps in \<open>auto simp: clean_def\<close>)

lemma comps_join: "comps (join_path_bytes dir name) = comps dir @ comps name"
proof (cases "dir = [] \<or> last dir \<noteq> slash")
  case True
  then show ?thesis by (auto simp: join_path_bytes_def Let_def)
next
  case False
  then obtain d where "dir = d @ [slash]" by (metis append_butlast_last_id)
  then show ?thesis by (simp add: join_path_bytes_def)
qed

text \<open>A directory tree, and the place a list of components leads to.\<close>

definition dir_tree :: "'d \<Rightarrow> ('d \<Rightarrow> bytes \<Rightarrow> 'd) \<Rightarrow> ('d \<Rightarrow> 'd) \<Rightarrow> bool" where
  "dir_tree root child parent \<longleftrightarrow> parent root = root \<and> (\<forall>d n. parent (child d n) = d)"

fun follow_path :: "('d \<Rightarrow> bytes \<Rightarrow> 'd) \<Rightarrow> ('d \<Rightarrow> 'd) \<Rightarrow> 'd \<Rightarrow> bytes list \<Rightarrow> 'd" where
  "follow_path child parent d [] = d"
| "follow_path child parent d (c # cs) =
     follow_path child parent (if c = ''.'' then d else if c = ''..'' then parent d else child d c) cs"

lemma follow_path_append: "follow_path child parent d (xs @ ys) = follow_path child parent (follow_path child parent d xs) ys"
  by (induction xs arbitrary: d) auto

lemma follow_path_butlast:
  assumes "dir_tree root child parent" "clean base"
  shows "follow_path child parent root (butlast base) = parent (follow_path child parent root base)"
proof (cases base rule: rev_cases)
  case (snoc cs c)
  then show ?thesis using assms by (simp add: follow_path_append dir_tree_def clean_def)
qed (use assms in \<open>simp add: dir_tree_def\<close>)

lemma follow_path_resolve:
  assumes tree: "dir_tree root child parent"
  shows "clean base \<Longrightarrow> (\<And>c. c \<in> set cs \<Longrightarrow> c \<noteq> [] \<and> slash \<notin> set c) \<Longrightarrow>
    follow_path child parent root (resolve base cs) = follow_path child parent (follow_path child parent root base) cs"
proof (induction cs arbitrary: base)
  case (Cons c cs)
  have "follow_path child parent root (normalize_step base c) = follow_path child parent (follow_path child parent root base) [c]"
    using Cons.prems follow_path_butlast [OF tree Cons.prems(1)] by (auto simp: normalize_step_def follow_path_append)
  moreover have "clean (normalize_step base c)" using Cons.prems by (intro clean_step) auto
  ultimately show ?case using Cons.IH [of "normalize_step base c"] Cons.prems(2) by (simp add: resolve_def)
qed (simp add: resolve_def)

lemma split_on_join:
  "parts \<noteq> [] \<Longrightarrow> \<forall>c \<in> set parts. slash \<notin> set c \<Longrightarrow> split_on slash (normalize_join parts) = parts"
proof (induction parts rule: rev_induct)
  case (snoc p parts)
  then show ?case using normalize_join_snoc [of parts p]
    by (cases "parts = []") (auto simp: split_on_append_sep split_on_single)
qed simp

section \<open>Splitting\<close>

lemma rposition_Some_split:
  assumes "rposition (\<lambda>b. b = c) xs = Some i"
  shows "xs = take i xs @ c # drop (i + 1) xs" "c \<notin> set (drop (i + 1) xs)"
proof -
  let ?n = "length (takeWhile (\<lambda>b. b \<noteq> c) (rev xs))"
  from assms have ex: "c \<in> set xs" and i: "i = length xs - Suc ?n"
    by (auto simp: rposition_eq position_eq split: if_splits)
  have le: "?n < length xs"
  proof (rule ccontr)
    assume "\<not> ?n < length xs"
    then have "takeWhile (\<lambda>b. b \<noteq> c) (rev xs) = rev xs"
      using takeWhile_eq_take [of "\<lambda>b. b \<noteq> c" "rev xs"] by simp
    then show False using ex by (metis (mono_tags, lifting) set_rev takeWhile_eq_all_conv)
  qed
  then have "rev xs ! ?n = c" using nth_length_takeWhile [of "\<lambda>b. b \<noteq> c" "rev xs"] by simp
  then have "xs ! i = c" using le i by (simp add: rev_nth)
  moreover have lt: "i < length xs" using le i by simp
  ultimately show "xs = take i xs @ c # drop (i + 1) xs"
    using id_take_nth_drop [OF lt] by simp
  have "drop (i + 1) xs = rev (takeWhile (\<lambda>b. b \<noteq> c) (rev xs))"
  proof -
    have "length xs - ?n = i + 1" using le i by simp
    moreover have "rev (take ?n (rev xs)) = drop (length xs - ?n) xs" by (simp add: rev_take)
    ultimately show ?thesis using takeWhile_eq_take [of "\<lambda>b. b \<noteq> c" "rev xs"] by argo
  qed
  then show "c \<notin> set (drop (i + 1) xs)" by (auto dest: set_takeWhileD)
qed

lemma rposition_None_iff: "rposition P xs = None \<longleftrightarrow> (\<forall>x \<in> set xs. \<not> P x)"
  by (auto simp: rposition_eq position_eq)

lemma trim_slashes_Nil_iff: "trim_slashes p = [] \<longleftrightarrow> comps p = []"
proof
  assume "comps p = []"
  show "trim_slashes p = []"
  proof (rule ccontr)
    assume ne: "trim_slashes p \<noteq> []"
    then obtain x xs where t: "trim_slashes p = x # xs" "x \<noteq> slash"
      using trim_slashes_ends(1) [OF ne] by (cases "trim_slashes p") auto
    then have "comps (trim_slashes p) \<noteq> []"
      by (auto simp: comps_def split: list.split)
    with \<open>comps p = []\<close> show False by simp
  qed
next
  assume "trim_slashes p = []"
  then show "comps p = []" using comps_trim [of p] by simp
qed

lemma split_path_bytes_cases:
  assumes "split_path_bytes p = Some (dir, name)"
  shows "name \<noteq> []" "slash \<notin> set name" "comps p = comps dir @ [name]"
proof -
  let ?t = "trim_slashes p"
  have ne: "?t \<noteq> []" using assms by (auto simp: split_path_bytes_def Let_def)
  have "name \<noteq> [] \<and> slash \<notin> set name \<and> comps ?t = comps dir @ [name]"
  proof (cases "rposition (\<lambda>b. b = slash) ?t")
    case None
    then have "slash \<notin> set ?t" by (auto simp: rposition_None_iff)
    moreover have "dir = trim_slashes []" "name = ?t"
      using assms None ne by (auto simp: split_path_bytes_def Let_def)
    ultimately show ?thesis using ne by (simp add: comps_single trim_slashes_none del: comps_trim)
  next
    case (Some i)
    note t = rposition_Some_split [OF Some]
    have dir: "dir = trim_slashes (take i ?t)" and name: "name = drop (i + 1) ?t"
      using assms Some ne by (auto simp: split_path_bytes_def Let_def slice_def)
    have "name \<noteq> []"
    proof
      assume "name = []"
      then have "?t = take i ?t @ [slash]" using t(1) name by simp
      then have "last ?t = slash" by (metis last_snoc)
      then show False using trim_slashes_ends(2) [OF ne] by simp
    qed
    moreover have "comps ?t = comps (take i ?t) @ comps name"
      using arg_cong [OF t(1), of comps] name by simp
    ultimately show ?thesis using t(2) dir name by (simp add: comps_single)
  qed
  then show "name \<noteq> []" "slash \<notin> set name" "comps p = comps dir @ [name]" by simp_all
qed

section \<open>Properties\<close>

text \<open>C25 (normalisation keeps the place).  In every directory tree in which the parent of a
  child is the directory it was found in and the root is its own parent, following
  the components of a normalised path from the root leads to the same place as
  following the original ones, with \<^verbatim>\<open>.\<close> staying and \<^verbatim>\<open>..\<close> going up.  The normalised path has
  no empty, \<^verbatim>\<open>.\<close> or \<^verbatim>\<open>..\<close> component, its bytes are the components with one slash
  between them, and normalising again changes nothing.\<close>

theorem normalize_bytes_correct:
  assumes "dir_tree root child parent"
  shows "follow_path child parent root (components_bytes (normalize_bytes p)) =
      follow_path child parent root (components_bytes p) \<and>
    clean (components_bytes (normalize_bytes p)) \<and>
    (if components_bytes (normalize_bytes p) = [] then normalize_bytes p = []
     else split_on slash (normalize_bytes p) = components_bytes (normalize_bytes p)) \<and>
    normalize_bytes (normalize_bytes p) = normalize_bytes p"
proof -
  have c: "comps (normalize_bytes p) = resolve [] (comps p)" by (rule comps_normalize_bytes)
  have "follow_path child parent root (resolve [] (comps p)) = follow_path child parent root (comps p)"
    using follow_path_resolve [OF assms, of "[]" "comps p"] comps_props by (auto simp: clean_def)
  moreover have "normalize_bytes (normalize_bytes p) = normalize_bytes p"
    unfolding normalize_bytes_eq [of "normalize_bytes p"] c
    using clean_comps [of p] by (simp add: resolve_clean normalize_bytes_eq [of p])
  moreover have "if resolve [] (comps p) = [] then normalize_bytes p = []
      else split_on slash (normalize_bytes p) = resolve [] (comps p)"
    using split_on_join [of "resolve [] (comps p)"] clean_comps [of p]
    by (simp add: normalize_bytes_eq normalize_join_def clean_def)
  ultimately show ?thesis using c clean_comps [of p] by (simp only: components_bytes_eq simp_thms)
qed

theorem normalize_bytes_correct_witness:
  "follow_path (\<lambda>d n. n # d) tl [] (components_bytes (normalize_bytes ''/a/./b/../c'')) = [''c'', ''a'']"
proof -
  have "dir_tree [] (\<lambda>d n. n # d) tl" by (simp add: dir_tree_def)
  from normalize_bytes_correct [OF this, of "''/a/./b/../c''"] show ?thesis
    by (simp add: components_bytes_eq comps_def)
qed

text \<open>C26 (normalisation is compositional).  Normalising a directory first and the
  joined path afterwards gives the same result as normalising the joined path,
  so a client may keep its working directory in normal form.\<close>

theorem normalize_bytes_join:
  "normalize_bytes (join_path_bytes (normalize_bytes dir) p) =
   normalize_bytes (join_path_bytes dir p)"
proof -
  have "resolve [] (resolve [] (comps dir)) = resolve [] (comps dir)"
    using clean_comps [of dir] by (simp add: resolve_clean)
  then show ?thesis
    by (simp add: normalize_bytes_eq [of "join_path_bytes _ _"] comps_join comps_normalize_bytes
        resolve_append)
qed

text \<open>C27 (split and join).  \<^verbatim>\<open>split_path_bytes\<close> fails exactly on paths without
  components.  Otherwise the name is a single non-empty component, the directory
  holds all the others in order, and joining the two names the same object.\<close>

theorem split_join_path_bytes:
  "case split_path_bytes p of
     None \<Rightarrow> components_bytes p = []
   | Some (dir, name) \<Rightarrow>
       name \<noteq> [] \<and> slash \<notin> set name \<and>
       components_bytes p = components_bytes dir @ [name] \<and>
       components_bytes (join_path_bytes dir name) = components_bytes p"
proof (cases "split_path_bytes p")
  case None
  then have "trim_slashes p = []"
    by (auto simp: split_path_bytes_def Let_def split: if_splits option.splits)
  then show ?thesis using None by (simp add: components_bytes_eq trim_slashes_Nil_iff)
next
  case (Some dn)
  obtain dir name where [simp]: "dn = (dir, name)" by fastforce
  note c = split_path_bytes_cases [OF Some [unfolded \<open>dn = (dir, name)\<close>]]
  then show ?thesis
    by (simp add: Some components_bytes_eq comps_join comps_single)
qed

end
