(* ===== verification/Vfs_Types.thy ===== *)
theory Vfs_Types
  imports Vfs_Error Vfs_Path
begin

unbundle bit_operations_syntax

text \<open>
  The request vocabulary of \<^verbatim>\<open>crates/vfsi-core/src/types.rs\<close> and
  \<^verbatim>\<open>crates/vfsi-core/src/write.rs\<close>: open flags and their translation to libc,
  descriptor allocation, operands, object types, offsets, and the read, write,
  copy and data-block requests with their constructors.

  Flag sets are words; \<^verbatim>\<open>contains\<close> and \<^verbatim>\<open>intersects\<close> are those of \<^verbatim>\<open>bitflags\<close>.
  A descriptor table (\<^verbatim>\<open>HashMap<Fd, T>\<close>) is a partial map on the integers.
\<close>

section \<open>Flag sets\<close>

definition flags_contain :: "'a::len word \<Rightarrow> 'a word \<Rightarrow> bool" where
  "flags_contain f x \<longleftrightarrow> f AND x = x"

definition flags_intersect :: "'a::len word \<Rightarrow> 'a word \<Rightarrow> bool" where
  "flags_intersect f x \<longleftrightarrow> f AND x \<noteq> 0"

section \<open>Open flags\<close>

definition OF_READ :: "32 word" where "OF_READ = 1"
definition OF_WRITE :: "32 word" where "OF_WRITE = 2"
definition OF_APPEND :: "32 word" where "OF_APPEND = 4"
definition OF_TRUNCATE :: "32 word" where "OF_TRUNCATE = 8"
definition OF_CREATE :: "32 word" where "OF_CREATE = 16"
definition OF_CREATE_NEW :: "32 word" where "OF_CREATE_NEW = 32"

definition OF_all :: "32 word" where
  "OF_all = OF_READ OR OF_WRITE OR OF_APPEND OR OF_TRUNCATE OR OF_CREATE OR OF_CREATE_NEW"

definition O_RDONLY :: "32 word" where "O_RDONLY = 0"
definition O_WRONLY :: "32 word" where "O_WRONLY = 1"
definition O_RDWR :: "32 word" where "O_RDWR = 2"
definition O_CREAT :: "32 word" where "O_CREAT = 0x40"
definition O_EXCL :: "32 word" where "O_EXCL = 0x80"
definition O_TRUNC :: "32 word" where "O_TRUNC = 0x200"
definition O_APPEND :: "32 word" where "O_APPEND = 0x400"

lemmas open_flag_defs = OF_READ_def OF_WRITE_def OF_APPEND_def OF_TRUNCATE_def OF_CREATE_def
  OF_CREATE_NEW_def OF_all_def O_RDONLY_def O_WRONLY_def O_RDWR_def O_CREAT_def O_EXCL_def
  O_TRUNC_def O_APPEND_def

definition open_flags_to_libc :: "32 word \<Rightarrow> VfError + 32 word" where
  "open_flags_to_libc flags =
     (let invalid = Inl (vf_from_kind (Some 0) K_InvalidInput);
          writable = flags_intersect flags (OF_WRITE OR OF_APPEND);
          creates = flags_intersect flags (OF_CREATE OR OF_CREATE_NEW);
          reads = flags_contain flags OF_READ
      in if flags AND NOT OF_all \<noteq> 0 then invalid
         else if \<not> reads \<and> \<not> writable then invalid
         else if flags_contain flags OF_TRUNCATE \<and> \<not> writable then invalid
         else if creates \<and> \<not> writable then invalid
         else let raw = (if reads \<and> writable then O_RDWR
                         else if reads then O_RDONLY else O_WRONLY);
                  raw = (if flags_contain flags OF_APPEND then raw OR O_APPEND else raw);
                  raw = (if flags_contain flags OF_TRUNCATE then raw OR O_TRUNC else raw);
                  raw = (if creates then raw OR O_CREAT else raw);
                  raw = (if flags_contain flags OF_CREATE_NEW then raw OR O_EXCL else raw)
              in Inr raw)"

record OpenOp =
  oo_path :: bytes
  oo_flags :: "32 word"
  oo_mode :: "32 word"

definition open_op_new :: "bytes \<Rightarrow> 32 word \<Rightarrow> OpenOp" where
  "open_op_new path flags = \<lparr> oo_path = path, oo_flags = flags, oo_mode = 0x1B6 \<rparr>"

definition open_op_mode :: "OpenOp \<Rightarrow> 32 word \<Rightarrow> OpenOp" where
  "open_op_mode op mode = op \<lparr> oo_mode := mode \<rparr>"

section \<open>Descriptor allocation\<close>

definition i32_max :: int where
  "i32_max = 2 ^ 31 - 1"

text \<open>\<^verbatim>\<open>next_fd.checked_add(1).unwrap_or(1)\<close>\<close>

definition fd_successor :: "int \<Rightarrow> int" where
  "fd_successor fd = (if fd + 1 \<le> i32_max then fd + 1 else 1)"

fun insert_fd_loop ::
  "nat \<Rightarrow> int \<Rightarrow> (int \<Rightarrow> 'a option) \<Rightarrow> 'a \<Rightarrow> int \<times> (int \<Rightarrow> 'a option) \<times> (VfError + int)" where
  "insert_fd_loop n next_fd open_files opened =
     (if n = 0 then (next_fd, open_files, Inl (vf_errno (Some 0) EMFILE))
      else let candidate = fd_successor next_fd
           in if open_files candidate = None
              then (candidate, open_files(candidate \<mapsto> opened), Inr candidate)
              else insert_fd_loop (n - 1) candidate open_files opened)"

definition insert_fd ::
  "int \<Rightarrow> (int \<Rightarrow> 'a option) \<Rightarrow> 'a \<Rightarrow> int \<times> (int \<Rightarrow> 'a option) \<times> (VfError + int)" where
  "insert_fd next_fd open_files opened = insert_fd_loop (nat i32_max) next_fd open_files opened"

declare insert_fd_loop.simps [simp del]

section \<open>Operands\<close>

datatype VfPathBase = Cwd_Base | Abs_Base

datatype SeekFrom = Seek_Set | Seek_Cur | Seek_End

datatype FileOperand =
    Cwd
  | Fd int
  | OperandPath VfPathBase bytes
  | CwdPath bytes
  | Saved

definition operand_from_path_bytes :: "bytes \<Rightarrow> FileOperand" where
  "operand_from_path_bytes path =
     OperandPath (if prefix [slash] path then Abs_Base else Cwd_Base) path"

fun operand_is_fd :: "FileOperand \<Rightarrow> bool" where
  "operand_is_fd (Fd _) = True"
| "operand_is_fd _ = False"

fun operand_fd :: "FileOperand \<Rightarrow> int option" where
  "operand_fd (Fd fd) = Some fd"
| "operand_fd _ = None"

fun operand_path :: "FileOperand \<Rightarrow> bytes option" where
  "operand_path (OperandPath _ path) = Some path"
| "operand_path (CwdPath path) = Some path"
| "operand_path _ = None"

section \<open>Object types\<close>

datatype VfType =
    Regular | Directory | Symlink | BlockDevice | CharDevice | Fifo | Socket | OtherType nat

definition NF4REG :: nat where "NF4REG = 1"
definition NF4DIR :: nat where "NF4DIR = 2"
definition NF4BLK :: nat where "NF4BLK = 3"
definition NF4CHR :: nat where "NF4CHR = 4"
definition NF4LNK :: nat where "NF4LNK = 5"
definition NF4SOCK :: nat where "NF4SOCK = 6"
definition NF4FIFO :: nat where "NF4FIFO = 7"

lemmas nf4_defs = NF4REG_def NF4DIR_def NF4BLK_def NF4CHR_def NF4LNK_def NF4SOCK_def NF4FIFO_def

definition file_type_from_nfs :: "nat \<Rightarrow> VfType" where
  "file_type_from_nfs code =
     (if code = NF4REG then Regular
      else if code = NF4DIR then Directory
      else if code = NF4LNK then Symlink
      else if code = NF4BLK then BlockDevice
      else if code = NF4CHR then CharDevice
      else if code = NF4FIFO then Fifo
      else if code = NF4SOCK then Socket
      else OtherType code)"

fun file_type_to_nfs :: "VfType \<Rightarrow> nat" where
  "file_type_to_nfs Regular = NF4REG"
| "file_type_to_nfs Directory = NF4DIR"
| "file_type_to_nfs Symlink = NF4LNK"
| "file_type_to_nfs BlockDevice = NF4BLK"
| "file_type_to_nfs CharDevice = NF4CHR"
| "file_type_to_nfs Fifo = NF4FIFO"
| "file_type_to_nfs Socket = NF4SOCK"
| "file_type_to_nfs (OtherType code) = code"

section \<open>Requests and results\<close>

datatype VfOffset = At nat | Cur | End

record ReadOp =
  ro_file :: FileOperand
  ro_offset :: VfOffset
  ro_length :: nat

definition read_op_new :: "FileOperand \<Rightarrow> VfOffset \<Rightarrow> nat \<Rightarrow> ReadOp" where
  "read_op_new file offset len = \<lparr> ro_file = file, ro_offset = offset, ro_length = len \<rparr>"

definition read_op_at :: "FileOperand \<Rightarrow> nat \<Rightarrow> nat \<Rightarrow> ReadOp" where
  "read_op_at file offset len = read_op_new file (At offset) len"

definition read_op_from_path :: "bytes \<Rightarrow> VfOffset \<Rightarrow> nat \<Rightarrow> ReadOp" where
  "read_op_from_path path offset len = read_op_new (operand_from_path_bytes path) offset len"

definition read_op_from_fd :: "int \<Rightarrow> VfOffset \<Rightarrow> nat \<Rightarrow> ReadOp" where
  "read_op_from_fd fd offset len = read_op_new (Fd fd) offset len"

record ReadResult =
  rr_file :: FileOperand
  rr_offset :: nat
  rr_data :: wire
  rr_eof :: bool

record ReadIntoResult =
  ri_file :: FileOperand
  ri_offset :: nat
  ri_bytes_read :: nat
  ri_eof :: bool

record WriteResult =
  wr_file :: FileOperand
  wr_offset :: nat
  wr_bytes_written :: nat
  wr_stable :: bool

record ExtentPair =
  ep_src_path :: bytes
  ep_dst_path :: bytes
  ep_src_offset :: nat
  ep_dst_offset :: nat
  ep_length :: "nat option"

definition extent_pair_new :: "bytes \<Rightarrow> nat \<Rightarrow> bytes \<Rightarrow> nat \<Rightarrow> nat option \<Rightarrow> ExtentPair" where
  "extent_pair_new src src_offset dst dst_offset len =
     \<lparr> ep_src_path = src, ep_dst_path = dst, ep_src_offset = src_offset,
       ep_dst_offset = dst_offset, ep_length = len \<rparr>"

record Adb =
  adb_path :: bytes
  adb_offset :: nat
  adb_block_size :: nat
  adb_block_count :: nat
  adb_reloff_blocknum :: "nat option"
  adb_block_num :: nat
  adb_reloff_pattern :: "nat option"
  adb_pattern_data :: wire

definition adb_blocknum_only :: "bytes \<Rightarrow> nat \<Rightarrow> nat \<Rightarrow> nat \<Rightarrow> nat \<Rightarrow> nat \<Rightarrow> Adb" where
  "adb_blocknum_only path offset block_size block_count reloff first_adbn =
     \<lparr> adb_path = path, adb_offset = offset, adb_block_size = block_size,
       adb_block_count = block_count, adb_reloff_blocknum = Some reloff,
       adb_block_num = first_adbn, adb_reloff_pattern = None, adb_pattern_data = [] \<rparr>"

subsection \<open>Writes\<close>

text \<open>The packed create and truncate bits of a native write; the other six bits are
  reserved.\<close>

definition WF_CREATION :: "8 word" where "WF_CREATION = 1"
definition WF_TRUNCATE :: "8 word" where "WF_TRUNCATE = 2"

record ('t, 'o, 'p) WriteRequest =
  wq_file :: 't
  wq_offset :: 'o
  wq_data :: wire
  wq_flags :: 'p

type_synonym WriteOp = "(FileOperand, VfOffset, 8 word) WriteRequest"

definition write_new :: "FileOperand \<Rightarrow> VfOffset \<Rightarrow> wire \<Rightarrow> WriteOp" where
  "write_new file offset data =
     \<lparr> wq_file = file, wq_offset = offset, wq_data = data, wq_flags = 0 \<rparr>"

definition write_creates :: "('t, 'o, 8 word) WriteRequest \<Rightarrow> bool" where
  "write_creates w \<longleftrightarrow> flags_contain (wq_flags w) WF_CREATION"

definition write_truncates :: "('t, 'o, 8 word) WriteRequest \<Rightarrow> bool" where
  "write_truncates w \<longleftrightarrow> flags_contain (wq_flags w) WF_TRUNCATE"

definition write_with_creation :: "('t, 'o, 8 word) WriteRequest \<Rightarrow> ('t, 'o, 8 word) WriteRequest" where
  "write_with_creation w = w \<lparr> wq_flags := wq_flags w OR WF_CREATION \<rparr>"

definition write_with_truncate :: "('t, 'o, 8 word) WriteRequest \<Rightarrow> ('t, 'o, 8 word) WriteRequest" where
  "write_with_truncate w = w \<lparr> wq_flags := wq_flags w OR WF_TRUNCATE \<rparr>"

definition write_at :: "FileOperand \<Rightarrow> nat \<Rightarrow> wire \<Rightarrow> WriteOp" where
  "write_at file offset data = write_new file (At offset) data"

definition write_from_path :: "bytes \<Rightarrow> VfOffset \<Rightarrow> wire \<Rightarrow> WriteOp" where
  "write_from_path path offset data = write_new (operand_from_path_bytes path) offset data"

definition write_from_fd :: "int \<Rightarrow> VfOffset \<Rightarrow> wire \<Rightarrow> WriteOp" where
  "write_from_fd fd offset data = write_new (Fd fd) offset data"

section \<open>Capabilities and options\<close>

definition VF_CAP_SERVER_COPY :: "64 word" where "VF_CAP_SERVER_COPY = 1"
definition VF_CAP_POSIX_METADATA :: "64 word" where "VF_CAP_POSIX_METADATA = 2"
definition VF_CAP_SYMLINKS :: "64 word" where "VF_CAP_SYMLINKS = 4"
definition VF_CAP_HARDLINKS :: "64 word" where "VF_CAP_HARDLINKS = 8"
definition VF_CAP_NON_UTF8_PATHS :: "64 word" where "VF_CAP_NON_UTF8_PATHS = 16"
definition VF_CAP_LSTAT :: "64 word" where "VF_CAP_LSTAT = 32"

definition VF_CAP_UNIX_SEMANTICS :: "64 word" where
  "VF_CAP_UNIX_SEMANTICS = VF_CAP_POSIX_METADATA OR VF_CAP_SYMLINKS OR VF_CAP_HARDLINKS
     OR VF_CAP_NON_UTF8_PATHS OR VF_CAP_LSTAT"

record RemoveOptions =
  rmo_continue_on_error :: bool
  rmo_batch :: "nat option"
  rmo_retries :: nat

definition remove_options_default :: RemoveOptions where
  "remove_options_default = \<lparr> rmo_continue_on_error = False, rmo_batch = None, rmo_retries = 4 \<rparr>"

datatype VfDir = DirDescriptor int nat | DirPath bytes

record CopyOptions =
  co_follow_source_symlinks :: bool

definition copy_options_default :: CopyOptions where
  "copy_options_default = \<lparr> co_follow_source_symlinks = True \<rparr>"

section \<open>Open flags: what the translation can produce\<close>

lemma open_flags_to_libc_Inr:
  assumes "open_flags_to_libc flags = Inr raw"
  shows "flags AND NOT OF_all = 0"
    and "flags_contain flags OF_READ \<or> flags_intersect flags (OF_WRITE OR OF_APPEND)"
    and "raw AND 3 =
      (if \<not> flags_intersect flags (OF_WRITE OR OF_APPEND) then O_RDONLY
       else if flags_contain flags OF_READ then O_RDWR else O_WRONLY)"
    and "flags_contain raw O_APPEND \<longleftrightarrow> flags_contain flags OF_APPEND"
    and "flags_contain raw O_TRUNC \<longleftrightarrow> flags_contain flags OF_TRUNCATE"
    and "flags_contain raw O_CREAT \<longleftrightarrow> flags_intersect flags (OF_CREATE OR OF_CREATE_NEW)"
    and "flags_contain raw O_EXCL \<longleftrightarrow> flags_contain flags OF_CREATE_NEW"
    and "flags_contain flags OF_TRUNCATE \<or> flags_intersect flags (OF_CREATE OR OF_CREATE_NEW) \<Longrightarrow>
      flags_intersect flags (OF_WRITE OR OF_APPEND)"
    and "raw AND NOT (3 OR O_APPEND OR O_TRUNC OR O_CREAT OR O_EXCL) = 0"
  using assms
  by (auto simp: open_flags_to_libc_def Let_def flags_contain_def O_RDONLY_def O_WRONLY_def
      O_RDWR_def O_CREAT_def O_EXCL_def O_TRUNC_def O_APPEND_def split: if_splits)

lemma flags_contain_CREATE_NEW:
  "flags_contain flags OF_CREATE_NEW \<Longrightarrow> flags_intersect flags (OF_CREATE OR OF_CREATE_NEW)"
proof -
  assume "flags_contain flags OF_CREATE_NEW"
  then have eq: "flags AND OF_CREATE_NEW = OF_CREATE_NEW" by (simp only: flags_contain_def)
  have "bit OF_CREATE_NEW 5" by (simp add: OF_CREATE_NEW_def)
  then have "bit (flags AND OF_CREATE_NEW) 5" by (simp only: eq)
  then have "bit (flags AND (OF_CREATE OR OF_CREATE_NEW)) 5"
    by (auto simp only: bit_and_iff bit_or_iff)
  then show ?thesis by (auto simp: flags_intersect_def)
qed

section \<open>Descriptor allocation\<close>

lemma fd_successor_range:
  "0 \<le> fd \<Longrightarrow> 1 \<le> fd_successor fd \<and> fd_successor fd \<le> i32_max"
  by (auto simp: fd_successor_def i32_max_def)

lemma insert_fd_loop_Inr:
  assumes "insert_fd_loop n nxt files x = (nf, files', Inr fd)" "0 \<le> nxt"
  shows "files fd = None \<and> files' = files(fd \<mapsto> x) \<and> nf = fd \<and> 1 \<le> fd \<and> fd \<le> i32_max"
  using assms
proof (induction n nxt files x rule: insert_fd_loop.induct)
  case (1 n nxt files x)
  have succ: "1 \<le> fd_successor nxt \<and> fd_successor nxt \<le> i32_max"
    using "1.prems"(2) by (rule fd_successor_range)
  show ?case
  proof (cases "n = 0 \<or> files (fd_successor nxt) = None")
    case True
    with "1.prems"(1) succ show ?thesis
      by (subst (asm) insert_fd_loop.simps) (auto simp: Let_def split: if_splits)
  next
    case False
    then have "insert_fd_loop (n - 1) (fd_successor nxt) files x = (nf, files', Inr fd)"
      using "1.prems"(1) by (subst (asm) insert_fd_loop.simps) (auto simp: Let_def)
    with "1.IH" [OF _ refl] False succ show ?thesis by simp
  qed
qed

lemma insert_fd_loop_Inl:
  assumes "insert_fd_loop n nxt files x = (nf, files', Inl e)"
  shows "files' = files \<and> e = vf_errno (Some 0) EMFILE \<and>
    (\<forall>j < n. files ((fd_successor ^^ Suc j) nxt) \<noteq> None)"
  using assms
proof (induction n nxt files x rule: insert_fd_loop.induct)
  case (1 n nxt files x)
  show ?case
  proof (cases "n = 0")
    case True
    with "1.prems" show ?thesis by (subst (asm) insert_fd_loop.simps) simp
  next
    case False
    with "1.prems" have used: "files (fd_successor nxt) \<noteq> None"
      and rec: "insert_fd_loop (n - 1) (fd_successor nxt) files x = (nf, files', Inl e)"
      by (subst (asm) insert_fd_loop.simps, auto simp: Let_def split: if_splits)+
    have ih: "files' = files \<and> e = vf_errno (Some 0) EMFILE \<and>
      (\<forall>j < n - 1. files ((fd_successor ^^ Suc j) (fd_successor nxt)) \<noteq> None)"
      using "1.IH" [OF False refl] used rec by simp
    have "files ((fd_successor ^^ Suc j) nxt) \<noteq> None" if "j < n" for j
    proof (cases j)
      case 0
      then show ?thesis using used by simp
    next
      case (Suc i)
      with that ih have "files ((fd_successor ^^ Suc i) (fd_successor nxt)) \<noteq> None" by auto
      moreover have "(fd_successor ^^ Suc (Suc i)) nxt = (fd_successor ^^ Suc i) (fd_successor nxt)"
        by (subst funpow_Suc_right) simp
      ultimately show ?thesis unfolding Suc by argo
    qed
    with ih show ?thesis by blast
  qed
qed

lemma fd_successor_closed:
  assumes "0 \<le> nxt" "nxt \<le> i32_max" "int j < i32_max"
  shows "(fd_successor ^^ Suc j) nxt =
    (if nxt + int j + 1 \<le> i32_max then nxt + int j + 1 else nxt + int j + 1 - i32_max)"
  using assms(3)
proof (induction j)
  case 0
  with assms show ?case by (auto simp: fd_successor_def)
next
  case (Suc j)
  then have ih: "(fd_successor ^^ Suc j) nxt =
    (if nxt + int j + 1 \<le> i32_max then nxt + int j + 1 else nxt + int j + 1 - i32_max)" by simp
  have "(fd_successor ^^ Suc (Suc j)) nxt = fd_successor ((fd_successor ^^ Suc j) nxt)"
    by (simp only: funpow.simps o_apply)
  then show ?case using Suc.prems assms by (simp only: ih) (auto simp: fd_successor_def)
qed

lemma fd_successor_covers:
  assumes "0 \<le> nxt" "nxt \<le> i32_max" "1 \<le> fd" "fd \<le> i32_max"
  shows "\<exists>j < nat i32_max. (fd_successor ^^ Suc j) nxt = fd"
proof (cases "nxt < fd")
  case True
  then have "(fd_successor ^^ Suc (nat (fd - nxt - 1))) nxt = fd"
    using assms fd_successor_closed [of "nxt" "nat (fd - nxt - 1)"] by auto
  moreover have "nat (fd - nxt - 1) < nat i32_max" using True assms by auto
  ultimately show ?thesis by blast
next
  case False
  then have "(fd_successor ^^ Suc (nat (i32_max - nxt + fd - 1))) nxt = fd"
    using assms fd_successor_closed [of "nxt" "nat (i32_max - nxt + fd - 1)"] by auto
  moreover have "nat (i32_max - nxt + fd - 1) < nat i32_max" using False assms by auto
  ultimately show ?thesis by blast
qed

section \<open>Properties\<close>

text \<open>C28 (descriptor allocation).  From any state the client can be in,
  \<^verbatim>\<open>insert_fd\<close> returns a positive descriptor that was free, stores the object under
  it and leaves every other descriptor alone; it fails, with EMFILE and without
  changing the table, exactly when every positive descriptor is in use.\<close>

theorem insert_fd_correct:
  assumes "0 \<le> next_fd" "next_fd \<le> i32_max"
  shows "case insert_fd next_fd files x of
      (nf, files', Inr fd) \<Rightarrow>
        1 \<le> fd \<and> fd \<le> i32_max \<and> nf = fd \<and> files fd = None \<and> files' = files(fd \<mapsto> x)
    | (nf, files', Inl e) \<Rightarrow>
        (\<forall>fd. 1 \<le> fd \<and> fd \<le> i32_max \<longrightarrow> files fd \<noteq> None) \<and> files' = files \<and>
        e = vf_errno (Some 0) EMFILE"
proof -
  obtain nf files' res where r: "insert_fd next_fd files x = (nf, files', res)"
    by (metis prod_cases3)
  show ?thesis
  proof (cases res)
    case (Inr fd)
    with r show ?thesis
      using insert_fd_loop_Inr [of "nat i32_max" next_fd files x nf files' fd] assms(1)
      by (simp add: insert_fd_def)
  next
    case (Inl e)
    note none = insert_fd_loop_Inl [OF r [unfolded insert_fd_def Inl]]
    have "files fd \<noteq> None" if "1 \<le> fd" "fd \<le> i32_max" for fd
      using fd_successor_covers [OF assms that] none by metis
    with r Inl none show ?thesis by simp
  qed
qed

theorem insert_fd_correct_witness:
  "case insert_fd 2 (Map.empty(3 \<mapsto> ''a'', 4 \<mapsto> ''b'')) ''c'' of
      (nf, files', Inr fd) \<Rightarrow> 1 \<le> fd \<and> nf = fd \<and> files' = (Map.empty(3 \<mapsto> ''a'', 4 \<mapsto> ''b'', fd \<mapsto> ''c''))
    | (nf, files', Inl e) \<Rightarrow> False"
  using insert_fd_correct [of 2 "Map.empty(3 \<mapsto> ''a'', 4 \<mapsto> ''b'')" "''c''"]
  by (auto simp: i32_max_def split: prod.splits sum.splits dest: spec [of _ "5::int"])

text \<open>C29 (open flags).  A flag set is accepted exactly if it has known bits only, asks for some
  access, and asks to truncate or create only together with write access; any other
  set is an invalid input.  An accepted set keeps its meaning: the access mode,
  append, truncate and exclusive bits agree, creation is requested iff \<^verbatim>\<open>CREATE\<close> or
  \<^verbatim>\<open>CREATE_NEW\<close> is, so O_EXCL never appears without O_CREAT, and no other bit is set.\<close>

theorem open_flags_to_libc_correct:
  "if flags AND NOT OF_all = 0 \<and>
      (flags_contain flags OF_READ \<or> flags_intersect flags (OF_WRITE OR OF_APPEND)) \<and>
      (flags_contain flags OF_TRUNCATE \<or> flags_intersect flags (OF_CREATE OR OF_CREATE_NEW) \<longrightarrow>
       flags_intersect flags (OF_WRITE OR OF_APPEND))
   then \<exists>raw. open_flags_to_libc flags = Inr raw \<and>
       raw AND 3 = (if \<not> flags_intersect flags (OF_WRITE OR OF_APPEND) then O_RDONLY
                    else if flags_contain flags OF_READ then O_RDWR else O_WRONLY) \<and>
       (flags_contain raw O_APPEND \<longleftrightarrow> flags_contain flags OF_APPEND) \<and>
       (flags_contain raw O_TRUNC \<longleftrightarrow> flags_contain flags OF_TRUNCATE) \<and>
       (flags_contain raw O_CREAT \<longleftrightarrow> flags_intersect flags (OF_CREATE OR OF_CREATE_NEW)) \<and>
       (flags_contain raw O_EXCL \<longleftrightarrow> flags_contain flags OF_CREATE_NEW) \<and>
       \<not> (flags_contain raw O_EXCL \<and> \<not> flags_contain raw O_CREAT) \<and>
       raw AND NOT (3 OR O_APPEND OR O_TRUNC OR O_CREAT OR O_EXCL) = 0
   else \<exists>e. open_flags_to_libc flags = Inl e \<and> vf_kind e = K_InvalidInput"
proof (cases "open_flags_to_libc flags")
  case (Inl e)
  then show ?thesis
    by (auto simp: open_flags_to_libc_def Let_def vf_error_defs vf_kind_def split: if_splits)
next
  case (Inr raw)
  note f = open_flags_to_libc_Inr [OF Inr] flags_contain_CREATE_NEW [of flags]
  then show ?thesis using Inr by simp
qed

theorem open_flags_to_libc_correct_witness:
  "\<exists>raw. open_flags_to_libc (OF_WRITE OR OF_CREATE_NEW) = Inr raw \<and>
     flags_contain raw O_CREAT \<and> flags_contain raw O_EXCL \<and> raw AND 3 = O_WRONLY"
  using open_flags_to_libc_correct [of "OF_WRITE OR OF_CREATE_NEW"]
  by (simp add: open_flags_to_libc_def flags_contain_def flags_intersect_def open_flag_defs)

text \<open>Decoding and encoding NFS type codes are inverse on the
  wire codes, and on every object type that does not hide a known code behind
  \<^verbatim>\<open>Other\<close>.\<close>

lemma file_type_nfs_roundtrip:
  "file_type_to_nfs (file_type_from_nfs code) = code \<and>
   file_type_from_nfs (file_type_to_nfs t) =
     (case t of OtherType c \<Rightarrow> if c \<in> {1..7} then file_type_from_nfs c else t | _ \<Rightarrow> t)"
  by (cases t) (auto simp: file_type_from_nfs_def nf4_defs)

end
