(* ===== verification/Vfs_Attrs.thy ===== *)
theory Vfs_Attrs
  imports Vfs_Types
begin

text \<open>
  Attributes and filesystem statistics: the second half of
  \<^verbatim>\<open>crates/vfsi-core/src/types.rs\<close>, the attribute requests of
  \<^verbatim>\<open>crates/vfsi-core/src/api/metadata.rs\<close> and the timestamp checks of
  \<^verbatim>\<open>crates/vfsi-core/src/internal.rs\<close>.

  A \<^verbatim>\<open>SystemTime\<close> is the number of nanoseconds since the epoch; on Linux its
  seconds are a signed 64-bit integer, so \<^verbatim>\<open>checked_add\<close> and \<^verbatim>\<open>checked_sub\<close> fail
  outside that range.
\<close>

section \<open>Attribute masks\<close>

definition AM_MODE :: "32 word" where "AM_MODE = 1"
definition AM_SIZE :: "32 word" where "AM_SIZE = 2"
definition AM_NLINK :: "32 word" where "AM_NLINK = 4"
definition AM_FILEID :: "32 word" where "AM_FILEID = 8"
definition AM_BLOCKS :: "32 word" where "AM_BLOCKS = 16"
definition AM_UID :: "32 word" where "AM_UID = 32"
definition AM_GID :: "32 word" where "AM_GID = 64"
definition AM_RDEV :: "32 word" where "AM_RDEV = 128"
definition AM_ATIME :: "32 word" where "AM_ATIME = 256"
definition AM_MTIME :: "32 word" where "AM_MTIME = 512"
definition AM_CTIME :: "32 word" where "AM_CTIME = 1024"
definition AM_NAMED_ATTR :: "32 word" where "AM_NAMED_ATTR = 2048"
definition AM_CHANGE :: "32 word" where "AM_CHANGE = 4096"
definition AM_FS_ID :: "32 word" where "AM_FS_ID = 8192"

lemmas attr_mask_defs = AM_MODE_def AM_SIZE_def AM_NLINK_def AM_FILEID_def AM_BLOCKS_def
  AM_UID_def AM_GID_def AM_RDEV_def AM_ATIME_def AM_MTIME_def AM_CTIME_def
  AM_NAMED_ATTR_def AM_CHANGE_def AM_FS_ID_def

definition attr_mask_stat :: "32 word" where
  "attr_mask_stat = AM_MODE OR AM_SIZE OR AM_NLINK OR AM_FILEID OR AM_FS_ID"

definition attr_mask_identity :: "32 word" where
  "attr_mask_identity = AM_FILEID OR AM_FS_ID"

section \<open>Time\<close>

definition NANOS :: int where
  "NANOS = 1000000000"

definition system_time_ok :: "int \<Rightarrow> bool" where
  "system_time_ok t \<longleftrightarrow> - (2 ^ 63) * NANOS \<le> t \<and> t < 2 ^ 63 * NANOS"

definition st_checked_add :: "int \<Rightarrow> int \<Rightarrow> int option" where
  "st_checked_add t d = (if system_time_ok (t + d) then Some (t + d) else None)"

definition st_checked_sub :: "int \<Rightarrow> int \<Rightarrow> int option" where
  "st_checked_sub t d = (if system_time_ok (t - d) then Some (t - d) else None)"

definition system_time :: "int \<Rightarrow> nat \<Rightarrow> int option" where
  "system_time seconds nanos =
     (if seconds < 0
      then Option.bind (st_checked_sub 0 (\<bar>seconds\<bar> * NANOS)) (\<lambda>t. st_checked_add t (int nanos))
      else st_checked_add 0 (seconds * NANOS + int nanos))"

definition system_time_parts :: "int \<Rightarrow> VfError + int \<times> nat" where
  "system_time_parts t =
     (let overflow = Inl (vf_errno (Some 0) EOVERFLOW)
      in if 0 \<le> t
         then let seconds = t div NANOS
              in if seconds \<le> int i64_max then Inr (seconds, nat (t mod NANOS)) else overflow
         else let seconds = (- t) div NANOS; subsec = (- t) mod NANOS
              in if \<not> seconds \<le> int i64_max then overflow
                 else if subsec = 0 then Inr (- seconds, 0)
                 else if \<not> seconds + 1 \<le> int i64_max then overflow
                 else Inr (- (seconds + 1), nat (NANOS - subsec)))"

section \<open>Backend attributes\<close>

record Permissions =
  perm_mode :: "32 word"

definition permissions_from_mode :: "32 word \<Rightarrow> Permissions" where
  "permissions_from_mode mode = \<lparr> perm_mode = mode AND 0xFFF \<rparr>"

definition permissions_readonly :: "Permissions \<Rightarrow> bool" where
  "permissions_readonly p \<longleftrightarrow> perm_mode p AND 0x92 = 0"

record VfAttrs =
  va_file :: FileOperand
  va_masks :: "32 word"
  va_returned :: "32 word"
  va_ftype :: VfType
  va_mode :: "32 word"
  va_size :: nat
  va_nlink :: nat
  va_fileid :: nat
  va_fs_id :: nat
  va_change :: nat
  va_uid :: nat
  va_gid :: nat
  va_rdev :: nat
  va_blocks :: nat
  va_mtime_sec :: int
  va_mtime_nsec :: nat
  va_atime_sec :: int
  va_atime_nsec :: nat
  va_ctime_sec :: int
  va_ctime_nsec :: nat
  va_has_named_attr :: bool

definition vf_attrs_default :: VfAttrs where
  "vf_attrs_default =
     \<lparr> va_file = Cwd, va_masks = 0, va_returned = 0, va_ftype = Regular, va_mode = 0,
       va_size = 0, va_nlink = 0, va_fileid = 0, va_fs_id = 0, va_change = 0, va_uid = 0,
       va_gid = 0, va_rdev = 0, va_blocks = 0, va_mtime_sec = 0, va_mtime_nsec = 0,
       va_atime_sec = 0, va_atime_nsec = 0, va_ctime_sec = 0, va_ctime_nsec = 0,
       va_has_named_attr = False \<rparr>"

section \<open>Application attributes\<close>

record FsObjId =
  foi_fs_id :: nat
  foi_file_id :: nat

record Attrs =
  at_file_type :: VfType
  at_len :: nat
  at_permissions :: Permissions
  at_returned :: "32 word"
  at_mode :: "32 word"
  at_blocks :: nat
  at_device_id :: nat
  at_has_named_attributes :: "bool option"
  at_modified :: "int option"
  at_accessed :: "int option"
  at_changed :: "int option"
  at_nlink :: nat
  at_fs_id :: nat
  at_file_id :: nat
  at_change_id :: nat
  at_uid :: nat
  at_gid :: nat

text \<open>\<^verbatim>\<open>self.returned.contains(mask).then_some(value)\<close>\<close>

definition attrs_then_some :: "Attrs \<Rightarrow> 32 word \<Rightarrow> 'v \<Rightarrow> 'v option" where
  "attrs_then_some at msk v = (if flags_contain (at_returned at) msk then Some v else None)"

definition attrs_absent_mask :: "Attrs \<Rightarrow> 32 word \<Rightarrow> 32 word" where
  "attrs_absent_mask at requested = requested AND NOT (at_returned at)"

definition attrs_contains :: "Attrs \<Rightarrow> 32 word \<Rightarrow> bool" where
  "attrs_contains at requested \<longleftrightarrow> attrs_absent_mask at requested = 0"

definition attrs_require :: "Attrs \<Rightarrow> 32 word \<Rightarrow> VfError + Attrs" where
  "attrs_require at wanted =
     (let invalid_time =
        list_ex (\<lambda>(field, v). flags_contain wanted field \<and> v = None)
          [(AM_ATIME, at_accessed at), (AM_MTIME, at_modified at), (AM_CTIME, at_changed at)]
      in if \<not> attrs_contains at wanted \<or> invalid_time
         then Inl (vf_with_message (vf_unsupported None)
                ''required attributes are missing or cannot be represented'')
         else Inr at)"

definition attrs_mode :: "Attrs \<Rightarrow> 32 word option" where
  "attrs_mode at = attrs_then_some at AM_MODE (at_mode at)"
definition attrs_blocks :: "Attrs \<Rightarrow> nat option" where
  "attrs_blocks at = attrs_then_some at AM_BLOCKS (at_blocks at)"
definition attrs_device_id :: "Attrs \<Rightarrow> nat option" where
  "attrs_device_id at = attrs_then_some at AM_RDEV (at_device_id at)"
definition attrs_is_file :: "Attrs \<Rightarrow> bool" where
  "attrs_is_file at \<longleftrightarrow> at_file_type at = Regular"
definition attrs_is_dir :: "Attrs \<Rightarrow> bool" where
  "attrs_is_dir at \<longleftrightarrow> at_file_type at = Directory"
definition attrs_is_symlink :: "Attrs \<Rightarrow> bool" where
  "attrs_is_symlink at \<longleftrightarrow> at_file_type at = Symlink"
definition attrs_len :: "Attrs \<Rightarrow> nat option" where
  "attrs_len at = attrs_then_some at AM_SIZE (at_len at)"
definition attrs_is_empty :: "Attrs \<Rightarrow> bool option" where
  "attrs_is_empty at = map_option (\<lambda>n. n = 0) (attrs_len at)"
definition attrs_permissions :: "Attrs \<Rightarrow> Permissions option" where
  "attrs_permissions at = attrs_then_some at AM_MODE (at_permissions at)"
definition attrs_nlink :: "Attrs \<Rightarrow> nat option" where
  "attrs_nlink at = attrs_then_some at AM_NLINK (at_nlink at)"
definition attrs_file_id :: "Attrs \<Rightarrow> nat option" where
  "attrs_file_id at = attrs_then_some at AM_FILEID (at_file_id at)"
definition attrs_fs_id :: "Attrs \<Rightarrow> nat option" where
  "attrs_fs_id at = attrs_then_some at AM_FS_ID (at_fs_id at)"
definition attrs_fs_obj_id :: "Attrs \<Rightarrow> FsObjId option" where
  "attrs_fs_obj_id at =
     (case attrs_fs_id at of
        None \<Rightarrow> None
      | Some f \<Rightarrow> map_option (\<lambda>i. \<lparr> foi_fs_id = f, foi_file_id = i \<rparr>) (attrs_file_id at))"
definition attrs_change_id :: "Attrs \<Rightarrow> nat option" where
  "attrs_change_id at = attrs_then_some at AM_CHANGE (at_change_id at)"
definition attrs_uid :: "Attrs \<Rightarrow> nat option" where
  "attrs_uid at = attrs_then_some at AM_UID (at_uid at)"
definition attrs_gid :: "Attrs \<Rightarrow> nat option" where
  "attrs_gid at = attrs_then_some at AM_GID (at_gid at)"

text \<open>The macro \<^verbatim>\<open>integer!\<close> and the timestamp conversions of \<^verbatim>\<open>metadata_from_attrs\<close>.\<close>

definition returned_or_zero :: "32 word \<Rightarrow> 32 word \<Rightarrow> 'v::zero \<Rightarrow> 'v" where
  "returned_or_zero returned msk v = (if flags_contain returned msk then v else 0)"

definition returned_time :: "32 word \<Rightarrow> 32 word \<Rightarrow> int \<Rightarrow> nat \<Rightarrow> int option" where
  "returned_time returned msk sec nsec =
     (if flags_contain returned msk then system_time sec nsec else None)"

definition metadata_from_attrs :: "VfAttrs \<Rightarrow> Attrs" where
  "metadata_from_attrs a =
     (let r = va_returned a
      in \<lparr> at_file_type = va_ftype a,
           at_len = returned_or_zero r AM_SIZE (va_size a),
           at_permissions = permissions_from_mode (returned_or_zero r AM_MODE (va_mode a)),
           at_returned = r,
           at_mode = returned_or_zero r AM_MODE (va_mode a),
           at_blocks = returned_or_zero r AM_BLOCKS (va_blocks a),
           at_device_id = returned_or_zero r AM_RDEV (va_rdev a),
           at_has_named_attributes =
             (if flags_contain r AM_NAMED_ATTR then Some (va_has_named_attr a) else None),
           at_modified = returned_time r AM_MTIME (va_mtime_sec a) (va_mtime_nsec a),
           at_accessed = returned_time r AM_ATIME (va_atime_sec a) (va_atime_nsec a),
           at_changed = returned_time r AM_CTIME (va_ctime_sec a) (va_ctime_nsec a),
           at_nlink = returned_or_zero r AM_NLINK (va_nlink a),
           at_fs_id = returned_or_zero r AM_FS_ID (va_fs_id a),
           at_file_id = returned_or_zero r AM_FILEID (va_fileid a),
           at_change_id = returned_or_zero r AM_CHANGE (va_change a),
           at_uid = returned_or_zero r AM_UID (va_uid a),
           at_gid = returned_or_zero r AM_GID (va_gid a) \<rparr>)"

record DirEntry =
  de_path :: bytes
  de_metadata :: Attrs

text \<open>\<^verbatim>\<open>Path::file_name\<close>: the last component, unless it is \<^verbatim>\<open>..\<close>.\<close>

definition path_file_name :: "bytes \<Rightarrow> bytes option" where
  "path_file_name path =
     (let cs = filter (\<lambda>c. c \<noteq> [] \<and> c \<noteq> ''.'') (split_on slash path)
      in if cs = [] \<or> last cs = ''..'' then None else Some (last cs))"

definition dir_entry_file_name :: "DirEntry \<Rightarrow> bytes option" where
  "dir_entry_file_name e = path_file_name (de_path e)"

section \<open>Attribute updates\<close>

record 't SetAttrsOp =
  sa_target :: 't
  sa_permissions :: Permissions
  sa_uid :: nat
  sa_gid :: nat
  sa_len :: nat
  sa_accessed :: "int option"
  sa_modified :: "int option"
  sa_follow :: bool
  sa_present :: "8 word"

definition set_attrs_new :: "'t \<Rightarrow> 't SetAttrsOp" where
  "set_attrs_new target =
     \<lparr> sa_target = target, sa_permissions = permissions_from_mode 0, sa_uid = 0, sa_gid = 0,
       sa_len = 0, sa_accessed = None, sa_modified = None, sa_follow = True, sa_present = 0 \<rparr>"

definition set_attrs_follow :: "'t SetAttrsOp \<Rightarrow> bool \<Rightarrow> 't SetAttrsOp" where
  "set_attrs_follow op follow = op \<lparr> sa_follow := follow \<rparr>"
definition set_attrs_permissions :: "'t SetAttrsOp \<Rightarrow> Permissions \<Rightarrow> 't SetAttrsOp" where
  "set_attrs_permissions op p = op \<lparr> sa_permissions := p, sa_present := sa_present op OR 1 \<rparr>"
definition set_attrs_uid :: "'t SetAttrsOp \<Rightarrow> nat \<Rightarrow> 't SetAttrsOp" where
  "set_attrs_uid op uid = op \<lparr> sa_uid := uid, sa_present := sa_present op OR 2 \<rparr>"
definition set_attrs_gid :: "'t SetAttrsOp \<Rightarrow> nat \<Rightarrow> 't SetAttrsOp" where
  "set_attrs_gid op gid = op \<lparr> sa_gid := gid, sa_present := sa_present op OR 4 \<rparr>"
definition set_attrs_len :: "'t SetAttrsOp \<Rightarrow> nat \<Rightarrow> 't SetAttrsOp" where
  "set_attrs_len op n = op \<lparr> sa_len := n, sa_present := sa_present op OR 8 \<rparr>"
definition set_attrs_accessed :: "'t SetAttrsOp \<Rightarrow> int \<Rightarrow> 't SetAttrsOp" where
  "set_attrs_accessed op t = op \<lparr> sa_accessed := Some t \<rparr>"
definition set_attrs_modified :: "'t SetAttrsOp \<Rightarrow> int \<Rightarrow> 't SetAttrsOp" where
  "set_attrs_modified op t = op \<lparr> sa_modified := Some t \<rparr>"

definition set_attrs_with_target :: "'t SetAttrsOp \<Rightarrow> 'u \<Rightarrow> 'u SetAttrsOp" where
  "set_attrs_with_target op target =
     \<lparr> sa_target = target, sa_permissions = sa_permissions op, sa_uid = sa_uid op,
       sa_gid = sa_gid op, sa_len = sa_len op, sa_accessed = sa_accessed op,
       sa_modified = sa_modified op, sa_follow = sa_follow op, sa_present = sa_present op \<rparr>"

definition requested_permissions :: "'t SetAttrsOp \<Rightarrow> Permissions option" where
  "requested_permissions op = (if sa_present op AND 1 \<noteq> 0 then Some (sa_permissions op) else None)"
definition requested_uid :: "'t SetAttrsOp \<Rightarrow> nat option" where
  "requested_uid op = (if sa_present op AND 2 \<noteq> 0 then Some (sa_uid op) else None)"
definition requested_gid :: "'t SetAttrsOp \<Rightarrow> nat option" where
  "requested_gid op = (if sa_present op AND 4 \<noteq> 0 then Some (sa_gid op) else None)"
definition requested_len :: "'t SetAttrsOp \<Rightarrow> nat option" where
  "requested_len op = (if sa_present op AND 8 \<noteq> 0 then Some (sa_len op) else None)"

text \<open>\<^verbatim>\<open>op.requested_accessed().map(system_time_parts).transpose()\<close>\<close>

definition transpose_parts :: "int option \<Rightarrow> VfError + (int \<times> nat) option" where
  "transpose_parts t =
     (case t of
        None \<Rightarrow> Inr None
      | Some time \<Rightarrow> (case system_time_parts time of Inl e \<Rightarrow> Inl e | Inr p \<Rightarrow> Inr (Some p)))"

definition validate_setattrs ::
  "'t SetAttrsOp \<Rightarrow> VfError + (int \<times> nat) option \<times> (int \<times> nat) option" where
  "validate_setattrs op =
     (if requested_uid op = Some u32_max \<or> requested_gid op = Some u32_max
      then Inl (vf_from_kind (Some 0) K_InvalidInput)
      else case transpose_parts (sa_accessed op) of
             Inl e \<Rightarrow> Inl e
           | Inr accessed \<Rightarrow>
               (case transpose_parts (sa_modified op) of
                  Inl e \<Rightarrow> Inl e
                | Inr modified \<Rightarrow> Inr (accessed, modified)))"

section \<open>Filesystem statistics\<close>

record FilesystemStatsFlags =
  ff_present :: "16 word"
  ff_read_only :: bool
  ff_no_set_id :: bool

record FilesystemStats =
  fs_total_bytes :: nat
  fs_free_bytes :: nat
  fs_available_bytes :: nat
  fs_total_files :: nat
  fs_free_files :: nat
  fs_available_files :: nat
  fs_block_size :: nat
  fs_fragment_size :: nat
  fs_max_name_len :: nat
  fs_max_path_len :: nat
  fs_max_links :: nat
  fs_max_file_size :: nat
  fs_file_size_bits :: nat
  fs_flags :: FilesystemStatsFlags

definition stats_default :: FilesystemStats where
  "stats_default =
     \<lparr> fs_total_bytes = 0, fs_free_bytes = 0, fs_available_bytes = 0, fs_total_files = 0,
       fs_free_files = 0, fs_available_files = 0, fs_block_size = 0, fs_fragment_size = 0,
       fs_max_name_len = 0, fs_max_path_len = 0, fs_max_links = 0, fs_max_file_size = 0,
       fs_file_size_bits = 0,
       fs_flags = \<lparr> ff_present = 0, ff_read_only = False, ff_no_set_id = False \<rparr> \<rparr>"

definition stats_set_present :: "FilesystemStats \<Rightarrow> nat \<Rightarrow> bool \<Rightarrow> FilesystemStats" where
  "stats_set_present s k present =
     (let msk = push_bit k 1;
          bits = ff_present (fs_flags s) AND NOT msk
      in s \<lparr> fs_flags := (fs_flags s) \<lparr> ff_present := bits OR (if present then msk else 0) \<rparr> \<rparr>)"

definition stats_has :: "FilesystemStats \<Rightarrow> nat \<Rightarrow> bool" where
  "stats_has s k \<longleftrightarrow> ff_present (fs_flags s) AND push_bit k 1 \<noteq> 0"

text \<open>The two functions the macro \<^verbatim>\<open>filesystem_stat_field!\<close> generates for a field.\<close>

definition stats_get :: "nat \<Rightarrow> nat \<Rightarrow> FilesystemStats \<Rightarrow> nat option" where
  "stats_get k v s = (if stats_has s k then Some v else None)"

definition or_default :: "nat option \<Rightarrow> nat" where
  "or_default v = (case v of Some n \<Rightarrow> n | None \<Rightarrow> 0)"

definition total_bytes :: "FilesystemStats \<Rightarrow> nat option" where
  "total_bytes s = stats_get 0 (fs_total_bytes s) s"
definition with_total_bytes :: "FilesystemStats \<Rightarrow> nat option \<Rightarrow> FilesystemStats" where
  "with_total_bytes s v = (stats_set_present s 0 (v \<noteq> None)) \<lparr> fs_total_bytes := or_default v \<rparr>"
definition free_bytes :: "FilesystemStats \<Rightarrow> nat option" where
  "free_bytes s = stats_get 1 (fs_free_bytes s) s"
definition with_free_bytes :: "FilesystemStats \<Rightarrow> nat option \<Rightarrow> FilesystemStats" where
  "with_free_bytes s v = (stats_set_present s 1 (v \<noteq> None)) \<lparr> fs_free_bytes := or_default v \<rparr>"
definition available_bytes :: "FilesystemStats \<Rightarrow> nat option" where
  "available_bytes s = stats_get 2 (fs_available_bytes s) s"
definition with_available_bytes :: "FilesystemStats \<Rightarrow> nat option \<Rightarrow> FilesystemStats" where
  "with_available_bytes s v = (stats_set_present s 2 (v \<noteq> None)) \<lparr> fs_available_bytes := or_default v \<rparr>"
definition total_files :: "FilesystemStats \<Rightarrow> nat option" where
  "total_files s = stats_get 3 (fs_total_files s) s"
definition with_total_files :: "FilesystemStats \<Rightarrow> nat option \<Rightarrow> FilesystemStats" where
  "with_total_files s v = (stats_set_present s 3 (v \<noteq> None)) \<lparr> fs_total_files := or_default v \<rparr>"
definition free_files :: "FilesystemStats \<Rightarrow> nat option" where
  "free_files s = stats_get 4 (fs_free_files s) s"
definition with_free_files :: "FilesystemStats \<Rightarrow> nat option \<Rightarrow> FilesystemStats" where
  "with_free_files s v = (stats_set_present s 4 (v \<noteq> None)) \<lparr> fs_free_files := or_default v \<rparr>"
definition available_files :: "FilesystemStats \<Rightarrow> nat option" where
  "available_files s = stats_get 5 (fs_available_files s) s"
definition with_available_files :: "FilesystemStats \<Rightarrow> nat option \<Rightarrow> FilesystemStats" where
  "with_available_files s v = (stats_set_present s 5 (v \<noteq> None)) \<lparr> fs_available_files := or_default v \<rparr>"
definition block_size :: "FilesystemStats \<Rightarrow> nat option" where
  "block_size s = stats_get 6 (fs_block_size s) s"
definition with_block_size :: "FilesystemStats \<Rightarrow> nat option \<Rightarrow> FilesystemStats" where
  "with_block_size s v = (stats_set_present s 6 (v \<noteq> None)) \<lparr> fs_block_size := or_default v \<rparr>"
definition fragment_size :: "FilesystemStats \<Rightarrow> nat option" where
  "fragment_size s = stats_get 7 (fs_fragment_size s) s"
definition with_fragment_size :: "FilesystemStats \<Rightarrow> nat option \<Rightarrow> FilesystemStats" where
  "with_fragment_size s v = (stats_set_present s 7 (v \<noteq> None)) \<lparr> fs_fragment_size := or_default v \<rparr>"
definition max_name_len :: "FilesystemStats \<Rightarrow> nat option" where
  "max_name_len s = stats_get 8 (fs_max_name_len s) s"
definition with_max_name_len :: "FilesystemStats \<Rightarrow> nat option \<Rightarrow> FilesystemStats" where
  "with_max_name_len s v = (stats_set_present s 8 (v \<noteq> None)) \<lparr> fs_max_name_len := or_default v \<rparr>"
definition max_path_len :: "FilesystemStats \<Rightarrow> nat option" where
  "max_path_len s = stats_get 9 (fs_max_path_len s) s"
definition with_max_path_len :: "FilesystemStats \<Rightarrow> nat option \<Rightarrow> FilesystemStats" where
  "with_max_path_len s v = (stats_set_present s 9 (v \<noteq> None)) \<lparr> fs_max_path_len := or_default v \<rparr>"
definition max_links :: "FilesystemStats \<Rightarrow> nat option" where
  "max_links s = stats_get 10 (fs_max_links s) s"
definition with_max_links :: "FilesystemStats \<Rightarrow> nat option \<Rightarrow> FilesystemStats" where
  "with_max_links s v = (stats_set_present s 10 (v \<noteq> None)) \<lparr> fs_max_links := or_default v \<rparr>"
definition max_file_size :: "FilesystemStats \<Rightarrow> nat option" where
  "max_file_size s = stats_get 11 (fs_max_file_size s) s"
definition with_max_file_size :: "FilesystemStats \<Rightarrow> nat option \<Rightarrow> FilesystemStats" where
  "with_max_file_size s v = (stats_set_present s 11 (v \<noteq> None)) \<lparr> fs_max_file_size := or_default v \<rparr>"
definition file_size_bits :: "FilesystemStats \<Rightarrow> nat option" where
  "file_size_bits s = stats_get 12 (fs_file_size_bits s) s"
definition with_file_size_bits :: "FilesystemStats \<Rightarrow> nat option \<Rightarrow> FilesystemStats" where
  "with_file_size_bits s v = (stats_set_present s 12 (v \<noteq> None)) \<lparr> fs_file_size_bits := or_default v \<rparr>"
definition read_only :: "FilesystemStats \<Rightarrow> bool option" where
  "read_only s = (if stats_has s 13 then Some (ff_read_only (fs_flags s)) else None)"
definition with_read_only :: "FilesystemStats \<Rightarrow> bool option \<Rightarrow> FilesystemStats" where
  "with_read_only s v =
     (let t = stats_set_present s 13 (v \<noteq> None)
      in t \<lparr> fs_flags := (fs_flags t) \<lparr> ff_read_only := (v = Some True) \<rparr> \<rparr>)"
definition no_set_id :: "FilesystemStats \<Rightarrow> bool option" where
  "no_set_id s = (if stats_has s 14 then Some (ff_no_set_id (fs_flags s)) else None)"
definition with_no_set_id :: "FilesystemStats \<Rightarrow> bool option \<Rightarrow> FilesystemStats" where
  "with_no_set_id s v =
     (let t = stats_set_present s 14 (v \<noteq> None)
      in t \<lparr> fs_flags := (fs_flags t) \<lparr> ff_no_set_id := (v = Some True) \<rparr> \<rparr>)"

text \<open>All fifteen optional values in the order of their presence bits.\<close>

definition bool_nat :: "bool option \<Rightarrow> nat option" where
  "bool_nat v = map_option (\<lambda>b. if b then 1 else 0) v"

definition stats_values :: "FilesystemStats \<Rightarrow> nat option list" where
  "stats_values s =
     [total_bytes s, free_bytes s, available_bytes s, total_files s,
      free_files s, available_files s, block_size s, fragment_size s,
      max_name_len s, max_path_len s, max_links s, max_file_size s,
      file_size_bits s,
      bool_nat (read_only s), bool_nat (no_set_id s)]"

section \<open>Timestamps\<close>

lemma system_time_value:
  assumes "- (2 ^ 63) \<le> s" "s < 2 ^ 63" "n < 1000000000"
  shows "system_time s n = Some (s * NANOS + int n)"
proof -
  have "- (2 ^ 63) * NANOS \<le> s * NANOS" using assms(1) by (simp add: NANOS_def)
  moreover have "s * NANOS + int n < 2 ^ 63 * NANOS" using assms(2,3) by (simp add: NANOS_def)
  ultimately show ?thesis
    by (auto simp: system_time_def st_checked_add_def st_checked_sub_def system_time_ok_def NANOS_def)
qed

lemma system_time_parts_value:
  assumes "system_time_parts t = Inr (s, n)"
  shows "t = s * NANOS + int n \<and> n < 1000000000"
proof (cases "0 \<le> t")
  case True
  then show ?thesis
    using assms by (auto simp: system_time_parts_def Let_def NANOS_def nat_less_iff split: if_splits)
next
  case False
  let ?q = "(- t) div NANOS" and ?r = "(- t) mod NANOS"
  have split: "- t = ?q * NANOS + ?r" by simp
  have r: "0 \<le> ?r" "?r < NANOS" by (simp_all add: NANOS_def)
  show ?thesis
  proof (cases "?r = 0")
    case True
    then have "s = - ?q" "n = 0"
      using assms False by (auto simp: system_time_parts_def Let_def split: if_splits)
    then show ?thesis using split True by simp
  next
    case nz: False
    then have s: "s = - (?q + 1)" and n: "n = nat (NANOS - ?r)"
      using assms False by (auto simp: system_time_parts_def Let_def split: if_splits)
    have n': "int n = NANOS - ?r" using n r by simp
    have "- (q + 1) * m + (m - r) = - (q * m + r)" for q r m :: int by algebra
    then have "s * NANOS + int n = - (?q * NANOS + ?r)" unfolding s n' .
    then have "t = s * NANOS + int n" using split by linarith
    moreover have "int n < 1000000000" using n' nz r by (simp add: NANOS_def)
    ultimately show ?thesis by simp
  qed
qed

lemma system_time_parts_total:
  assumes "- (2 ^ 63) < s" "s < 2 ^ 63" "n < 1000000000"
  shows "\<exists>p. system_time_parts (s * NANOS + int n) = Inr p"
proof (cases "0 \<le> s * NANOS + int n")
  case True
  then have "(s * NANOS + int n) div NANOS \<le> int i64_max"
    using assms by (simp add: NANOS_def i64_max_def)
  with True show ?thesis by (simp add: system_time_parts_def Let_def)
next
  case False
  have "(- (s * NANOS + int n)) div NANOS \<le> 2 ^ 63 - 1"
    using assms False by (simp add: NANOS_def)
  moreover have "(- (s * NANOS + int n)) div NANOS + 1 \<le> 2 ^ 63 - 1"
    if "(- (s * NANOS + int n)) mod NANOS \<noteq> 0"
  proof -
    have "n \<noteq> 0"
    proof
      assume "n = 0"
      then have "(- (s * NANOS + int n)) mod NANOS = (- s * NANOS) mod NANOS" by simp
      also have "\<dots> = 0" by (rule mod_mult_self2_is_0)
      finally show False using that by simp
    qed
    then have "(- (s * NANOS + int n)) div NANOS < - s"
      using assms(3) by (simp add: NANOS_def)
    then show ?thesis using assms(1) by simp
  qed
  ultimately show ?thesis
    using False by (auto simp: system_time_parts_def Let_def i64_max_def)
qed

lemma transpose_parts_value:
  "transpose_parts t = Inr p \<Longrightarrow> map_option (\<lambda>(s, n). s * NANOS + int n) p = t"
  using system_time_parts_value
  by (cases t) (auto simp: transpose_parts_def split: sum.splits)

section \<open>Sparse attributes\<close>

lemma flags_contain_iff_diff: "flags_contain w x \<longleftrightarrow> x AND NOT w = 0"
  unfolding flags_contain_def bit_eq_iff by (auto simp: bit_simps)

lemma attrs_contains_iff: "attrs_contains at msk \<longleftrightarrow> flags_contain (at_returned at) msk"
  by (simp add: attrs_contains_def attrs_absent_mask_def flags_contain_iff_diff)

lemma metadata_returned: "at_returned (metadata_from_attrs a) = va_returned a"
  by (simp add: metadata_from_attrs_def Let_def)

lemma flags_contain_trans:
  "flags_contain w x \<Longrightarrow> flags_contain x y \<Longrightarrow> flags_contain w y"
  unfolding flags_contain_iff_diff bit_eq_iff by (auto simp: bit_simps)

lemma flags_contain_or: "flags_contain w (x OR y) \<longleftrightarrow> flags_contain w x \<and> flags_contain w y"
  unfolding flags_contain_iff_diff bit_eq_iff by (auto simp: bit_simps)

lemma attrs_field_eq:
  assumes "attrs_then_some x m v = attrs_then_some y m w" "at_returned x = at_returned y"
    "\<not> flags_contain (at_returned x) m \<Longrightarrow> v = 0" "\<not> flags_contain (at_returned y) m \<Longrightarrow> w = 0"
  shows "v = w"
  using assms by (auto simp: attrs_then_some_def split: if_splits)

lemma metadata_zero:
  "\<not> flags_contain (at_returned (metadata_from_attrs a)) AM_SIZE \<Longrightarrow> at_len (metadata_from_attrs a) = 0"
  "\<not> flags_contain (at_returned (metadata_from_attrs a)) AM_MODE \<Longrightarrow> at_mode (metadata_from_attrs a) = 0"
  "\<not> flags_contain (at_returned (metadata_from_attrs a)) AM_BLOCKS \<Longrightarrow> at_blocks (metadata_from_attrs a) = 0"
  "\<not> flags_contain (at_returned (metadata_from_attrs a)) AM_RDEV \<Longrightarrow> at_device_id (metadata_from_attrs a) = 0"
  "\<not> flags_contain (at_returned (metadata_from_attrs a)) AM_NLINK \<Longrightarrow> at_nlink (metadata_from_attrs a) = 0"
  "\<not> flags_contain (at_returned (metadata_from_attrs a)) AM_FS_ID \<Longrightarrow> at_fs_id (metadata_from_attrs a) = 0"
  "\<not> flags_contain (at_returned (metadata_from_attrs a)) AM_FILEID \<Longrightarrow> at_file_id (metadata_from_attrs a) = 0"
  "\<not> flags_contain (at_returned (metadata_from_attrs a)) AM_CHANGE \<Longrightarrow> at_change_id (metadata_from_attrs a) = 0"
  "\<not> flags_contain (at_returned (metadata_from_attrs a)) AM_UID \<Longrightarrow> at_uid (metadata_from_attrs a) = 0"
  "\<not> flags_contain (at_returned (metadata_from_attrs a)) AM_GID \<Longrightarrow> at_gid (metadata_from_attrs a) = 0"
  by (simp_all add: metadata_from_attrs_def Let_def returned_or_zero_def)

section \<open>Statistics\<close>

lemma stats_has_bit: "stats_has s k \<longleftrightarrow> bit (ff_present (fs_flags s)) k"
  by (simp add: stats_has_def bit_iff_and_push_bit_not_eq_0)

lemma stats_set_present_bit:
  "k < 16 \<Longrightarrow> bit (ff_present (fs_flags (stats_set_present s k p))) j \<longleftrightarrow>
     (if j = k then p else bit (ff_present (fs_flags s)) j)"
  by (auto simp: stats_set_present_def Let_def bit_simps dest: bit_imp_le_length)

lemma stats_set_present_other [simp]:
  "fs_total_bytes (stats_set_present s k p) = fs_total_bytes s"
  "fs_free_bytes (stats_set_present s k p) = fs_free_bytes s"
  "fs_available_bytes (stats_set_present s k p) = fs_available_bytes s"
  "fs_total_files (stats_set_present s k p) = fs_total_files s"
  "fs_free_files (stats_set_present s k p) = fs_free_files s"
  "fs_available_files (stats_set_present s k p) = fs_available_files s"
  "fs_block_size (stats_set_present s k p) = fs_block_size s"
  "fs_fragment_size (stats_set_present s k p) = fs_fragment_size s"
  "fs_max_name_len (stats_set_present s k p) = fs_max_name_len s"
  "fs_max_path_len (stats_set_present s k p) = fs_max_path_len s"
  "fs_max_links (stats_set_present s k p) = fs_max_links s"
  "fs_max_file_size (stats_set_present s k p) = fs_max_file_size s"
  "fs_file_size_bits (stats_set_present s k p) = fs_file_size_bits s"
  "ff_read_only (fs_flags (stats_set_present s k p)) = ff_read_only (fs_flags s)"
  "ff_no_set_id (fs_flags (stats_set_present s k p)) = ff_no_set_id (fs_flags s)"
  by (simp_all add: stats_set_present_def Let_def)

lemmas stats_getters = stats_get_def total_bytes_def free_bytes_def available_bytes_def total_files_def
  free_files_def available_files_def block_size_def fragment_size_def max_name_len_def
  max_path_len_def max_links_def max_file_size_def file_size_bits_def read_only_def no_set_id_def
lemmas stats_setters = with_total_bytes_def with_free_bytes_def
  with_available_bytes_def with_total_files_def with_free_files_def with_available_files_def
  with_block_size_def with_fragment_size_def with_max_name_len_def with_max_path_len_def
  with_max_links_def with_max_file_size_def with_file_size_bits_def with_read_only_def with_no_set_id_def

lemma or_default_get [simp]: "(if v \<noteq> None then Some (or_default v) else None) = v"
  by (cases v) (simp_all add: or_default_def)

lemma or_default_cases [simp]: "v \<noteq> None \<Longrightarrow> Some (or_default v) = v"
  by (cases v) (simp_all add: or_default_def)

definition stats_wf :: "FilesystemStats \<Rightarrow> bool" where
  "stats_wf s \<longleftrightarrow>
     (\<not> stats_has s 0 \<longrightarrow> fs_total_bytes s = 0) \<and>
     (\<not> stats_has s 1 \<longrightarrow> fs_free_bytes s = 0) \<and>
     (\<not> stats_has s 2 \<longrightarrow> fs_available_bytes s = 0) \<and>
     (\<not> stats_has s 3 \<longrightarrow> fs_total_files s = 0) \<and>
     (\<not> stats_has s 4 \<longrightarrow> fs_free_files s = 0) \<and>
     (\<not> stats_has s 5 \<longrightarrow> fs_available_files s = 0) \<and>
     (\<not> stats_has s 6 \<longrightarrow> fs_block_size s = 0) \<and>
     (\<not> stats_has s 7 \<longrightarrow> fs_fragment_size s = 0) \<and>
     (\<not> stats_has s 8 \<longrightarrow> fs_max_name_len s = 0) \<and>
     (\<not> stats_has s 9 \<longrightarrow> fs_max_path_len s = 0) \<and>
     (\<not> stats_has s 10 \<longrightarrow> fs_max_links s = 0) \<and>
     (\<not> stats_has s 11 \<longrightarrow> fs_max_file_size s = 0) \<and>
     (\<not> stats_has s 12 \<longrightarrow> fs_file_size_bits s = 0) \<and>
     (\<not> stats_has s 13 \<longrightarrow> \<not> ff_read_only (fs_flags s)) \<and>
     (\<not> stats_has s 14 \<longrightarrow> \<not> ff_no_set_id (fs_flags s)) \<and> \<not> stats_has s 15"

lemma stats_has_set_present [simp]:
  "k < 16 \<Longrightarrow> stats_has (stats_set_present s k p) j \<longleftrightarrow> (if j = k then p else stats_has s j)"
  by (simp add: stats_has_bit stats_set_present_bit)

lemma stats_has_update [simp]:
  "stats_has (s \<lparr> fs_total_bytes := v \<rparr>) j = stats_has s j"
  "stats_has (s \<lparr> fs_free_bytes := v \<rparr>) j = stats_has s j"
  "stats_has (s \<lparr> fs_available_bytes := v \<rparr>) j = stats_has s j"
  "stats_has (s \<lparr> fs_total_files := v \<rparr>) j = stats_has s j"
  "stats_has (s \<lparr> fs_free_files := v \<rparr>) j = stats_has s j"
  "stats_has (s \<lparr> fs_available_files := v \<rparr>) j = stats_has s j"
  "stats_has (s \<lparr> fs_block_size := v \<rparr>) j = stats_has s j"
  "stats_has (s \<lparr> fs_fragment_size := v \<rparr>) j = stats_has s j"
  "stats_has (s \<lparr> fs_max_name_len := v \<rparr>) j = stats_has s j"
  "stats_has (s \<lparr> fs_max_path_len := v \<rparr>) j = stats_has s j"
  "stats_has (s \<lparr> fs_max_links := v \<rparr>) j = stats_has s j"
  "stats_has (s \<lparr> fs_max_file_size := v \<rparr>) j = stats_has s j"
  "stats_has (s \<lparr> fs_file_size_bits := v \<rparr>) j = stats_has s j"
  by (simp_all add: stats_has_def)

lemma stats_has_flag_update [simp]:
  "stats_has (s \<lparr> fs_flags := (fs_flags s) \<lparr> ff_read_only := b \<rparr> \<rparr>) j = stats_has s j"
  "stats_has (s \<lparr> fs_flags := (fs_flags s) \<lparr> ff_no_set_id := b \<rparr> \<rparr>) j = stats_has s j"
  by (simp_all add: stats_has_def)

lemma bool_nat_inj: "bool_nat a = bool_nat b \<longleftrightarrow> a = b"
  by (cases a; cases b) (auto simp: bool_nat_def)

lemma eq_Some_True: "v \<noteq> None \<Longrightarrow> Some (v = Some True) = v"
  by (cases v) auto

lemma stats_default_wf: "stats_wf stats_default"
  by (simp add: stats_wf_def stats_default_def stats_has_def)

lemma or_default_None [simp]: "or_default None = 0"
  by (simp add: or_default_def)

lemma stats_setters_wf:
  assumes "stats_wf s"
  shows
    "stats_wf (with_total_bytes s v)"
    "stats_wf (with_free_bytes s v)"
    "stats_wf (with_available_bytes s v)"
    "stats_wf (with_total_files s v)"
    "stats_wf (with_free_files s v)"
    "stats_wf (with_available_files s v)"
    "stats_wf (with_block_size s v)"
    "stats_wf (with_fragment_size s v)"
    "stats_wf (with_max_name_len s v)"
    "stats_wf (with_max_path_len s v)"
    "stats_wf (with_max_links s v)"
    "stats_wf (with_max_file_size s v)"
    "stats_wf (with_file_size_bits s v)"
    "stats_wf (with_read_only s b)"
    "stats_wf (with_no_set_id s b)"
  using assms by (auto simp: stats_wf_def stats_setters Let_def)

lemma stats_values_set:
  "stats_values (with_total_bytes s v) = (stats_values s)[0 := v]"
  "stats_values (with_free_bytes s v) = (stats_values s)[1 := v]"
  "stats_values (with_available_bytes s v) = (stats_values s)[2 := v]"
  "stats_values (with_total_files s v) = (stats_values s)[3 := v]"
  "stats_values (with_free_files s v) = (stats_values s)[4 := v]"
  "stats_values (with_available_files s v) = (stats_values s)[5 := v]"
  "stats_values (with_block_size s v) = (stats_values s)[6 := v]"
  "stats_values (with_fragment_size s v) = (stats_values s)[7 := v]"
  "stats_values (with_max_name_len s v) = (stats_values s)[8 := v]"
  "stats_values (with_max_path_len s v) = (stats_values s)[9 := v]"
  "stats_values (with_max_links s v) = (stats_values s)[10 := v]"
  "stats_values (with_max_file_size s v) = (stats_values s)[11 := v]"
  "stats_values (with_file_size_bits s v) = (stats_values s)[12 := v]"
  "stats_values (with_read_only s b) = (stats_values s)[13 := bool_nat b]"
  "stats_values (with_no_set_id s b) = (stats_values s)[14 := bool_nat b]"
  by (auto simp: stats_values_def stats_getters stats_setters Let_def eq_Some_True)

lemma stats_has_values:
  assumes "k \<in> {0, 1, 2, 3, 4, 5, 6, 7, 8, 9, 10, 11, 12, 13, 14}"
  shows "stats_has s k \<longleftrightarrow> stats_values s ! k \<noteq> None"
  using assms
  by (elim insertE emptyE) (simp_all add: stats_values_def stats_getters bool_nat_def)

lemma less_16_cases:
  "k < 16 \<Longrightarrow> k \<in> {0, 1, 2, 3, 4, 5, 6, 7, 8, 9, 10, 11, 12, 13, 14} \<or> k = (15::nat)"
  by (simp add: less_Suc_eq numeral_eq_Suc)

lemma stats_wf_present_eq:
  assumes "stats_wf s" "stats_wf t" "stats_values s = stats_values t"
  shows "ff_present (fs_flags s) = ff_present (fs_flags t)"
proof (rule bit_word_eqI)
  fix k assume "k < LENGTH(16)"
  then have "k \<in> {0, 1, 2, 3, 4, 5, 6, 7, 8, 9, 10, 11, 12, 13, 14} \<or> k = 15"
    by (intro less_16_cases) simp
  then have "stats_has s k = stats_has t k"
  proof
    assume "k = 15"
    then show ?thesis using assms(1,2) by (simp add: stats_wf_def)
  next
    assume k: "k \<in> {0, 1, 2, 3, 4, 5, 6, 7, 8, 9, 10, 11, 12, 13, 14}"
    show ?thesis unfolding stats_has_values [OF k] assms(3) ..
  qed
  then show "bit (ff_present (fs_flags s)) k = bit (ff_present (fs_flags t)) k"
    by (simp only: stats_has_bit)
qed

lemma stats_get_eq:
  assumes "stats_get k v s = stats_get k w t" "stats_has s k = stats_has t k"
    "\<not> stats_has s k \<longrightarrow> v = 0" "\<not> stats_has t k \<longrightarrow> w = 0"
  shows "v = w"
  using assms by (auto simp: stats_get_def split: if_splits)

lemma stats_wf_fields_eq:
  assumes wf: "stats_wf s" "stats_wf t" and v: "stats_values s = stats_values t"
    and has: "\<And>k. stats_has s k = stats_has t k"
  shows
    "fs_total_bytes s = fs_total_bytes t"
    "fs_free_bytes s = fs_free_bytes t"
    "fs_available_bytes s = fs_available_bytes t"
    "fs_total_files s = fs_total_files t"
    "fs_free_files s = fs_free_files t"
    "fs_available_files s = fs_available_files t"
    "fs_block_size s = fs_block_size t"
    "fs_fragment_size s = fs_fragment_size t"
    "fs_max_name_len s = fs_max_name_len t"
    "fs_max_path_len s = fs_max_path_len t"
    "fs_max_links s = fs_max_links t"
    "fs_max_file_size s = fs_max_file_size t"
    "fs_file_size_bits s = fs_file_size_bits t"
proof -
  show "fs_total_bytes s = fs_total_bytes t"
    using wf v has [of 0] by (intro stats_get_eq [of 0 _ s _ t])
      (auto simp: stats_wf_def stats_values_def total_bytes_def)
  show "fs_free_bytes s = fs_free_bytes t"
    using wf v has [of 1] by (intro stats_get_eq [of 1 _ s _ t])
      (auto simp: stats_wf_def stats_values_def free_bytes_def)
  show "fs_available_bytes s = fs_available_bytes t"
    using wf v has [of 2] by (intro stats_get_eq [of 2 _ s _ t])
      (auto simp: stats_wf_def stats_values_def available_bytes_def)
  show "fs_total_files s = fs_total_files t"
    using wf v has [of 3] by (intro stats_get_eq [of 3 _ s _ t])
      (auto simp: stats_wf_def stats_values_def total_files_def)
  show "fs_free_files s = fs_free_files t"
    using wf v has [of 4] by (intro stats_get_eq [of 4 _ s _ t])
      (auto simp: stats_wf_def stats_values_def free_files_def)
  show "fs_available_files s = fs_available_files t"
    using wf v has [of 5] by (intro stats_get_eq [of 5 _ s _ t])
      (auto simp: stats_wf_def stats_values_def available_files_def)
  show "fs_block_size s = fs_block_size t"
    using wf v has [of 6] by (intro stats_get_eq [of 6 _ s _ t])
      (auto simp: stats_wf_def stats_values_def block_size_def)
  show "fs_fragment_size s = fs_fragment_size t"
    using wf v has [of 7] by (intro stats_get_eq [of 7 _ s _ t])
      (auto simp: stats_wf_def stats_values_def fragment_size_def)
  show "fs_max_name_len s = fs_max_name_len t"
    using wf v has [of 8] by (intro stats_get_eq [of 8 _ s _ t])
      (auto simp: stats_wf_def stats_values_def max_name_len_def)
  show "fs_max_path_len s = fs_max_path_len t"
    using wf v has [of 9] by (intro stats_get_eq [of 9 _ s _ t])
      (auto simp: stats_wf_def stats_values_def max_path_len_def)
  show "fs_max_links s = fs_max_links t"
    using wf v has [of 10] by (intro stats_get_eq [of 10 _ s _ t])
      (auto simp: stats_wf_def stats_values_def max_links_def)
  show "fs_max_file_size s = fs_max_file_size t"
    using wf v has [of 11] by (intro stats_get_eq [of 11 _ s _ t])
      (auto simp: stats_wf_def stats_values_def max_file_size_def)
  show "fs_file_size_bits s = fs_file_size_bits t"
    using wf v has [of 12] by (intro stats_get_eq [of 12 _ s _ t])
      (auto simp: stats_wf_def stats_values_def file_size_bits_def)
qed

lemma stats_wf_flags_eq:
  assumes wf: "stats_wf s" "stats_wf t" and v: "stats_values s = stats_values t"
    and has: "\<And>k. stats_has s k = stats_has t k"
  shows "ff_read_only (fs_flags s) = ff_read_only (fs_flags t)"
    "ff_no_set_id (fs_flags s) = ff_no_set_id (fs_flags t)"
proof -
  have "read_only s = read_only t" "no_set_id s = no_set_id t"
    using v by (simp_all add: stats_values_def bool_nat_inj)
  then show "ff_read_only (fs_flags s) = ff_read_only (fs_flags t)"
    "ff_no_set_id (fs_flags s) = ff_no_set_id (fs_flags t)"
    using wf has [of 13] has [of 14]
    by (auto simp: read_only_def no_set_id_def stats_wf_def split: if_splits)
qed

lemma stats_wf_eq:
  assumes "stats_wf s" "stats_wf t" "stats_values s = stats_values t"
  shows "s = t"
proof -
  note present = stats_wf_present_eq [OF assms]
  then have has: "stats_has s k = stats_has t k" for k by (simp add: stats_has_def)
  show ?thesis
    using stats_wf_fields_eq [OF assms has] stats_wf_flags_eq [OF assms has] present
    by (intro FilesystemStats.equality FilesystemStatsFlags.equality) simp_all
qed

inductive stats_built :: "FilesystemStats \<Rightarrow> bool" where
  "stats_built stats_default"
| "stats_built s \<Longrightarrow> stats_built (with_total_bytes s v)"
| "stats_built s \<Longrightarrow> stats_built (with_free_bytes s v)"
| "stats_built s \<Longrightarrow> stats_built (with_available_bytes s v)"
| "stats_built s \<Longrightarrow> stats_built (with_total_files s v)"
| "stats_built s \<Longrightarrow> stats_built (with_free_files s v)"
| "stats_built s \<Longrightarrow> stats_built (with_available_files s v)"
| "stats_built s \<Longrightarrow> stats_built (with_block_size s v)"
| "stats_built s \<Longrightarrow> stats_built (with_fragment_size s v)"
| "stats_built s \<Longrightarrow> stats_built (with_max_name_len s v)"
| "stats_built s \<Longrightarrow> stats_built (with_max_path_len s v)"
| "stats_built s \<Longrightarrow> stats_built (with_max_links s v)"
| "stats_built s \<Longrightarrow> stats_built (with_max_file_size s v)"
| "stats_built s \<Longrightarrow> stats_built (with_file_size_bits s v)"
| "stats_built s \<Longrightarrow> stats_built (with_read_only s b)"
| "stats_built s \<Longrightarrow> stats_built (with_no_set_id s b)"

lemma stats_built_wf: "stats_built s \<Longrightarrow> stats_wf s"
  by (induction rule: stats_built.induct) (simp_all add: stats_default_wf stats_setters_wf)

section \<open>Properties\<close>

text \<open>Converting seconds and nanoseconds to a system time and back
  gives the same pair, for every second of the signed 64-bit range but the very
  first; and whatever time is decomposed, the pair denotes exactly that time
  with a normalised nanosecond part, also before the epoch.\<close>

lemma system_time_roundtrip:
  assumes "- (2 ^ 63) < s" "s < 2 ^ 63" "n < 1000000000"
  shows "\<exists>t. system_time s n = Some t \<and> t = s * NANOS + int n \<and> system_time_parts t = Inr (s, n)"
proof -
  let ?t = "s * NANOS + int n"
  have t: "system_time s n = Some ?t" using assms by (intro system_time_value) auto
  obtain s' n' where p: "system_time_parts ?t = Inr (s', n')"
    using system_time_parts_total [OF assms] by fastforce
  note v = system_time_parts_value [OF p]
  have "s' = ?t div NANOS" "int n' = ?t mod NANOS" using v by (simp_all add: NANOS_def)
  moreover have "?t div NANOS = s" "?t mod NANOS = int n" using assms(3) by (simp_all add: NANOS_def)
  ultimately have "s' = s" "n' = n" by simp_all
  with t p show ?thesis by blast
qed

text \<open>C30 (sparse attributes compare by what was returned).  Two converted attribute
  sets are equal iff they agree on the object type, on the mask of returned
  fields and on every optional accessor, so values a backend left in unreturned
  fields are never observable.\<close>

theorem metadata_from_attrs_equality:
  "metadata_from_attrs a = metadata_from_attrs b \<longleftrightarrow>
    (let x = metadata_from_attrs a; y = metadata_from_attrs b
     in at_file_type x = at_file_type y \<and> at_returned x = at_returned y \<and>
        attrs_len x = attrs_len y \<and> attrs_mode x = attrs_mode y \<and>
        attrs_blocks x = attrs_blocks y \<and> attrs_device_id x = attrs_device_id y \<and>
        at_has_named_attributes x = at_has_named_attributes y \<and>
        at_modified x = at_modified y \<and> at_accessed x = at_accessed y \<and>
        at_changed x = at_changed y \<and> attrs_nlink x = attrs_nlink y \<and>
        attrs_fs_id x = attrs_fs_id y \<and> attrs_file_id x = attrs_file_id y \<and>
        attrs_change_id x = attrs_change_id y \<and> attrs_uid x = attrs_uid y \<and>
        attrs_gid x = attrs_gid y)" (is "?l \<longleftrightarrow> ?r")
proof
  let ?x = "metadata_from_attrs a" and ?y = "metadata_from_attrs b"
  assume ?r
  then have r: "at_returned ?x = at_returned ?y" by (simp only: Let_def)
  have "at_len ?x = at_len ?y"
    by (rule attrs_field_eq [OF _ r, of AM_SIZE])
       (use \<open>?r\<close> in \<open>simp_all only: Let_def attrs_len_def metadata_zero not_False_eq_True\<close>)
  moreover have "at_mode ?x = at_mode ?y"
    by (rule attrs_field_eq [OF _ r, of AM_MODE])
       (use \<open>?r\<close> in \<open>simp_all only: Let_def attrs_mode_def metadata_zero not_False_eq_True\<close>)
  moreover have "at_blocks ?x = at_blocks ?y"
    by (rule attrs_field_eq [OF _ r, of AM_BLOCKS])
       (use \<open>?r\<close> in \<open>simp_all only: Let_def attrs_blocks_def metadata_zero not_False_eq_True\<close>)
  moreover have "at_device_id ?x = at_device_id ?y"
    by (rule attrs_field_eq [OF _ r, of AM_RDEV])
       (use \<open>?r\<close> in \<open>simp_all only: Let_def attrs_device_id_def metadata_zero not_False_eq_True\<close>)
  moreover have "at_nlink ?x = at_nlink ?y"
    by (rule attrs_field_eq [OF _ r, of AM_NLINK])
       (use \<open>?r\<close> in \<open>simp_all only: Let_def attrs_nlink_def metadata_zero not_False_eq_True\<close>)
  moreover have "at_fs_id ?x = at_fs_id ?y"
    by (rule attrs_field_eq [OF _ r, of AM_FS_ID])
       (use \<open>?r\<close> in \<open>simp_all only: Let_def attrs_fs_id_def metadata_zero not_False_eq_True\<close>)
  moreover have "at_file_id ?x = at_file_id ?y"
    by (rule attrs_field_eq [OF _ r, of AM_FILEID])
       (use \<open>?r\<close> in \<open>simp_all only: Let_def attrs_file_id_def metadata_zero not_False_eq_True\<close>)
  moreover have "at_change_id ?x = at_change_id ?y"
    by (rule attrs_field_eq [OF _ r, of AM_CHANGE])
       (use \<open>?r\<close> in \<open>simp_all only: Let_def attrs_change_id_def metadata_zero not_False_eq_True\<close>)
  moreover have "at_uid ?x = at_uid ?y"
    by (rule attrs_field_eq [OF _ r, of AM_UID])
       (use \<open>?r\<close> in \<open>simp_all only: Let_def attrs_uid_def metadata_zero not_False_eq_True\<close>)
  moreover have "at_gid ?x = at_gid ?y"
    by (rule attrs_field_eq [OF _ r, of AM_GID])
       (use \<open>?r\<close> in \<open>simp_all only: Let_def attrs_gid_def metadata_zero not_False_eq_True\<close>)
  moreover have "at_permissions ?x = at_permissions ?y"
    using \<open>at_mode ?x = at_mode ?y\<close> by (simp add: metadata_from_attrs_def Let_def)
  ultimately show ?l
    using \<open>?r\<close> r unfolding Let_def by (intro Attrs.equality) (blast | simp)+
qed (simp add: Let_def)

text \<open>C31 (required attributes exist).  When \<^verbatim>\<open>require\<close> accepts a mask on converted backend
  attributes, the accessor of every attribute in the mask returns the value the
  backend delivered, for all fourteen attributes, taken alone or together: size, mode
  and permissions, link count, file and filesystem identifiers and the object
  identifier made of both, blocks, owner, group, device, change counter, named
  attributes and the three timestamps, which are then representable.\<close>

theorem attrs_require_present:
  assumes "attrs_require (metadata_from_attrs a) wanted = Inr at'"
  shows "at' = metadata_from_attrs a \<and>
    (flags_contain wanted AM_SIZE \<longrightarrow> attrs_len at' = Some (va_size a)) \<and>
    (flags_contain wanted AM_MODE \<longrightarrow> attrs_mode at' = Some (va_mode a)) \<and>
    (flags_contain wanted AM_MODE \<longrightarrow> attrs_permissions at' = Some (permissions_from_mode (va_mode a))) \<and>
    (flags_contain wanted AM_NLINK \<longrightarrow> attrs_nlink at' = Some (va_nlink a)) \<and>
    (flags_contain wanted AM_FILEID \<longrightarrow> attrs_file_id at' = Some (va_fileid a)) \<and>
    (flags_contain wanted AM_FS_ID \<longrightarrow> attrs_fs_id at' = Some (va_fs_id a)) \<and>
    (flags_contain wanted AM_BLOCKS \<longrightarrow> attrs_blocks at' = Some (va_blocks a)) \<and>
    (flags_contain wanted AM_UID \<longrightarrow> attrs_uid at' = Some (va_uid a)) \<and>
    (flags_contain wanted AM_GID \<longrightarrow> attrs_gid at' = Some (va_gid a)) \<and>
    (flags_contain wanted AM_RDEV \<longrightarrow> attrs_device_id at' = Some (va_rdev a)) \<and>
    (flags_contain wanted AM_CHANGE \<longrightarrow> attrs_change_id at' = Some (va_change a)) \<and>
    (flags_contain wanted AM_NAMED_ATTR \<longrightarrow> at_has_named_attributes at' = Some (va_has_named_attr a)) \<and>
    (flags_contain wanted (AM_FILEID OR AM_FS_ID) \<longrightarrow>
       attrs_fs_obj_id at' = Some \<lparr> foi_fs_id = va_fs_id a, foi_file_id = va_fileid a \<rparr>) \<and>
    (flags_contain wanted AM_MTIME \<longrightarrow> (\<exists>t. at_modified at' = Some t \<and> system_time (va_mtime_sec a) (va_mtime_nsec a) = Some t)) \<and>
    (flags_contain wanted AM_ATIME \<longrightarrow> (\<exists>t. at_accessed at' = Some t \<and> system_time (va_atime_sec a) (va_atime_nsec a) = Some t)) \<and>
    (flags_contain wanted AM_CTIME \<longrightarrow> (\<exists>t. at_changed at' = Some t \<and> system_time (va_ctime_sec a) (va_ctime_nsec a) = Some t))"
proof -
  let ?at = "metadata_from_attrs a"
  have c: "flags_contain (va_returned a) wanted" and id: "at' = ?at"
    and t: "flags_contain wanted AM_MTIME \<Longrightarrow> at_modified ?at \<noteq> None"
      "flags_contain wanted AM_ATIME \<Longrightarrow> at_accessed ?at \<noteq> None"
      "flags_contain wanted AM_CTIME \<Longrightarrow> at_changed ?at \<noteq> None"
    using assms by (auto simp: attrs_require_def attrs_contains_iff metadata_returned Let_def split: if_splits)
  have up: "flags_contain (va_returned a) m" if "flags_contain wanted m" for m
    using flags_contain_trans [OF c that] .
  have zero: "returned_or_zero (va_returned a) m v = v" if "flags_contain wanted m" for m and v :: "'v::zero"
    using up [OF that] by (simp add: returned_or_zero_def)
  have some: "attrs_then_some ?at m v = Some v" if "flags_contain wanted m" for m and v :: 'v
    using up [OF that] by (simp add: attrs_then_some_def metadata_returned)
  have fields: "at_len ?at = returned_or_zero (va_returned a) AM_SIZE (va_size a)"
    "at_mode ?at = returned_or_zero (va_returned a) AM_MODE (va_mode a)"
    "at_permissions ?at = permissions_from_mode (returned_or_zero (va_returned a) AM_MODE (va_mode a))"
    "at_blocks ?at = returned_or_zero (va_returned a) AM_BLOCKS (va_blocks a)"
    "at_device_id ?at = returned_or_zero (va_returned a) AM_RDEV (va_rdev a)"
    "at_nlink ?at = returned_or_zero (va_returned a) AM_NLINK (va_nlink a)"
    "at_fs_id ?at = returned_or_zero (va_returned a) AM_FS_ID (va_fs_id a)"
    "at_file_id ?at = returned_or_zero (va_returned a) AM_FILEID (va_fileid a)"
    "at_change_id ?at = returned_or_zero (va_returned a) AM_CHANGE (va_change a)"
    "at_uid ?at = returned_or_zero (va_returned a) AM_UID (va_uid a)"
    "at_gid ?at = returned_or_zero (va_returned a) AM_GID (va_gid a)"
    "at_has_named_attributes ?at = (if flags_contain (va_returned a) AM_NAMED_ATTR then Some (va_has_named_attr a) else None)"
    "at_modified ?at = returned_time (va_returned a) AM_MTIME (va_mtime_sec a) (va_mtime_nsec a)"
    "at_accessed ?at = returned_time (va_returned a) AM_ATIME (va_atime_sec a) (va_atime_nsec a)"
    "at_changed ?at = returned_time (va_returned a) AM_CTIME (va_ctime_sec a) (va_ctime_nsec a)"
    by (simp_all add: metadata_from_attrs_def Let_def)
  show ?thesis unfolding id
    using t by (auto simp: some zero up fields flags_contain_or attrs_len_def attrs_mode_def attrs_permissions_def
        attrs_nlink_def attrs_uid_def attrs_gid_def attrs_blocks_def attrs_device_id_def attrs_change_id_def
        attrs_fs_obj_id_def attrs_fs_id_def attrs_file_id_def returned_time_def split: if_splits)
qed

theorem attrs_require_present_witness:
  "attrs_blocks (metadata_from_attrs (vf_attrs_default \<lparr> va_returned := AM_BLOCKS, va_blocks := 7 \<rparr>)) = Some 7"
proof -
  let ?a = "vf_attrs_default \<lparr> va_returned := AM_BLOCKS, va_blocks := 7 \<rparr>"
  have "attrs_require (metadata_from_attrs ?a) AM_BLOCKS = Inr (metadata_from_attrs ?a)"
    by (simp add: attrs_require_def metadata_from_attrs_def attrs_contains_iff flags_contain_def attr_mask_defs Let_def)
  from attrs_require_present [OF this] show ?thesis by (simp add: flags_contain_def)
qed

text \<open>Statistics built from the empty value by any
  sequence of setters compare equal iff all fifteen optional values agree,
  whatever the history of updates: unknown values leave nothing behind.\<close>

lemma filesystem_stats_equality:
  assumes "stats_built s" "stats_built t"
  shows "s = t \<longleftrightarrow> stats_values s = stats_values t"
  using stats_wf_eq [OF stats_built_wf stats_built_wf] assms by blast

text \<open>Each of the fifteen setters changes exactly the value
  of its own field, to a known value or to unknown, and leaves the others alone.\<close>

lemma filesystem_stats_setters:
  "stats_values (with_total_bytes s v) = (stats_values s)[0 := v] \<and>
   stats_values (with_free_bytes s v) = (stats_values s)[1 := v] \<and>
   stats_values (with_available_bytes s v) = (stats_values s)[2 := v] \<and>
   stats_values (with_total_files s v) = (stats_values s)[3 := v] \<and>
   stats_values (with_free_files s v) = (stats_values s)[4 := v] \<and>
   stats_values (with_available_files s v) = (stats_values s)[5 := v] \<and>
   stats_values (with_block_size s v) = (stats_values s)[6 := v] \<and>
   stats_values (with_fragment_size s v) = (stats_values s)[7 := v] \<and>
   stats_values (with_max_name_len s v) = (stats_values s)[8 := v] \<and>
   stats_values (with_max_path_len s v) = (stats_values s)[9 := v] \<and>
   stats_values (with_max_links s v) = (stats_values s)[10 := v] \<and>
   stats_values (with_max_file_size s v) = (stats_values s)[11 := v] \<and>
   stats_values (with_file_size_bits s v) = (stats_values s)[12 := v] \<and>
   stats_values (with_read_only s b) = (stats_values s)[13 := bool_nat b] \<and>
   stats_values (with_no_set_id s b) = (stats_values s)[14 := bool_nat b]"
  by (simp add: stats_values_set)

text \<open>A validated update names no reserved owner or group and
  yields exactly the requested timestamps in seconds and normalised nanoseconds.\<close>

lemma validate_setattrs_sound:
  assumes "validate_setattrs op = Inr (accessed, modified)"
  shows "requested_uid op \<noteq> Some u32_max \<and> requested_gid op \<noteq> Some u32_max \<and>
    map_option (\<lambda>(s, n). s * NANOS + int n) accessed = sa_accessed op \<and>
    map_option (\<lambda>(s, n). s * NANOS + int n) modified = sa_modified op"
  using assms
  by (auto simp: validate_setattrs_def dest!: transpose_parts_value split: if_splits sum.splits)

end
