(* ===== verification/Vfs_Internal.thy ===== *)
theory Vfs_Internal
  imports Vfs_Attrs
begin

text \<open>
  The contracts the backends share: \<^verbatim>\<open>crates/vfsi-core/src/internal.rs\<close> and
  \<^verbatim>\<open>crates/vfsi-core/src/internal/adb.rs\<close>.

  \<^item> validation of a batch of open requests before any I/O;
  \<^item> \<^verbatim>\<open>ManyResults\<close>, the ordered partial results of a backend, and the two strict
    collection policies.  The cleanup callback of the second one is an effect on
    a state of any type;
  \<^item> \<^verbatim>\<open>FaultScript\<close>, the ordered one-shot fault script of the contract tests;
  \<^item> \<^verbatim>\<open>adb_layout\<close>, the overflow-checked plan of a data-block pattern.
\<close>

section \<open>Decimal rendering\<close>

text \<open>\<^verbatim>\<open>format!("{n}")\<close>\<close>

fun decimal :: "nat \<Rightarrow> string" where
  "decimal n =
     (if n < 10 then [char_of (48 + n)]
      else decimal (n div 10) @ [char_of (48 + n mod 10)])"

declare decimal.simps [simp del]

section \<open>Open requests\<close>

fun validate_open_from :: "nat \<Rightarrow> OpenOp list \<Rightarrow> VfError + unit" where
  "validate_open_from i [] = Inr ()"
| "validate_open_from i (request # requests) =
     (case open_flags_to_libc (oo_flags request) of
        Inl error \<Rightarrow> Inl (vf_with_context (vf_with_index error i) ''vopen'' (oo_path request))
      | Inr _ \<Rightarrow> validate_open_from (i + 1) requests)"

definition validate_open_requests :: "OpenOp list \<Rightarrow> VfError + unit" where
  "validate_open_requests requests = validate_open_from 0 requests"

section \<open>Ordered partial results\<close>

record 'a ManyResults =
  mr_requested :: nat
  mr_results :: "(VfError + 'a) list"

definition many_new :: "nat \<Rightarrow> (VfError + 'a) list \<Rightarrow> 'a ManyResults" where
  "many_new requested results = \<lparr> mr_requested = requested, mr_results = results \<rparr>"

definition many_all_success :: "'a list \<Rightarrow> 'a ManyResults" where
  "many_all_success values = many_new (length values) (map Inr values)"

definition many_is_complete :: "'a ManyResults \<Rightarrow> bool" where
  "many_is_complete m \<longleftrightarrow> length (mr_results m) = mr_requested m"

definition declared_count_error :: "nat \<Rightarrow> nat \<Rightarrow> VfError" where
  "declared_count_error declared expected =
     vf_invalid_reply None
       (''backend declared '' @ decimal declared @ '' requests for '' @ decimal expected @ '' inputs'')"

definition result_count_error :: "nat \<Rightarrow> nat \<Rightarrow> VfError" where
  "result_count_error reported requested =
     vf_invalid_reply None
       (''backend reported '' @ decimal reported @ '' results for '' @ decimal requested @ '' requests'')"

fun collect_values :: "nat \<Rightarrow> (VfError + 'a) list \<Rightarrow> 'a list \<Rightarrow> VfError + 'a list" where
  "collect_values i [] values = Inr values"
| "collect_values i (Inr v # results) values = collect_values (i + 1) results (values @ [v])"
| "collect_values i (Inl e # results) values = Inl (vf_with_index e i)"

definition try_collect :: "'a ManyResults \<Rightarrow> VfError + 'a list" where
  "try_collect m =
     (let requested = mr_requested m; reported = length (mr_results m)
      in if requested < reported then Inl (result_count_error reported requested)
         else case collect_values 0 (mr_results m) [] of
                Inl e \<Rightarrow> Inl e
              | Inr values \<Rightarrow>
                  (if length values \<noteq> requested
                   then Inl (result_count_error (length values) requested)
                   else Inr values))"

text \<open>The scan of \<^verbatim>\<open>try_collect_with_cleanup\<close>: successful values with their
  positions, and the first error.\<close>

fun collect_partial ::
  "nat \<Rightarrow> (VfError + 'a) list \<Rightarrow> (nat \<times> 'a) list \<Rightarrow> VfError option
     \<Rightarrow> (nat \<times> 'a) list \<times> VfError option" where
  "collect_partial i [] values first_error = (values, first_error)"
| "collect_partial i (Inr v # results) values first_error =
     collect_partial (i + 1) results (values @ [(i, v)]) first_error"
| "collect_partial i (Inl e # results) values first_error =
     collect_partial (i + 1) results values
       (if first_error = None then Some (vf_with_index e i) else first_error)"

text \<open>\<^verbatim>\<open>Option::or\<close> on the four candidates for the primary error.\<close>

definition option_or :: "'a option \<Rightarrow> 'a option \<Rightarrow> 'a option" where
  "option_or a b = (case a of None \<Rightarrow> b | Some _ \<Rightarrow> a)"

definition cleanup_primary :: "nat \<Rightarrow> nat \<Rightarrow> nat \<Rightarrow> VfError option \<Rightarrow> VfError option" where
  "cleanup_primary declared reported expected first_error =
     option_or (if declared \<noteq> expected then Some (declared_count_error declared expected) else None)
       (option_or (if expected < reported then Some (result_count_error reported expected) else None)
         (option_or first_error
           (if reported \<noteq> expected then Some (result_count_error reported expected) else None)))"

definition try_collect_with_cleanup ::
  "'a ManyResults \<Rightarrow> nat \<Rightarrow> (nat \<Rightarrow> 'a \<Rightarrow> 's \<Rightarrow> 's \<times> (VfError + unit)) \<Rightarrow> 's
     \<Rightarrow> 's \<times> (VfError + 'a list)" where
  "try_collect_with_cleanup m expected cleanup s =
     (let declared = mr_requested m; reported = length (mr_results m);
          (values, first_error) = collect_partial 0 (mr_results m) [] None
      in case cleanup_primary declared reported expected first_error of
           Some error \<Rightarrow> (foldl (\<lambda>s (i, v). fst (cleanup i v s)) s values, Inl error)
         | None \<Rightarrow> (s, Inr (map snd values)))"

section \<open>Fault scripts\<close>

datatype OpenFaultPoint =
    BeforeDispatch nat
  | AfterReply nat
  | BeforeRegister nat
  | AfterRegister nat
  | BeforeCleanup nat
  | BeforeCloseDispatch nat
  | AfterWriteChunk nat
  | BeforeReadRepair nat
  | BeforeDirectoryPage bool
  | BeforeSizeQuery
  | BeforeFollowSymlink nat
  | BeforeSetPermissions nat
  | AfterNoFollowSetattrTypeCheck nat
  | BeforeRemoveType nat
  | BeforeRemoveChunk bytes
  | BeforeRemovePage nat
  | BeforeOpenChunk nat
  | BeforeCloseItem nat
  | BeforePathClose
  | BeforePathCloseBatch

record FaultScript =
  fault_remaining :: "(OpenFaultPoint \<times> VfError) list"
  fault_visited :: "OpenFaultPoint list"

definition fault_script_new :: "(OpenFaultPoint \<times> VfError) list \<Rightarrow> FaultScript" where
  "fault_script_new script = \<lparr> fault_remaining = script, fault_visited = [] \<rparr>"

definition fault_is_consumed :: "FaultScript \<Rightarrow> bool" where
  "fault_is_consumed f \<longleftrightarrow> fault_remaining f = []"

definition fault_check :: "FaultScript \<Rightarrow> OpenFaultPoint \<Rightarrow> FaultScript \<times> (VfError + unit)" where
  "fault_check f point =
     (let f = f \<lparr> fault_visited := fault_visited f @ [point] \<rparr>
      in case fault_remaining f of
           (expected, error) # rest \<Rightarrow>
             (if expected = point then (f \<lparr> fault_remaining := rest \<rparr>, Inl error) else (f, Inr ()))
         | [] \<Rightarrow> (f, Inr ()))"

section \<open>Data-block layout\<close>

type_synonym adb_block = "nat \<times> nat option \<times> nat option"

definition adb_field :: "nat \<Rightarrow> nat option \<Rightarrow> nat \<Rightarrow> bool" where
  "adb_field base relative len =
     (case relative of
        None \<Rightarrow> True
      | Some r \<Rightarrow>
          (case checked_add base r of
             None \<Rightarrow> False
           | Some offset \<Rightarrow> checked_add offset len \<noteq> None))"

definition adb_checked :: "Adb \<Rightarrow> bool" where
  "adb_checked p =
     (length (adb_pattern_data p) \<le> u64_max \<and>
      (case checked_sub (adb_block_count p) 1 of
         None \<Rightarrow> True
       | Some lst \<Rightarrow>
           lst \<le> u64_max \<and>
           (case Option.bind (checked_mul lst (adb_block_size p)) (checked_add (adb_offset p)) of
              None \<Rightarrow> False
            | Some base \<Rightarrow>
                checked_add (adb_block_num p) lst \<noteq> None \<and>
                adb_field base (adb_reloff_blocknum p) 8 \<and>
                adb_field base (adb_reloff_pattern p) (length (adb_pattern_data p)))))"

text \<open>The arithmetic of the iterator wraps in 64 bits.\<close>

definition wrap64 :: "nat \<Rightarrow> nat" where
  "wrap64 n = n mod 2 ^ 64"

definition adb_block_at :: "Adb \<Rightarrow> nat \<Rightarrow> adb_block" where
  "adb_block_at p block =
     (let base = wrap64 (adb_offset p + wrap64 (block * adb_block_size p))
      in (wrap64 (adb_block_num p + block),
          map_option (\<lambda>r. wrap64 (base + r)) (adb_reloff_blocknum p),
          map_option (\<lambda>r. wrap64 (base + r)) (adb_reloff_pattern p)))"

definition adb_layout :: "Adb \<Rightarrow> nat \<Rightarrow> VfError + adb_block list" where
  "adb_layout p i =
     (if adb_checked p then Inr (map (adb_block_at p) [0..<adb_block_count p])
      else Inl (vf_errno (Some i) EOVERFLOW))"

section \<open>Collection\<close>

lemma collect_values_Inr:
  "collect_values i rs acc = Inr vs \<Longrightarrow> vs = acc @ map projr rs \<and> (\<forall>r \<in> set rs. \<not> isl r)"
proof (induction rs arbitrary: i acc)
  case (Cons r rs)
  then show ?case by (cases r) fastforce+
qed simp

lemma collect_values_Inl:
  "collect_values i rs acc = Inl e \<Longrightarrow>
     \<exists>k e0. k < length rs \<and> rs ! k = Inl e0 \<and> (\<forall>j < k. \<not> isl (rs ! j)) \<and> e = vf_with_index e0 (i + k)"
proof (induction rs arbitrary: i acc)
  case (Cons r rs)
  show ?case
  proof (cases r)
    case (Inl e0)
    with Cons.prems have "e = vf_with_index e0 (i + 0)" by simp
    with Inl show ?thesis by (metis length_greater_0_conv list.distinct(1) not_less_zero nth_Cons_0)
  next
    case (Inr v)
    with Cons.prems have "collect_values (Suc i) rs (acc @ [v]) = Inl e" by simp
    from Cons.IH [OF this] obtain k e0 where k: "k < length rs" "rs ! k = Inl e0"
      "\<forall>j < k. \<not> isl (rs ! j)" "e = vf_with_index e0 (Suc i + k)" by blast
    have "\<not> isl ((r # rs) ! j)" if "j < Suc k" for j
      using that k(3) Inr by (cases j) simp_all
    then have "Suc k < length (r # rs) \<and> (r # rs) ! Suc k = Inl e0 \<and>
        (\<forall>j < Suc k. \<not> isl ((r # rs) ! j)) \<and> e = vf_with_index e0 (i + Suc k)"
      using k(1,2,4) by simp
    then show ?thesis by blast
  qed
qed simp

lemma map_Inr_projr: "\<forall>r \<in> set rs. \<not> isl r \<Longrightarrow> map Inr (map projr rs) = rs"
  by (induction rs) (auto simp: isl_def split: sum.splits)

definition successes :: "nat \<Rightarrow> (VfError + 'a) list \<Rightarrow> (nat \<times> 'a) list" where
  "successes i rs = concat (map (\<lambda>(k, r). case r of Inr v \<Rightarrow> [(k, v)] | Inl _ \<Rightarrow> []) (enumerate i rs))"

lemma successes_simps [simp]:
  "successes i [] = []"
  "successes i (Inr v # rs) = (i, v) # successes (Suc i) rs"
  "successes i (Inl e # rs) = successes (Suc i) rs"
  by (simp_all add: successes_def)

lemma collect_partial_values [simp]:
  "fst (collect_partial i rs acc fe) = acc @ successes i rs"
  by (induction i rs acc fe rule: collect_partial.induct) simp_all

lemma collect_partial_step:
  "collect_partial i (r # rs) acc fe =
     (case r of
        Inr v \<Rightarrow> collect_partial (i + 1) rs (acc @ [(i, v)]) fe
      | Inl e \<Rightarrow> collect_partial (i + 1) rs acc (if fe = None then Some (vf_with_index e i) else fe))"
  by (cases r) simp_all

lemma collect_values_step:
  "collect_values i (r # rs) acc =
     (case r of Inr v \<Rightarrow> collect_values (i + 1) rs (acc @ [v]) | Inl e \<Rightarrow> Inl (vf_with_index e i))"
  by (cases r) simp_all

lemma collect_partial_keeps:
  "snd (collect_partial i rs acc (Some e)) = Some e"
  by (induction rs arbitrary: i acc) (auto split: sum.splits elim: sum.exhaust simp: collect_partial_step)

lemma collect_partial_error:
  "snd (collect_partial i rs acc None) =
     (case collect_values i rs acc' of Inl e \<Rightarrow> Some e | Inr _ \<Rightarrow> None)"
proof (induction rs arbitrary: i acc acc')
  case (Cons r rs)
  show ?case
  proof (cases r)
    case (Inr v)
    then show ?thesis using Cons [of "Suc i" "acc @ [(i, v)]" "acc' @ [v]"] by simp
  qed (simp add: collect_partial_keeps)
qed simp

lemma successes_all: "successes i (map Inr vs) = enumerate i vs"
  by (induction vs arbitrary: i) simp_all

lemma cleanup_primary_None_iff:
  "cleanup_primary declared reported expected fe = None \<longleftrightarrow>
     declared = expected \<and> reported = expected \<and> fe = None"
  by (auto simp: cleanup_primary_def option_or_def split: option.splits if_splits)

section \<open>Fault scripts\<close>

definition fault_visit :: "FaultScript \<Rightarrow> OpenFaultPoint list \<Rightarrow> FaultScript" where
  "fault_visit f points = foldl (\<lambda>f p. fst (fault_check f p)) f points"

lemma fault_visit_simps [simp]:
  "fault_visit f [] = f"
  "fault_visit f (p # ps) = fault_visit (fst (fault_check f p)) ps"
  by (simp_all add: fault_visit_def)

lemma fault_check_visited [simp]:
  "fault_visited (fst (fault_check f p)) = fault_visited f @ [p]"
  by (auto simp: fault_check_def Let_def split: list.split)

lemma fault_visit_visited: "fault_visited (fault_visit f ps) = fault_visited f @ ps"
  by (induction ps arbitrary: f) auto

lemma fault_check_remaining:
  "fault_remaining (fst (fault_check f p)) =
     (case fault_remaining f of
        [] \<Rightarrow> []
      | (q, e) # rest \<Rightarrow> if q = p then rest else (q, e) # rest)"
  by (auto simp: fault_check_def Let_def split: list.split)

lemma fault_visit_consumed:
  "fault_remaining (fault_visit f ps) = [] \<longleftrightarrow> subseq (map fst (fault_remaining f)) ps"
proof (induction ps arbitrary: f)
  case Nil
  then show ?case by (cases "fault_remaining f") auto
next
  case (Cons p ps)
  show ?case
  proof (cases "fault_remaining f")
    case Nil
    then show ?thesis using Cons [of "fst (fault_check f p)"] by (simp add: fault_check_remaining)
  next
    case (Cons qe rest)
    then show ?thesis
      using Cons.IH [of "fst (fault_check f p)"] by (cases qe) (auto simp: fault_check_remaining)
  qed
qed

section \<open>Data-block layout\<close>

text \<open>The wide-integer reference: every block and every field end fits 64 bits.\<close>

definition adb_fits :: "Adb \<Rightarrow> nat \<Rightarrow> bool" where
  "adb_fits p b \<longleftrightarrow>
     (let base = adb_offset p + b * adb_block_size p
      in base \<le> u64_max \<and> adb_block_num p + b \<le> u64_max \<and>
         (\<forall>r. adb_reloff_blocknum p = Some r \<longrightarrow> base + r + 8 \<le> u64_max) \<and>
         (\<forall>r. adb_reloff_pattern p = Some r \<longrightarrow> base + r + length (adb_pattern_data p) \<le> u64_max))"

definition adb_reference :: "Adb \<Rightarrow> adb_block list" where
  "adb_reference p =
     map (\<lambda>b. let base = adb_offset p + b * adb_block_size p
              in (adb_block_num p + b, map_option (\<lambda>r. base + r) (adb_reloff_blocknum p),
                  map_option (\<lambda>r. base + r) (adb_reloff_pattern p)))
       [0..<adb_block_count p]"

lemma adb_field_iff:
  "adb_field base relative len \<longleftrightarrow> (\<forall>r. relative = Some r \<longrightarrow> base + r + len \<le> u64_max)"
  by (auto simp: adb_field_def split: option.split)

lemma adb_fits_mono:
  assumes "adb_fits p c" "b \<le> c"
  shows "adb_fits p b"
proof -
  have "b * adb_block_size p \<le> c * adb_block_size p" using assms(2) by simp
  moreover have "adb_offset p + c * adb_block_size p + r + k \<le> u64_max \<Longrightarrow>
      adb_offset p + b * adb_block_size p + r + k \<le> u64_max" for r k
    using calculation by linarith
  moreover have "adb_offset p + c * adb_block_size p \<le> u64_max \<Longrightarrow>
      adb_offset p + b * adb_block_size p \<le> u64_max"
    using calculation(1) by linarith
  ultimately show ?thesis using assms unfolding adb_fits_def Let_def by auto
qed

lemma adb_checked_iff:
  assumes "length (adb_pattern_data p) \<le> u64_max" "adb_block_count p \<le> usize_max"
  shows "adb_checked p \<longleftrightarrow> (\<forall>b < adb_block_count p. adb_fits p b)"
proof (cases "adb_block_count p")
  case 0
  then show ?thesis using assms by (simp add: adb_checked_def checked_sub_def)
next
  case (Suc lst)
  have "(\<forall>b < adb_block_count p. adb_fits p b) \<longleftrightarrow> adb_fits p lst"
    using Suc adb_fits_mono [of p lst] by (auto simp: less_Suc_eq_le)
  moreover have "adb_checked p \<longleftrightarrow> adb_fits p lst"
    using Suc assms
    by (auto simp: adb_checked_def checked_sub_def checked_mul_def checked_add_def adb_fits_def
        adb_field_iff Let_def)
  ultimately show ?thesis by simp
qed

lemma wrap64_id [simp]: "n \<le> u64_max \<Longrightarrow> wrap64 n = n"
  by (simp add: wrap64_def u64_max_def)

lemma adb_block_at_fits:
  assumes "adb_fits p b"
  shows "adb_block_at p b =
    (let base = adb_offset p + b * adb_block_size p
     in (adb_block_num p + b, map_option (\<lambda>r. base + r) (adb_reloff_blocknum p),
         map_option (\<lambda>r. base + r) (adb_reloff_pattern p)))"
  using assms
  by (auto simp: adb_block_at_def adb_fits_def Let_def intro!: option.map_cong0)

section \<open>Open requests\<close>

lemma validate_open_from_Inr:
  "validate_open_from i rs = Inr () \<longleftrightarrow> (\<forall>r \<in> set rs. \<not> isl (open_flags_to_libc (oo_flags r)))"
  by (induction i rs rule: validate_open_from.induct) (auto split: sum.splits)

lemma validate_open_from_Inl:
  "validate_open_from i rs = Inl e \<Longrightarrow>
     \<exists>k < length rs. isl (open_flags_to_libc (oo_flags (rs ! k))) \<and>
       (\<forall>j < k. \<not> isl (open_flags_to_libc (oo_flags (rs ! j)))) \<and>
       ve_index e = Some (i + k) \<and> vf_path e = Some (oo_path (rs ! k))"
proof (induction rs arbitrary: i)
  case (Cons r rs)
  show ?case
  proof (cases "open_flags_to_libc (oo_flags r)")
    case (Inl e0)
    with Cons.prems show ?thesis
      by (intro exI [of _ 0]) (auto simp: vf_error_defs vf_path_def)
  next
    case (Inr raw)
    with Cons.prems have "validate_open_from (Suc i) rs = Inl e" by simp
    from Cons.IH [OF this] obtain k where k: "k < length rs"
      "isl (open_flags_to_libc (oo_flags (rs ! k)))"
      "\<forall>j < k. \<not> isl (open_flags_to_libc (oo_flags (rs ! j)))"
      "ve_index e = Some (Suc i + k)" "vf_path e = Some (oo_path (rs ! k))" by blast
    have "\<not> isl (open_flags_to_libc (oo_flags ((r # rs) ! j)))" if "j < Suc k" for j
      using that k(3) Inr by (cases j) simp_all
    with k show ?thesis by (intro exI [of _ "Suc k"]) simp
  qed
qed simp

section \<open>Properties\<close>

text \<open>C32 (batch validation).  A batch of open requests passes iff every request's
  flags translate; otherwise the error names the first offending request and its
  path, before any request is executed.\<close>

theorem validate_open_requests_correct:
  "case validate_open_requests rs of
     Inr _ \<Rightarrow> list_all (\<lambda>r. \<not> isl (open_flags_to_libc (oo_flags r))) rs
   | Inl e \<Rightarrow> \<exists>k. k < length rs \<and> isl (open_flags_to_libc (oo_flags (rs ! k))) \<and>
       list_all (\<lambda>r. \<not> isl (open_flags_to_libc (oo_flags r))) (take k rs) \<and>
       ve_index e = Some k \<and> vf_path e = Some (oo_path (rs ! k))"
proof (cases "validate_open_requests rs")
  case (Inr u)
  then show ?thesis
    using validate_open_from_Inr [of 0 rs] by (simp add: validate_open_requests_def list_all_iff)
next
  case (Inl e)
  then obtain k where "k < length rs" "isl (open_flags_to_libc (oo_flags (rs ! k)))"
      "\<forall>j < k. \<not> isl (open_flags_to_libc (oo_flags (rs ! j)))"
      "ve_index e = Some k" "vf_path e = Some (oo_path (rs ! k))"
    using validate_open_from_Inl [of 0 rs e] by (auto simp: validate_open_requests_def)
  then show ?thesis
    unfolding Inl sum.case by (intro exI [of _ k]) (auto simp: list_all_length)
qed

text \<open>C33 (strict collection).  Too many results are a contract error without an index, whatever
  they contain.  Otherwise, if a request failed, also in a batch that is too short,
  the error is that of the first failed request with its position as the index.
  Without a failed request a short batch is a contract error, and a complete one
  gives all the values in order.\<close>

theorem try_collect_correct:
  "if mr_requested m < length (mr_results m) \<or>
      \<not> list_ex isl (mr_results m) \<and> length (mr_results m) < mr_requested m
   then \<exists>e. try_collect m = Inl e \<and> ve_index e = None \<and> vf_kind e = K_InvalidData
   else if list_ex isl (mr_results m)
   then \<exists>k e. k < length (mr_results m) \<and> mr_results m ! k = Inl e \<and>
          \<not> list_ex isl (take k (mr_results m)) \<and> try_collect m = Inl (vf_with_index e k)
   else \<exists>vs. try_collect m = Inr vs \<and> mr_results m = map Inr vs"
proof (cases "mr_requested m < length (mr_results m)")
  case True
  then show ?thesis by (simp add: try_collect_def result_count_error_def vf_invalid_reply_def vf_kind_def)
next
  case few: False
  show ?thesis
  proof (cases "collect_values 0 (mr_results m) []")
    case (Inl e)
    from collect_values_Inl [OF Inl] obtain k e0 where k: "k < length (mr_results m)"
      "mr_results m ! k = Inl e0" "\<forall>j < k. \<not> isl (mr_results m ! j)" "e = vf_with_index e0 k" by auto
    have "list_ex isl (mr_results m)" using k(1,2) by (auto simp: list_ex_length)
    moreover have "\<not> list_ex isl (take k (mr_results m))" using k(3) by (auto simp: list_ex_length)
    moreover have "try_collect m = Inl (vf_with_index e0 k)" using few Inl k(4) by (simp add: try_collect_def Let_def)
    ultimately show ?thesis using few k(1,2) by auto
  next
    case (Inr vs)
    have rs: "mr_results m = map Inr vs" using collect_values_Inr [OF Inr] map_Inr_projr by fastforce
    then have "\<not> list_ex isl (mr_results m)" "length vs = length (mr_results m)" by (simp_all add: list_ex_length)
    then show ?thesis using few Inr rs
      by (auto simp: try_collect_def Let_def result_count_error_def vf_invalid_reply_def vf_kind_def)
  qed
qed

theorem try_collect_correct_witness:
  "\<exists>e. try_collect (many_new 3 [Inr (7::nat), Inl (vf_errno None EIO), Inr 9]) = Inl e \<and> ve_index e = Some 1"
  using try_collect_correct [of "many_new 3 [Inr (7::nat), Inl (vf_errno None EIO), Inr 9]"]
  by (simp add: try_collect_def many_new_def)

text \<open>C14 (no leaked results).  \<^verbatim>\<open>try_collect_with_cleanup\<close> succeeds, without running the
  cleanup, exactly when the backend declared and reported the expected number of
  requests and all succeeded; in every other case it runs the cleanup once for
  every successful value, in order and with its position, and returns an error,
  whatever the cleanup itself answers.\<close>

theorem try_collect_with_cleanup_correct:
  "case try_collect_with_cleanup m expected cleanup s of
     (s', Inr vs) \<Rightarrow> s' = s \<and> mr_results m = map Inr vs \<and>
       length vs = expected \<and> mr_requested m = expected
   | (s', Inl e) \<Rightarrow>
       s' = foldl (\<lambda>s (i, v). fst (cleanup i v s)) s (successes 0 (mr_results m)) \<and>
       (mr_requested m \<noteq> expected \<or> length (mr_results m) \<noteq> expected \<or> list_ex isl (mr_results m))"
proof -
  let ?rs = "mr_results m" and ?p = "collect_partial 0 (mr_results m) [] None"
  have err: "snd ?p = (case collect_values 0 ?rs [] of Inl e \<Rightarrow> Some e | Inr _ \<Rightarrow> None)"
    by (rule collect_partial_error)
  obtain vs fe where p: "?p = (vs, fe)" by fastforce
  have vs: "vs = successes 0 ?rs" using collect_partial_values [of 0 ?rs "[]" None] p by simp
  show ?thesis
  proof (cases "mr_requested m = expected \<and> length ?rs = expected \<and> fe = None")
    case True
    then obtain ws where "collect_values 0 ?rs [] = Inr ws"
      using err p by (auto split: sum.splits)
    from collect_values_Inr [OF this] have rs: "?rs = map Inr (map projr ?rs)"
      using map_Inr_projr [of ?rs] by simp
    then have "vs = enumerate 0 (map projr ?rs)" using vs successes_all by metis
    then have "map snd vs = map projr ?rs" by simp
    moreover have "try_collect_with_cleanup m expected cleanup s = (s, Inr (map snd vs))"
      using True p
      by (simp add: try_collect_with_cleanup_def
          cleanup_primary_None_iff [THEN iffD2])
    ultimately show ?thesis using True rs by simp
  next
    case False
    moreover have "list_ex isl ?rs" if "fe \<noteq> None"
    proof -
      from that err p obtain e where "collect_values 0 ?rs [] = Inl e" by (auto split: sum.splits)
      from collect_values_Inl [OF this] show ?thesis by (auto simp: list_ex_length)
    qed
    moreover obtain e where "cleanup_primary (mr_requested m) (length ?rs) expected fe = Some e"
      using False cleanup_primary_None_iff by blast
    then have "try_collect_with_cleanup m expected cleanup s =
        (foldl (\<lambda>s (i, v). fst (cleanup i v s)) s vs, Inl e)"
      using p by (simp add: try_collect_with_cleanup_def)
    ultimately show ?thesis using vs by auto
  qed
qed

theorem try_collect_with_cleanup_correct_witness:
  "fst (try_collect_with_cleanup (many_new 3 [Inr (7::nat), Inl (vf_errno None EIO), Inr 9]) 3
     (\<lambda>i v log. (log @ [(i, v)], Inr ())) []) = [(0, 7), (2, 9)]"
  using try_collect_with_cleanup_correct [where expected = 3 and s = "[]"
      and m = "many_new 3 [Inr (7::nat), Inl (vf_errno None EIO), Inr 9]"
      and cleanup = "\<lambda>i v log. (log @ [(i, v)], Inr ())"]
  by (auto simp: many_new_def numeral_2_eq_2 Cons_eq_map_conv split: prod.splits sum.splits)

text \<open>C34 (data-block layout).  For any pattern that exists in memory, the layout check
  of the last block accepts iff every block number, every block offset and every
  field end of every block fits 64 bits, and then the planned blocks are those of
  exact integer arithmetic; otherwise the pattern is rejected with EOVERFLOW and
  its own index.\<close>

theorem adb_layout_correct:
  assumes "length (adb_pattern_data p) \<le> u64_max" "adb_block_count p \<le> usize_max"
  shows "adb_layout p i =
    (if \<forall>b < adb_block_count p. adb_fits p b then Inr (adb_reference p)
     else Inl (vf_errno (Some i) EOVERFLOW))"
proof (cases "\<forall>b < adb_block_count p. adb_fits p b")
  case True
  then have "map (adb_block_at p) [0..<adb_block_count p] = adb_reference p"
    by (simp add: adb_reference_def adb_block_at_fits)
  with True show ?thesis using adb_checked_iff [OF assms] by (simp add: adb_layout_def)
next
  case False
  then have "\<not> adb_checked p" using adb_checked_iff [OF assms] by blast
  with False show ?thesis unfolding adb_layout_def by argo
qed

theorem adb_layout_correct_witness:
  "adb_layout (adb_blocknum_only ''f'' 10 100 2 4 7) 0 = Inr [(7, Some 14, None), (8, Some 114, None)]"
proof -
  let ?p = "adb_blocknum_only ''f'' 10 100 2 4 7"
  have "\<forall>b < adb_block_count ?p. adb_fits ?p b"
    by (auto simp: adb_blocknum_only_def adb_fits_def u64_max_def less_2_cases_iff)
  then show ?thesis
    using adb_layout_correct [of ?p 0]
    by (simp add: adb_blocknum_only_def u64_max_def adb_reference_def upt_rec)
qed

text \<open>After a run that reached the given points, a fault script
  is consumed iff its points occur among them in order, and every visited point
  is recorded.\<close>

lemma fault_script_consumed_iff:
  "fault_is_consumed (fault_visit (fault_script_new script) points) \<longleftrightarrow>
     subseq (map fst script) points"
  using fault_visit_consumed [of "fault_script_new script" points]
  by (simp add: fault_is_consumed_def fault_script_new_def)

end
