(* ===== verification/Nfs_Compound.thy ===== *)
theory Nfs_Compound
  imports Nfs_Planner Vfs_Internal
begin

text \<open>
  COMPOUND requests and replies: \<^verbatim>\<open>crates/vfsi-nfs/src/compound.rs\<close>.

  A request under construction is a record of its tag, minor version and
  operations.  The buffers it owns are represented by their lengths: their
  contents stand in the operations and the tag that point to them.  The XDR
  encoder and the RPC transport are not part of the repository; they are the
  arguments \<^verbatim>\<open>encode\<close> and \<^verbatim>\<open>rpc\<close> of the definitions that call them.  A decoded
  reply is a record of its status and its operations.  A variable-length field
  of a reply is a length with a pointer that may be null.  An assertion that
  fails, or a slice built from a null pointer, is \<^verbatim>\<open>None\<close>.  Counters that only
  feed diagnostics are left out.
\<close>

unbundle bit_operations_syntax

section \<open>Wire integers\<close>

text \<open>\<^verbatim>\<open>to_be_bytes\<close> and \<^verbatim>\<open>from_be_bytes\<close> of an unsigned integer of \<open>k\<close> bytes, and
  the two's complement of a signed 64-bit integer.\<close>

fun be_bytes :: "nat \<Rightarrow> nat \<Rightarrow> wire" where
  "be_bytes 0 n = []"
| "be_bytes (Suc k) n = be_bytes k (n div 256) @ [of_nat (n mod 256)]"

definition be_nat :: "wire \<Rightarrow> nat" where
  "be_nat ws = foldl (\<lambda>acc b. acc * 256 + unat b) 0 ws"

definition i64_bits :: "int \<Rightarrow> nat" where
  "i64_bits s = nat (s mod 2 ^ 64)"

definition i64_of_bits :: "nat \<Rightarrow> int" where
  "i64_of_bits n = (if n < 2 ^ 63 then int n else int n - 2 ^ 64)"

definition text_wire :: "bytes \<Rightarrow> wire" where
  "text_wire s = map of_char s"

section \<open>Protocol constants\<close>

definition NFS4_OP_CLOSE :: nat where "NFS4_OP_CLOSE = 4"
definition NFS4_OP_CREATE :: nat where "NFS4_OP_CREATE = 6"
definition NFS4_OP_GETATTR :: nat where "NFS4_OP_GETATTR = 9"
definition NFS4_OP_GETFH :: nat where "NFS4_OP_GETFH = 10"
definition NFS4_OP_LINK :: nat where "NFS4_OP_LINK = 11"
definition NFS4_OP_LOOKUP :: nat where "NFS4_OP_LOOKUP = 15"
definition NFS4_OP_LOOKUPP :: nat where "NFS4_OP_LOOKUPP = 16"
definition NFS4_OP_NVERIFY :: nat where "NFS4_OP_NVERIFY = 17"
definition NFS4_OP_OPEN :: nat where "NFS4_OP_OPEN = 18"
definition NFS4_OP_PUTFH :: nat where "NFS4_OP_PUTFH = 22"
definition NFS4_OP_PUTROOTFH :: nat where "NFS4_OP_PUTROOTFH = 24"
definition NFS4_OP_READ :: nat where "NFS4_OP_READ = 25"
definition NFS4_OP_READDIR :: nat where "NFS4_OP_READDIR = 26"
definition NFS4_OP_READLINK :: nat where "NFS4_OP_READLINK = 27"
definition NFS4_OP_REMOVE :: nat where "NFS4_OP_REMOVE = 28"
definition NFS4_OP_RENAME :: nat where "NFS4_OP_RENAME = 29"
definition NFS4_OP_RESTOREFH :: nat where "NFS4_OP_RESTOREFH = 31"
definition NFS4_OP_SAVEFH :: nat where "NFS4_OP_SAVEFH = 32"
definition NFS4_OP_SETATTR :: nat where "NFS4_OP_SETATTR = 34"
definition NFS4_OP_WRITE :: nat where "NFS4_OP_WRITE = 38"
definition NFS4_OP_BIND_CONN_TO_SESSION :: nat where "NFS4_OP_BIND_CONN_TO_SESSION = 41"
definition NFS4_OP_EXCHANGE_ID :: nat where "NFS4_OP_EXCHANGE_ID = 42"
definition NFS4_OP_CREATE_SESSION :: nat where "NFS4_OP_CREATE_SESSION = 43"
definition NFS4_OP_DESTROY_SESSION :: nat where "NFS4_OP_DESTROY_SESSION = 44"
definition NFS4_OP_SEQUENCE :: nat where "NFS4_OP_SEQUENCE = 53"
definition NFS4_OP_DESTROY_CLIENTID :: nat where "NFS4_OP_DESTROY_CLIENTID = 57"
definition NFS4_OP_RECLAIM_COMPLETE :: nat where "NFS4_OP_RECLAIM_COMPLETE = 58"
definition NFS4_OP_COPY :: nat where "NFS4_OP_COPY = 60"

lemmas nfs_op_defs = NFS4_OP_CLOSE_def NFS4_OP_CREATE_def NFS4_OP_GETATTR_def NFS4_OP_GETFH_def
  NFS4_OP_LINK_def NFS4_OP_LOOKUP_def NFS4_OP_LOOKUPP_def NFS4_OP_NVERIFY_def NFS4_OP_OPEN_def
  NFS4_OP_PUTFH_def NFS4_OP_PUTROOTFH_def NFS4_OP_READ_def NFS4_OP_READDIR_def
  NFS4_OP_READLINK_def NFS4_OP_REMOVE_def NFS4_OP_RENAME_def NFS4_OP_RESTOREFH_def
  NFS4_OP_SAVEFH_def NFS4_OP_SETATTR_def NFS4_OP_WRITE_def NFS4_OP_BIND_CONN_TO_SESSION_def
  NFS4_OP_EXCHANGE_ID_def NFS4_OP_CREATE_SESSION_def NFS4_OP_DESTROY_SESSION_def
  NFS4_OP_SEQUENCE_def NFS4_OP_DESTROY_CLIENTID_def NFS4_OP_RECLAIM_COMPLETE_def NFS4_OP_COPY_def

definition FATTR4_TYPE :: nat where "FATTR4_TYPE = 1"
definition FATTR4_CHANGE :: nat where "FATTR4_CHANGE = 3"
definition FATTR4_SIZE :: nat where "FATTR4_SIZE = 4"
definition FATTR4_NAMED_ATTR :: nat where "FATTR4_NAMED_ATTR = 7"
definition FATTR4_FSID :: nat where "FATTR4_FSID = 8"
definition FATTR4_FILEID :: nat where "FATTR4_FILEID = 20"
definition FATTR4_FILES_AVAIL :: nat where "FATTR4_FILES_AVAIL = 21"
definition FATTR4_FILES_FREE :: nat where "FATTR4_FILES_FREE = 22"
definition FATTR4_FILES_TOTAL :: nat where "FATTR4_FILES_TOTAL = 23"
definition FATTR4_MAXFILESIZE :: nat where "FATTR4_MAXFILESIZE = 27"
definition FATTR4_MAXLINK :: nat where "FATTR4_MAXLINK = 28"
definition FATTR4_MAXNAME :: nat where "FATTR4_MAXNAME = 29"
definition FATTR4_MODE :: nat where "FATTR4_MODE = 33"
definition FATTR4_NUMLINKS :: nat where "FATTR4_NUMLINKS = 35"
definition FATTR4_OWNER :: nat where "FATTR4_OWNER = 36"
definition FATTR4_OWNER_GROUP :: nat where "FATTR4_OWNER_GROUP = 37"
definition FATTR4_RAWDEV :: nat where "FATTR4_RAWDEV = 41"
definition FATTR4_SPACE_AVAIL :: nat where "FATTR4_SPACE_AVAIL = 42"
definition FATTR4_SPACE_FREE :: nat where "FATTR4_SPACE_FREE = 43"
definition FATTR4_SPACE_TOTAL :: nat where "FATTR4_SPACE_TOTAL = 44"
definition FATTR4_SPACE_USED :: nat where "FATTR4_SPACE_USED = 45"
definition FATTR4_TIME_ACCESS :: nat where "FATTR4_TIME_ACCESS = 47"
definition FATTR4_TIME_ACCESS_SET :: nat where "FATTR4_TIME_ACCESS_SET = 48"
definition FATTR4_TIME_METADATA :: nat where "FATTR4_TIME_METADATA = 52"
definition FATTR4_TIME_MODIFY :: nat where "FATTR4_TIME_MODIFY = 53"
definition FATTR4_TIME_MODIFY_SET :: nat where "FATTR4_TIME_MODIFY_SET = 54"

lemmas fattr_defs = FATTR4_TYPE_def FATTR4_CHANGE_def FATTR4_SIZE_def FATTR4_NAMED_ATTR_def
  FATTR4_FSID_def FATTR4_FILEID_def FATTR4_FILES_AVAIL_def FATTR4_FILES_FREE_def
  FATTR4_FILES_TOTAL_def FATTR4_MAXFILESIZE_def FATTR4_MAXLINK_def FATTR4_MAXNAME_def
  FATTR4_MODE_def FATTR4_NUMLINKS_def FATTR4_OWNER_def FATTR4_OWNER_GROUP_def FATTR4_RAWDEV_def
  FATTR4_SPACE_AVAIL_def FATTR4_SPACE_FREE_def FATTR4_SPACE_TOTAL_def FATTR4_SPACE_USED_def
  FATTR4_TIME_ACCESS_def FATTR4_TIME_ACCESS_SET_def FATTR4_TIME_METADATA_def
  FATTR4_TIME_MODIFY_def FATTR4_TIME_MODIFY_SET_def

section \<open>Request operations\<close>

record stateid4 =
  sid_seqid :: nat
  sid_other :: "nat list"

definition zero_stateid :: stateid4 where
  "zero_stateid = \<lparr> sid_seqid = 0, sid_other = replicate 12 0 \<rparr>"

record bitmap4 =
  bm_len :: nat
  bm_map :: "32 word list"

record fattr4 =
  fa_mask :: bitmap4
  fa_vals :: wire

datatype openflag4 =
    NoCreateHow
  | ExclusiveHow wire
  | GuardedHow fattr4
  | UncheckedHow fattr4

datatype open_claim4 = ClaimNull bytes | ClaimFh

record OPEN4args =
  oa_seqid :: nat
  oa_share_access :: nat
  oa_share_deny :: nat
  oa_clientid :: nat
  oa_owner :: bytes
  oa_openhow :: openflag4
  oa_claim :: open_claim4

record channel_attrs4 =
  ca_headerpadsize :: nat
  ca_maxrequestsize :: nat
  ca_maxresponsesize :: nat
  ca_maxresponsesize_cached :: nat
  ca_maxoperations :: nat
  ca_maxrequests :: nat

type_synonym sessionid4 = "nat list"

record CREATE_SESSION4args =
  csa_clientid :: nat
  csa_sequence :: nat
  csa_flags :: nat
  csa_fore_chan_attrs :: channel_attrs4
  csa_back_chan_attrs :: channel_attrs4
  csa_cb_program :: nat

datatype createtype4 = CreateLink bytes | CreateDevice nat | CreateOther nat

datatype nfs_argop4 =
    A_PutFh bytes
  | A_PutRootFh
  | A_GetFh
  | A_Lookup bytes
  | A_Sequence sessionid4 nat nat nat
  | A_Open OPEN4args
  | A_Read stateid4 nat nat
  | A_Write stateid4 nat nat bytes
  | A_Copy stateid4 stateid4 nat nat nat
  | A_Close nat stateid4
  | A_ExchangeId wire bytes nat
  | A_CreateSession CREATE_SESSION4args
  | A_ReclaimComplete
  | A_Create bytes createtype4
  | A_Readlink
  | A_Getattr bitmap4
  | A_Nverify fattr4
  | A_Setattr stateid4 fattr4
  | A_Readdir nat wire nat nat bitmap4
  | A_Remove bytes
  | A_Rename bytes bytes
  | A_SaveFh
  | A_RestoreFh
  | A_LookupP
  | A_Link bytes
  | A_BindForeChannel sessionid4
  | A_DestroySession sessionid4
  | A_DestroyClientid nat

fun argop :: "nfs_argop4 \<Rightarrow> nat" where
  "argop (A_PutFh _) = NFS4_OP_PUTFH"
| "argop A_PutRootFh = NFS4_OP_PUTROOTFH"
| "argop A_GetFh = NFS4_OP_GETFH"
| "argop (A_Lookup _) = NFS4_OP_LOOKUP"
| "argop (A_Sequence _ _ _ _) = NFS4_OP_SEQUENCE"
| "argop (A_Open _) = NFS4_OP_OPEN"
| "argop (A_Read _ _ _) = NFS4_OP_READ"
| "argop (A_Write _ _ _ _) = NFS4_OP_WRITE"
| "argop (A_Copy _ _ _ _ _) = NFS4_OP_COPY"
| "argop (A_Close _ _) = NFS4_OP_CLOSE"
| "argop (A_ExchangeId _ _ _) = NFS4_OP_EXCHANGE_ID"
| "argop (A_CreateSession _) = NFS4_OP_CREATE_SESSION"
| "argop A_ReclaimComplete = NFS4_OP_RECLAIM_COMPLETE"
| "argop (A_Create _ _) = NFS4_OP_CREATE"
| "argop A_Readlink = NFS4_OP_READLINK"
| "argop (A_Getattr _) = NFS4_OP_GETATTR"
| "argop (A_Nverify _) = NFS4_OP_NVERIFY"
| "argop (A_Setattr _ _) = NFS4_OP_SETATTR"
| "argop (A_Readdir _ _ _ _ _) = NFS4_OP_READDIR"
| "argop (A_Remove _) = NFS4_OP_REMOVE"
| "argop (A_Rename _ _) = NFS4_OP_RENAME"
| "argop A_SaveFh = NFS4_OP_SAVEFH"
| "argop A_RestoreFh = NFS4_OP_RESTOREFH"
| "argop A_LookupP = NFS4_OP_LOOKUPP"
| "argop (A_Link _) = NFS4_OP_LINK"
| "argop (A_BindForeChannel _) = NFS4_OP_BIND_CONN_TO_SESSION"
| "argop (A_DestroySession _) = NFS4_OP_DESTROY_SESSION"
| "argop (A_DestroyClientid _) = NFS4_OP_DESTROY_CLIENTID"

section \<open>Building requests\<close>

record Compound =
  cp_tag :: bytes
  cp_minorversion :: nat
  cp_ops :: "nfs_argop4 list"
  cp_keep :: "nat list"
  cp_size_check :: "(nat \<times> nat option) option"

definition compound_new :: Compound where
  "compound_new =
     \<lparr> cp_tag = [], cp_minorversion = 1, cp_ops = [], cp_keep = [], cp_size_check = None \<rparr>"

definition push :: "Compound \<Rightarrow> nfs_argop4 \<Rightarrow> Compound" where
  "push c op = c \<lparr> cp_size_check := None, cp_ops := cp_ops c @ [op] \<rparr>"

definition insert0 :: "Compound \<Rightarrow> nfs_argop4 \<Rightarrow> Compound" where
  "insert0 c op = c \<lparr> cp_size_check := None, cp_ops := op # cp_ops c \<rparr>"

definition op_count :: "Compound \<Rightarrow> nat" where
  "op_count c = length (cp_ops c)"

definition keep :: "Compound \<Rightarrow> nat \<Rightarrow> Compound" where
  "keep c len = c \<lparr> cp_size_check := None, cp_keep := cp_keep c @ [len] \<rparr>"

definition compound_tag :: "Compound \<Rightarrow> bytes \<Rightarrow> Compound" where
  "compound_tag c tag = (keep c (length tag)) \<lparr> cp_tag := tag \<rparr>"

definition set_minorversion :: "Compound \<Rightarrow> nat \<Rightarrow> Compound" where
  "set_minorversion c v = c \<lparr> cp_minorversion := v \<rparr>"

text \<open>The words of a bitmap and its length up to the last word in use.\<close>

definition set_bit_in :: "32 word list \<Rightarrow> nat \<Rightarrow> 32 word list" where
  "set_bit_in ws a = ws[a div 32 := ws ! (a div 32) OR push_bit (a mod 32) 1]"

definition map_len :: "32 word list \<Rightarrow> nat" where
  "map_len ws = foldl (\<lambda>n i. if ws ! i \<noteq> 0 then i + 1 else n) 0 [0..<length ws]"

definition bitmap :: "nat list \<Rightarrow> bitmap4" where
  "bitmap attrs =
     (let ws = foldl set_bit_in (replicate 3 0) attrs in \<lparr> bm_len = map_len ws, bm_map = ws \<rparr>)"

definition empty_fattr :: fattr4 where
  "empty_fattr = \<lparr> fa_mask = \<lparr> bm_len = 0, bm_map = [0, 0, 0] \<rparr>, fa_vals = [] \<rparr>"

definition c_putfh :: "Compound \<Rightarrow> bytes \<Rightarrow> Compound" where
  "c_putfh c fh = push c (A_PutFh fh)"
definition c_putrootfh :: "Compound \<Rightarrow> Compound" where
  "c_putrootfh c = push c A_PutRootFh"
definition c_getfh :: "Compound \<Rightarrow> Compound" where
  "c_getfh c = push c A_GetFh"
definition c_lookup :: "Compound \<Rightarrow> bytes \<Rightarrow> Compound" where
  "c_lookup c name = push (keep c (length name)) (A_Lookup name)"
definition c_sequence :: "Compound \<Rightarrow> sessionid4 \<Rightarrow> nat \<Rightarrow> nat \<Rightarrow> nat \<Rightarrow> Compound" where
  "c_sequence c sid seqid slotid highest = push c (A_Sequence sid seqid slotid highest)"
definition c_open :: "Compound \<Rightarrow> OPEN4args \<Rightarrow> Compound" where
  "c_open c args = push c (A_Open args)"

definition c_open_claim_null ::
  "Compound \<Rightarrow> nat \<Rightarrow> nat \<Rightarrow> nat \<Rightarrow> nat \<Rightarrow> bytes \<Rightarrow> openflag4 \<Rightarrow> bytes \<Rightarrow> Compound" where
  "c_open_claim_null c seqid access deny clientid owner how file =
     c_open (keep (keep c (length owner)) (length file))
       \<lparr> oa_seqid = seqid, oa_share_access = access, oa_share_deny = deny, oa_clientid = clientid,
         oa_owner = owner, oa_openhow = how, oa_claim = ClaimNull file \<rparr>"

definition c_open_claim_fh :: "Compound \<Rightarrow> nat \<Rightarrow> nat \<Rightarrow> bytes \<Rightarrow> Compound" where
  "c_open_claim_fh c access clientid owner =
     c_open (keep c (length owner))
       \<lparr> oa_seqid = 0, oa_share_access = access, oa_share_deny = 0, oa_clientid = clientid,
         oa_owner = owner, oa_openhow = NoCreateHow, oa_claim = ClaimFh \<rparr>"

definition create_mode_fattr :: "nat option \<Rightarrow> bool \<Rightarrow> fattr4" where
  "create_mode_fattr mode trunc =
     (let ws0 = replicate 3 0;
          (ws1, v1) = (if trunc then (set_bit_in ws0 FATTR4_SIZE, be_bytes 8 0) else (ws0, []));
          (ws2, v2) = (case mode of
             None \<Rightarrow> (ws1, v1)
           | Some m \<Rightarrow> (set_bit_in ws1 FATTR4_MODE, v1 @ be_bytes 4 m));
          len = (if ws2 ! 2 \<noteq> 0 then 3 else if ws2 ! 1 \<noteq> 0 then 2 else if ws2 ! 0 \<noteq> 0 then 1 else 0)
      in \<lparr> fa_mask = \<lparr> bm_len = len, bm_map = ws2 \<rparr>, fa_vals = v2 \<rparr>)"

definition c_open_claim_null_create_mode ::
  "Compound \<Rightarrow> nat \<Rightarrow> nat \<Rightarrow> nat \<Rightarrow> nat \<Rightarrow> bytes \<Rightarrow> bytes \<Rightarrow> nat option \<Rightarrow> bool \<Rightarrow> Compound" where
  "c_open_claim_null_create_mode c seqid access deny clientid owner file mode trunc =
     (let fattr = create_mode_fattr mode trunc
      in c_open_claim_null (keep c (length (fa_vals fattr))) seqid access deny clientid owner
           (UncheckedHow fattr) file)"

definition c_read :: "Compound \<Rightarrow> stateid4 \<Rightarrow> nat \<Rightarrow> nat \<Rightarrow> Compound" where
  "c_read c sid offset count = push c (A_Read sid offset count)"
definition c_write :: "Compound \<Rightarrow> stateid4 \<Rightarrow> nat \<Rightarrow> nat \<Rightarrow> bytes \<Rightarrow> Compound" where
  "c_write c sid offset stab data = push (keep c (length data)) (A_Write sid offset stab data)"
definition c_copy :: "Compound \<Rightarrow> stateid4 \<Rightarrow> stateid4 \<Rightarrow> nat \<Rightarrow> nat \<Rightarrow> nat \<Rightarrow> Compound" where
  "c_copy c src dst src_offset dst_offset count = push c (A_Copy src dst src_offset dst_offset count)"
definition c_close :: "Compound \<Rightarrow> nat \<Rightarrow> stateid4 \<Rightarrow> Compound" where
  "c_close c seqid sid = push c (A_Close seqid sid)"
definition c_exchange_id :: "Compound \<Rightarrow> wire \<Rightarrow> bytes \<Rightarrow> nat \<Rightarrow> Compound" where
  "c_exchange_id c verifier owner flags = push c (A_ExchangeId verifier owner flags)"
definition c_create_session :: "Compound \<Rightarrow> CREATE_SESSION4args \<Rightarrow> Compound" where
  "c_create_session c args = push c (A_CreateSession args)"
definition c_reclaim_complete :: "Compound \<Rightarrow> Compound" where
  "c_reclaim_complete c = push c A_ReclaimComplete"

definition c_create :: "Compound \<Rightarrow> bytes \<Rightarrow> nat \<Rightarrow> bytes option \<Rightarrow> Compound" where
  "c_create c name ftype linkdata =
     (let c1 = keep c (length name)
      in case linkdata of
           Some target \<Rightarrow> push (keep c1 (length target)) (A_Create name (CreateLink target))
         | None \<Rightarrow>
             push c1 (A_Create name
               (if ftype = NF4BLK \<or> ftype = NF4CHR then CreateDevice ftype else CreateOther ftype)))"

definition c_readlink :: "Compound \<Rightarrow> Compound" where
  "c_readlink c = push c A_Readlink"
definition c_getattr :: "Compound \<Rightarrow> nat list \<Rightarrow> Compound" where
  "c_getattr c attrs = push c (A_Getattr (bitmap attrs))"
definition c_nverify_type :: "Compound \<Rightarrow> nat \<Rightarrow> Compound" where
  "c_nverify_type c expected =
     push (keep c 4) (A_Nverify \<lparr> fa_mask = bitmap [FATTR4_TYPE], fa_vals = be_bytes 4 expected \<rparr>)"

text \<open>The attribute list of \<^verbatim>\<open>setattr_ownership\<close>: each step sets a bit and appends the
  value, in ascending order of attribute numbers.\<close>

type_synonym attr_acc = "32 word list \<times> wire"

definition put_attr :: "attr_acc \<Rightarrow> nat \<Rightarrow> wire \<Rightarrow> attr_acc" where
  "put_attr acc attribute value = (set_bit_in (fst acc) attribute, snd acc @ value)"

definition pad4 :: "wire \<Rightarrow> wire" where
  "pad4 vals = vals @ replicate ((length vals + 3) div 4 * 4 - length vals) 0"

definition put_identity :: "attr_acc \<Rightarrow> nat \<times> nat option \<Rightarrow> attr_acc" where
  "put_identity acc row =
     (case snd row of
        None \<Rightarrow> acc
      | Some identity \<Rightarrow>
          let text = decimal identity;
              acc' = put_attr acc (fst row) (be_bytes 4 (length text) @ text_wire text)
          in (fst acc', pad4 (snd acc')))"

definition time_value :: "int \<times> nat \<Rightarrow> wire" where
  "time_value t = be_bytes 4 1 @ be_bytes 8 (i64_bits (fst t)) @ be_bytes 4 (snd t)"

definition put_option :: "attr_acc \<Rightarrow> nat \<Rightarrow> wire option \<Rightarrow> attr_acc" where
  "put_option acc attribute value =
     (case value of None \<Rightarrow> acc | Some v \<Rightarrow> put_attr acc attribute v)"

definition setattr_fattr ::
  "nat option \<Rightarrow> nat option \<Rightarrow> nat option \<times> nat option \<Rightarrow> (int \<times> nat) option \<Rightarrow> (int \<times> nat) option
     \<Rightarrow> fattr4" where
  "setattr_fattr mode fsize ownership atime mtime =
     (let a0 = (replicate 3 0, []);
          a1 = put_option a0 FATTR4_SIZE (map_option (be_bytes 8) fsize);
          a2 = put_option a1 FATTR4_MODE (map_option (be_bytes 4) mode);
          a3 = foldl put_identity a2
                 [(FATTR4_OWNER, fst ownership), (FATTR4_OWNER_GROUP, snd ownership)];
          a4 = put_option a3 FATTR4_TIME_ACCESS_SET (map_option time_value atime);
          a5 = put_option a4 FATTR4_TIME_MODIFY_SET (map_option time_value mtime)
      in \<lparr> fa_mask = \<lparr> bm_len = map_len (fst a5), bm_map = fst a5 \<rparr>, fa_vals = snd a5 \<rparr>)"

definition c_setattr_ownership ::
  "Compound \<Rightarrow> nat option \<Rightarrow> nat option \<Rightarrow> nat option \<times> nat option \<Rightarrow> (int \<times> nat) option
     \<Rightarrow> (int \<times> nat) option \<Rightarrow> stateid4 \<Rightarrow> Compound" where
  "c_setattr_ownership c mode fsize ownership atime mtime sid =
     (let fattr = setattr_fattr mode fsize ownership atime mtime
      in push (keep c (length (fa_vals fattr))) (A_Setattr sid fattr))"

definition c_setattr_values ::
  "Compound \<Rightarrow> nat option \<Rightarrow> nat option \<Rightarrow> (int \<times> nat) option \<Rightarrow> (int \<times> nat) option \<Rightarrow> stateid4
     \<Rightarrow> Compound" where
  "c_setattr_values c mode fsize atime mtime sid =
     c_setattr_ownership c mode fsize (None, None) atime mtime sid"

definition c_setattr_with_stateid ::
  "Compound \<Rightarrow> nat option \<Rightarrow> nat option \<Rightarrow> stateid4 \<Rightarrow> Compound" where
  "c_setattr_with_stateid c mode fsize sid = c_setattr_values c mode fsize None None sid"

definition c_setattr :: "Compound \<Rightarrow> nat option \<Rightarrow> nat option \<Rightarrow> Compound" where
  "c_setattr c mode fsize = c_setattr_with_stateid c mode fsize zero_stateid"

definition c_readdir :: "Compound \<Rightarrow> nat \<Rightarrow> wire \<Rightarrow> nat \<Rightarrow> nat \<Rightarrow> nat list \<Rightarrow> Compound" where
  "c_readdir c cookie verf dircount maxcount attrs =
     push c (A_Readdir cookie verf dircount maxcount (bitmap attrs))"
definition c_remove :: "Compound \<Rightarrow> bytes \<Rightarrow> Compound" where
  "c_remove c name = push (keep c (length name)) (A_Remove name)"
definition c_rename :: "Compound \<Rightarrow> bytes \<Rightarrow> bytes \<Rightarrow> Compound" where
  "c_rename c oldname newname =
     push (keep (keep c (length oldname)) (length newname)) (A_Rename oldname newname)"
definition c_savefh :: "Compound \<Rightarrow> Compound" where
  "c_savefh c = push c A_SaveFh"
definition c_restorefh :: "Compound \<Rightarrow> Compound" where
  "c_restorefh c = push c A_RestoreFh"
definition c_lookupp :: "Compound \<Rightarrow> Compound" where
  "c_lookupp c = push c A_LookupP"
definition c_link :: "Compound \<Rightarrow> bytes \<Rightarrow> Compound" where
  "c_link c newname = push (keep c (length newname)) (A_Link newname)"
definition c_bind_fore_channel :: "Compound \<Rightarrow> sessionid4 \<Rightarrow> Compound" where
  "c_bind_fore_channel c sid = push c (A_BindForeChannel sid)"
definition c_destroy_session :: "Compound \<Rightarrow> sessionid4 \<Rightarrow> Compound" where
  "c_destroy_session c sid = push c (A_DestroySession sid)"
definition c_destroy_clientid :: "Compound \<Rightarrow> nat \<Rightarrow> Compound" where
  "c_destroy_clientid c clientid = push c (A_DestroyClientid clientid)"

section \<open>The size preflight\<close>

text \<open>\<^verbatim>\<open>encode minor tag ops capacity\<close> is the generated XDR routine run on a memory
  stream of the given capacity: the encoded size, or \<^verbatim>\<open>None\<close> when it does not
  fit.\<close>

type_synonym encoder = "nat \<Rightarrow> bytes \<Rightarrow> nfs_argop4 list \<Rightarrow> nat \<Rightarrow> nat option"

partial_function (option) encode_loop :: "(nat \<Rightarrow> nat option) \<Rightarrow> nat \<Rightarrow> nat \<Rightarrow> nat option option" where
  "encode_loop enc limit capacity =
     (case enc capacity of
        Some n \<Rightarrow> Some (Some n)
      | None \<Rightarrow>
          if limit \<le> capacity then Some None
          else encode_loop enc limit (min (sat_mul capacity 2) limit))"

definition encode_estimate :: "Compound \<Rightarrow> nat" where
  "encode_estimate c =
     sat_add (sat_add (foldl sat_add 0 (cp_keep c)) (sat_mul (length (cp_ops c)) 128)) 64"

definition encoded_len_fresh ::
  "encoder \<Rightarrow> Compound \<Rightarrow> nat \<Rightarrow> (Compound \<times> nat option) option" where
  "encoded_len_fresh encode c limit =
     (if list_ex (\<lambda>len. u32_max < len) (cp_keep c) then Some (c, None)
      else if limit = 0 then Some (c, None)
      else let lim = min limit u32_max div 4 * 4
           in if lim < 4 then Some (c, None)
              else map_option (\<lambda>result. (c \<lparr> cp_size_check := Some (lim, result) \<rparr>, result))
                     (encode_loop (encode (cp_minorversion c) (cp_tag c) (cp_ops c)) lim
                        (min (max (encode_estimate c) 1024) lim)))"

definition encoded_len_up_to ::
  "encoder \<Rightarrow> Compound \<Rightarrow> nat \<Rightarrow> (Compound \<times> nat option) option" where
  "encoded_len_up_to encode c limit =
     (case cp_size_check c of
        Some (checked_limit, result) \<Rightarrow>
          if checked_limit = limit then Some (c, result) else encoded_len_fresh encode c limit
      | None \<Rightarrow> encoded_len_fresh encode c limit)"

section \<open>Wire integers round trip\<close>

lemma be_bytes_length [simp]: "length (be_bytes k n) = k"
  by (induction k arbitrary: n) auto

lemma be_nat_Nil [simp]: "be_nat [] = 0"
  by (simp add: be_nat_def)

lemma be_nat_snoc [simp]: "be_nat (bs @ [b]) = be_nat bs * 256 + unat b"
  by (simp add: be_nat_def)

lemma be_nat_be_bytes: "be_nat (be_bytes k n) = n mod 256 ^ k"
proof (induction k arbitrary: n)
  case (Suc k)
  have "unat (of_nat (n mod 256) :: 8 word) = n mod 256"
    by (simp add: unat_of_nat)
  moreover have "n mod (256 * 256 ^ k) = 256 * (n div 256 mod 256 ^ k) + n mod 256"
    by (simp add: mod_mult2_eq)
  ultimately show ?case using Suc by simp
qed simp

lemma be_nat_bound: "be_nat bs < 256 ^ length bs"
proof (induction bs rule: rev_induct)
  case (snoc b bs)
  have "unat b < 256" using unsigned_less [of b] by simp
  with snoc show ?case by simp
qed simp

lemma i64_roundtrip:
  assumes "- (2 ^ 63) \<le> s" "s < 2 ^ 63"
  shows "i64_of_bits (i64_bits s) = s"
proof (cases "0 \<le> s")
  case True
  with assms show ?thesis by (simp add: i64_bits_def i64_of_bits_def)
next
  case False
  have "s mod 2 ^ 64 = (s + 2 ^ 64) mod 2 ^ 64" by simp
  also have "\<dots> = s + 2 ^ 64" using assms False by (intro mod_pos_pos_trivial) auto
  finally show ?thesis using assms False by (simp add: i64_bits_def i64_of_bits_def nat_less_iff)
qed

section \<open>The preflight is exact\<close>

text \<open>What the code relies on in the encoder: it succeeds exactly when the buffer
  holds the encoding, whose size does not depend on the minor version.\<close>

definition xdr_encoder :: "encoder \<Rightarrow> (bytes \<Rightarrow> nfs_argop4 list \<Rightarrow> nat) \<Rightarrow> bool" where
  "xdr_encoder encode sz \<longleftrightarrow>
     (\<forall>minor tag ops capacity.
        encode minor tag ops capacity =
          (if sz tag ops \<le> capacity then Some (sz tag ops) else None))"

text \<open>The capacity of the request buffer that a limit allows, and the answer the
  preflight should give.\<close>

definition aligned_limit :: "nat \<Rightarrow> nat" where
  "aligned_limit limit = min limit u32_max div 4 * 4"

definition preflight :: "(bytes \<Rightarrow> nfs_argop4 list \<Rightarrow> nat) \<Rightarrow> Compound \<Rightarrow> nat \<Rightarrow> nat option" where
  "preflight sz c limit =
     (if list_all (\<lambda>len. len \<le> u32_max) (cp_keep c) \<and> 4 \<le> aligned_limit limit
         \<and> sz (cp_tag c) (cp_ops c) \<le> aligned_limit limit
      then Some (sz (cp_tag c) (cp_ops c)) else None)"

definition cache_ok :: "(bytes \<Rightarrow> nfs_argop4 list \<Rightarrow> nat) \<Rightarrow> Compound \<Rightarrow> bool" where
  "cache_ok sz c \<longleftrightarrow>
     (case cp_size_check c of None \<Rightarrow> True | Some (l, r) \<Rightarrow> r = preflight sz c l)"

text \<open>Requests as the client builds them.\<close>

inductive built :: "encoder \<Rightarrow> Compound \<Rightarrow> bool" for encode where
  built_new: "built encode compound_new"
| built_push: "built encode c \<Longrightarrow> built encode (push c op)"
| built_insert0: "built encode c \<Longrightarrow> built encode (insert0 c op)"
| built_keep: "built encode c \<Longrightarrow> built encode (keep c n)"
| built_tag: "built encode c \<Longrightarrow> built encode (compound_tag c tag)"
| built_minor: "built encode c \<Longrightarrow> built encode (set_minorversion c v)"
| built_sized: "built encode c \<Longrightarrow> encoded_len_up_to encode c limit = Some (c', r) \<Longrightarrow> built encode c'"

lemma encode_loop_exact:
  assumes "\<forall>cap. enc cap = (if n \<le> cap then Some n else None)" "0 < capacity" "capacity \<le> limit"
    "limit \<le> u64_max"
  shows "encode_loop enc limit capacity = Some (if n \<le> limit then Some n else None)"
  using assms(2,3)
proof (induction "limit - capacity" arbitrary: capacity rule: less_induct)
  case less
  show ?case
  proof (cases "capacity < limit \<and> \<not> n \<le> capacity")
    case True
    let ?c = "min (sat_mul capacity 2) limit"
    have "capacity < ?c" "?c \<le> limit"
      using True less.prems assms(4) by (auto simp: sat_mul_def)
    with less.hyps [of ?c] True assms(1) show ?thesis
      by (subst encode_loop.simps) (simp add: diff_less_mono2)
  next
    case False
    with assms(1) less.prems show ?thesis by (subst encode_loop.simps) auto
  qed
qed

text \<open>The loop ends whatever the encoder answers.\<close>

lemma encode_loop_total:
  assumes "0 < capacity" "capacity \<le> limit" "limit \<le> u64_max"
  shows "\<exists>r. encode_loop enc limit capacity = Some r"
  using assms(1,2)
proof (induction "limit - capacity" arbitrary: capacity rule: less_induct)
  case less
  show ?case
  proof (cases "capacity < limit \<and> enc capacity = None")
    case True
    let ?c = "min (sat_mul capacity 2) limit"
    have "capacity < ?c" "?c \<le> limit"
      using True less.prems assms(3) by (auto simp: sat_mul_def)
    with less.hyps [of ?c] True show ?thesis
      by (subst encode_loop.simps) (simp add: diff_less_mono2)
  next
    case False
    with less.prems show ?thesis by (subst encode_loop.simps) (auto split: option.split)
  qed
qed

lemma aligned_limit_idem [simp]: "aligned_limit (aligned_limit n) = aligned_limit n"
proof -
  have "min n u32_max div 4 * 4 \<le> u32_max"
    by (meson div_times_less_eq_dividend le_trans min.cobounded2)
  then show ?thesis by (simp add: aligned_limit_def min_absorb1)
qed

lemma aligned_limit_le: "aligned_limit n \<le> u64_max"
  by (simp add: aligned_limit_def u32_max_def u64_max_def)

lemma encoded_len_fresh_exact:
  assumes "xdr_encoder encode sz"
  shows "\<exists>c'. encoded_len_fresh encode c limit = Some (c', preflight sz c limit) \<and>
    cp_tag c' = cp_tag c \<and> cp_ops c' = cp_ops c \<and> cp_keep c' = cp_keep c \<and>
    (cp_size_check c' = cp_size_check c \<or>
     cp_size_check c' = Some (aligned_limit limit, preflight sz c limit))"
proof (cases "list_ex (\<lambda>len. u32_max < len) (cp_keep c) \<or> limit = 0 \<or> aligned_limit limit < 4")
  case True
  then have "\<not> (list_all (\<lambda>len. len \<le> u32_max) (cp_keep c) \<and> 4 \<le> aligned_limit limit)"
    by (auto simp: list_ex_iff list_all_iff aligned_limit_def not_le)
  with True show ?thesis
    by (auto simp: encoded_len_fresh_def preflight_def aligned_limit_def Let_def)
next
  case False
  let ?n = "sz (cp_tag c) (cp_ops c)" and ?l = "aligned_limit limit"
  have all: "list_all (\<lambda>len. len \<le> u32_max) (cp_keep c)"
    using False by (auto simp: list_ex_iff list_all_iff not_less)
  have "encode_loop (encode (cp_minorversion c) (cp_tag c) (cp_ops c)) ?l
      (min (max (encode_estimate c) 1024) ?l) = Some (if ?n \<le> ?l then Some ?n else None)"
    using assms False aligned_limit_le [of limit]
    by (intro encode_loop_exact) (auto simp: xdr_encoder_def)
  then have "encoded_len_fresh encode c limit =
      Some (c \<lparr> cp_size_check := Some (?l, preflight sz c limit) \<rparr>, preflight sz c limit)"
    using False all
    by (simp add: encoded_len_fresh_def preflight_def Let_def flip: aligned_limit_def)
  then show ?thesis by simp
qed

lemma preflight_cong:
  "cp_tag c = cp_tag d \<Longrightarrow> cp_ops c = cp_ops d \<Longrightarrow> cp_keep c = cp_keep d \<Longrightarrow>
     aligned_limit l = aligned_limit k \<Longrightarrow> preflight sz c l = preflight sz d k"
  by (simp add: preflight_def)

lemma preflight_aligned [simp]: "preflight sz c (aligned_limit l) = preflight sz c l"
  by (intro preflight_cong) auto

lemma encoded_len_exact:
  assumes "xdr_encoder encode sz" "cache_ok sz c"
  shows "\<exists>c'. encoded_len_up_to encode c limit = Some (c', preflight sz c limit) \<and> cache_ok sz c' \<and>
    cp_tag c' = cp_tag c \<and> cp_ops c' = cp_ops c \<and> cp_keep c' = cp_keep c"
proof (cases "\<exists>r. cp_size_check c = Some (limit, r)")
  case True
  with assms(2) show ?thesis by (auto simp: encoded_len_up_to_def cache_ok_def)
next
  case False
  obtain c' where c': "encoded_len_fresh encode c limit = Some (c', preflight sz c limit)"
    "cp_tag c' = cp_tag c" "cp_ops c' = cp_ops c" "cp_keep c' = cp_keep c"
    "cp_size_check c' = cp_size_check c \<or>
     cp_size_check c' = Some (aligned_limit limit, preflight sz c limit)"
    using encoded_len_fresh_exact [OF assms(1), of c limit] by blast
  have "preflight sz c' l = preflight sz c k" if "aligned_limit l = aligned_limit k" for l k
    using that c' by (intro preflight_cong) auto
  with c'(5) assms(2) have "cache_ok sz c'" by (auto simp: cache_ok_def split: option.splits)
  moreover have "encoded_len_up_to encode c limit = encoded_len_fresh encode c limit"
    using False by (auto simp: encoded_len_up_to_def split: option.splits)
  ultimately show ?thesis using c' by auto
qed

lemma encoded_len_total:
  "\<exists>c' r. encoded_len_up_to encode c limit = Some (c', r) \<and>
     cp_ops c' = cp_ops c \<and> cp_tag c' = cp_tag c \<and> cp_minorversion c' = cp_minorversion c"
proof (cases "\<exists>r. cp_size_check c = Some (limit, r)")
  case True
  then show ?thesis by (auto simp: encoded_len_up_to_def)
next
  case False
  have "\<exists>r. encode_loop enc (aligned_limit limit) (min (max (encode_estimate c) 1024) (aligned_limit limit)) = Some r"
    if "4 \<le> aligned_limit limit" for enc
    using that aligned_limit_le [of limit] by (intro encode_loop_total) auto
  then have "\<exists>c' r. encoded_len_fresh encode c limit = Some (c', r) \<and>
     cp_ops c' = cp_ops c \<and> cp_tag c' = cp_tag c \<and> cp_minorversion c' = cp_minorversion c"
    by (fastforce simp: encoded_len_fresh_def Let_def not_less simp flip: aligned_limit_def)
  moreover have "encoded_len_up_to encode c limit = encoded_len_fresh encode c limit"
    using False by (auto simp: encoded_len_up_to_def split: option.splits)
  ultimately show ?thesis by simp
qed

lemma cache_ok_clear: "cp_size_check c = None \<Longrightarrow> cache_ok sz c"
  by (simp add: cache_ok_def)

lemma built_cache_ok:
  assumes "xdr_encoder encode sz" "built encode c"
  shows "cache_ok sz c"
  using assms(2)
proof induction
  case (built_minor c v)
  have "preflight sz (set_minorversion c v) l = preflight sz c l" for l
    by (intro preflight_cong) (auto simp: set_minorversion_def)
  with built_minor.IH show ?case
    by (auto simp: cache_ok_def set_minorversion_def split: option.splits)
next
  case (built_sized c limit c' r)
  with encoded_len_exact [OF assms(1) built_sized.IH, of limit] show ?case by auto
qed (auto intro!: cache_ok_clear
      simp: compound_new_def push_def insert0_def keep_def compound_tag_def)

section \<open>Attribute bitmaps\<close>

text \<open>The attributes a bitmap names, in the order in which their values follow it.\<close>

definition has_bit :: "32 word list \<Rightarrow> nat \<Rightarrow> bool" where
  "has_bit ws a \<longleftrightarrow> bit (ws ! (a div 32)) (a mod 32)"

definition bitmap_ids :: "bitmap4 \<Rightarrow> nat list" where
  "bitmap_ids bm = filter (has_bit (bm_map bm)) [0..<32 * bm_len bm]"

lemma set_bit_in_length [simp]: "length (set_bit_in ws a) = length ws"
  by (simp add: set_bit_in_def)

lemma has_bit_set [simp]:
  assumes "length ws = 3" "a < 96" "b < 96"
  shows "has_bit (set_bit_in ws a) b \<longleftrightarrow> b = a \<or> has_bit ws b"
proof (cases "b div 32 = a div 32")
  case True
  have "b mod 32 = a mod 32 \<longleftrightarrow> b = a" using True by (metis div_mult_mod_eq)
  then show ?thesis
    using assms True
    by (auto simp: has_bit_def set_bit_in_def bit_or_iff bit_exp_iff)
next
  case False
  then have "b \<noteq> a" by auto
  with False show ?thesis by (simp add: has_bit_def set_bit_in_def)
qed

lemma foldl_set_bit_length [simp]: "length (foldl set_bit_in ws attrs) = length ws"
  by (induction attrs arbitrary: ws) auto

lemma has_bit_foldl:
  assumes "length ws = 3" "\<forall>a \<in> set attrs. a < 96" "b < 96"
  shows "has_bit (foldl set_bit_in ws attrs) b \<longleftrightarrow> b \<in> set attrs \<or> has_bit ws b"
  using assms by (induction attrs arbitrary: ws) auto

lemma has_bit_empty [simp]: "a < 96 \<Longrightarrow> \<not> has_bit (replicate 3 0) a"
  by (simp add: has_bit_def less_mult_imp_div_less)

lemma map_len_three:
  "map_len [x, y, z] = (if z \<noteq> 0 then 3 else if y \<noteq> 0 then 2 else if x \<noteq> 0 then 1 else 0)"
  by (simp add: map_len_def upt_rec numeral_3_eq_3)

lemma map_len_covers:
  assumes "length ws = 3" "b < 96" "has_bit ws b"
  shows "b < 32 * map_len ws"
proof -
  obtain x y z where ws: "ws = [x, y, z]"
    using assms(1) by (auto simp: numeral_3_eq_3 length_Suc_conv)
  have nz: "ws ! (b div 32) \<noteq> 0" using assms(3) by (auto simp: has_bit_def)
  have "b div 32 < 3" using assms(2) by simp
  then consider "b div 32 = 0" | "b div 32 = 1" | "b div 32 = 2" by linarith
  then have "b div 32 < map_len ws"
    by cases (use nz in \<open>simp_all add: ws map_len_three\<close>)
  then show ?thesis by simp
qed

lemma map_len_le: "length ws = 3 \<Longrightarrow> map_len ws \<le> 3"
  by (auto simp: length_Suc_conv numeral_3_eq_3 map_len_three)

lemma bitmap_ids_words:
  assumes "length ws = 3"
  shows "bitmap_ids \<lparr> bm_len = map_len ws, bm_map = ws \<rparr> = filter (has_bit ws) [0..<96]"
proof -
  have "[0..<96] = [0..<32 * map_len ws] @ [32 * map_len ws..<96]"
    using map_len_le [OF assms] upt_add_eq_append [of 0 "32 * map_len ws" "96 - 32 * map_len ws"]
    by simp
  moreover have "filter (has_bit ws) [32 * map_len ws..<96] = []"
    using map_len_covers [OF assms] by (fastforce simp: filter_empty_conv)
  ultimately show ?thesis by (simp add: bitmap_ids_def)
qed

lemma filter_upt_sorted_list:
  assumes "sorted ids" "distinct ids" "set ids = {a. a < n \<and> P a}"
  shows "filter P [0..<n] = ids"
  using assms by (intro sorted_distinct_set_unique) (auto simp: sorted_wrt_filter)

lemma bitmap_ids_foldl:
  assumes "sorted ids" "distinct ids" "\<forall>a \<in> set ids. a < 96" "ws = foldl set_bit_in (replicate 3 0) ids"
  shows "bitmap_ids \<lparr> bm_len = map_len ws, bm_map = ws \<rparr> = ids"
proof -
  have "set ids = {a. a < 96 \<and> has_bit ws a}"
    using assms has_bit_foldl [of "replicate 3 0" ids] by auto
  with assms show ?thesis by (simp add: bitmap_ids_words filter_upt_sorted_list)
qed

section \<open>Attribute updates on the wire\<close>

text \<open>The attributes an update sends, with the XDR encoding of each value alone.\<close>

definition identity_value :: "nat \<Rightarrow> wire" where
  "identity_value n = pad4 (be_bytes 4 (length (decimal n)) @ text_wire (decimal n))"

definition setattr_rows ::
  "nat option \<Rightarrow> nat option \<Rightarrow> nat option \<times> nat option \<Rightarrow> (int \<times> nat) option \<Rightarrow> (int \<times> nat) option
     \<Rightarrow> (nat \<times> wire) list" where
  "setattr_rows mode fsize ownership atime mtime =
     concat (map (\<lambda>(a, v). case v of None \<Rightarrow> [] | Some w \<Rightarrow> [(a, w)])
       [(FATTR4_SIZE, map_option (be_bytes 8) fsize),
        (FATTR4_MODE, map_option (be_bytes 4) mode),
        (FATTR4_OWNER, map_option identity_value (fst ownership)),
        (FATTR4_OWNER_GROUP, map_option identity_value (snd ownership)),
        (FATTR4_TIME_ACCESS_SET, map_option time_value atime),
        (FATTR4_TIME_MODIFY_SET, map_option time_value mtime)])"

definition rows_acc :: "attr_acc \<Rightarrow> (nat \<times> wire) list \<Rightarrow> attr_acc" where
  "rows_acc acc rows = (foldl set_bit_in (fst acc) (map fst rows), snd acc @ concat (map snd rows))"

lemma pad4_aligned: "length xs mod 4 = 0 \<Longrightarrow> pad4 (xs @ ys) = xs @ pad4 ys"
proof -
  assume "length xs mod 4 = 0"
  then obtain k where k: "length xs = 4 * k" by (auto simp flip: dvd_eq_mod_eq_0)
  have "(4 * k + length ys + 3) div 4 * 4 = 4 * k + (length ys + 3) div 4 * 4" by presburger
  with k show ?thesis by (simp add: pad4_def)
qed

lemma pad4_mod [simp]: "length (pad4 xs) mod 4 = 0"
proof -
  have "length xs \<le> (length xs + 3) div 4 * 4" by presburger
  then show ?thesis by (simp add: pad4_def)
qed

lemma rows_acc_Nil [simp]: "rows_acc acc [] = acc"
  by (simp add: rows_acc_def)

lemma rows_acc_append: "rows_acc (rows_acc acc rows) rows' = rows_acc acc (rows @ rows')"
  by (simp add: rows_acc_def)

lemma put_option_rows:
  "put_option acc a v = rows_acc acc (case v of None \<Rightarrow> [] | Some w \<Rightarrow> [(a, w)])"
  by (simp add: put_option_def put_attr_def rows_acc_def split: option.split)

lemma put_identity_rows:
  assumes "length (snd acc) mod 4 = 0"
  shows "put_identity acc (a, v) =
    rows_acc acc (case map_option identity_value v of None \<Rightarrow> [] | Some w \<Rightarrow> [(a, w)])"
  using assms pad4_aligned [OF assms]
  by (simp add: put_identity_def put_attr_def rows_acc_def identity_value_def Let_def split: option.split)

definition acc_aligned :: "attr_acc \<Rightarrow> bool" where
  "acc_aligned acc \<longleftrightarrow> length (snd acc) mod 4 = 0"

lemma acc_aligned_put [simp]:
  "acc_aligned acc \<Longrightarrow> acc_aligned (put_option acc FATTR4_SIZE (map_option (be_bytes 8) s))"
  "acc_aligned acc \<Longrightarrow> acc_aligned (put_option acc FATTR4_MODE (map_option (be_bytes 4) m))"
  "acc_aligned acc \<Longrightarrow> acc_aligned (put_identity acc (a, v))"
  by (auto simp: acc_aligned_def put_option_def put_attr_def put_identity_def Let_def mod_add_left_eq
      split: option.split)

lemma setattr_fattr_rows:
  "setattr_fattr mode fsize ownership atime mtime =
     (let acc = rows_acc (replicate 3 0, []) (setattr_rows mode fsize ownership atime mtime)
      in \<lparr> fa_mask = \<lparr> bm_len = map_len (fst acc), bm_map = fst acc \<rparr>, fa_vals = snd acc \<rparr>)"
proof -
  let ?a2 = "put_option (put_option (replicate 3 0, []) FATTR4_SIZE (map_option (be_bytes 8) fsize))
      FATTR4_MODE (map_option (be_bytes 4) mode)"
  have "acc_aligned ?a2" by (intro acc_aligned_put) (simp add: acc_aligned_def)
  then have "acc_aligned (put_identity ?a2 (FATTR4_OWNER, fst ownership))" by simp
  note rows = put_identity_rows [OF \<open>acc_aligned ?a2\<close> [unfolded acc_aligned_def], of FATTR4_OWNER "fst ownership"]
    put_identity_rows [OF this [unfolded acc_aligned_def], of FATTR4_OWNER_GROUP "snd ownership"]
  show ?thesis
    unfolding setattr_fattr_def setattr_rows_def Let_def foldl_Cons foldl_Nil
    unfolding rows(2) unfolding rows(1)
    by (simp only: put_option_rows rows_acc_append list.map concat.simps prod.case append_assoc append_Nil2)
qed

lemma option_rows_ids:
  "map fst (concat (map (\<lambda>(a, v). case v of None \<Rightarrow> [] | Some w \<Rightarrow> [(a, w)]) xs)) =
     map fst (filter (\<lambda>(a, v). v \<noteq> None) xs)"
  by (induction xs) (auto split: option.split)

lemma ball_map_filter: "\<forall>a \<in> set (map f xs). Q a \<Longrightarrow> \<forall>a \<in> set (map f (filter P xs)). Q a"
  by auto

lemma setattr_rows_sorted:
  "sorted (map fst (setattr_rows mode fsize ownership atime mtime)) \<and>
   distinct (map fst (setattr_rows mode fsize ownership atime mtime)) \<and>
   (\<forall>a \<in> set (map fst (setattr_rows mode fsize ownership atime mtime)). a < 96)"
proof -
  let ?rows = "[(FATTR4_SIZE, map_option (be_bytes 8) fsize), (FATTR4_MODE, map_option (be_bytes 4) mode),
      (FATTR4_OWNER, map_option identity_value (fst ownership)),
      (FATTR4_OWNER_GROUP, map_option identity_value (snd ownership)),
      (FATTR4_TIME_ACCESS_SET, map_option time_value atime),
      (FATTR4_TIME_MODIFY_SET, map_option time_value mtime)]"
  have all: "sorted (map fst ?rows)" "distinct (map fst ?rows)" "\<forall>a \<in> set (map fst ?rows). a < 96"
    by (simp_all add: fattr_defs)
  show ?thesis
    unfolding setattr_rows_def option_rows_ids
    by (intro conjI sorted_filter [OF all(1)] distinct_map_filter [OF all(2)] ball_map_filter [OF all(3)])
qed

lemma bitmap_roundtrip:
  "sorted ids \<Longrightarrow> distinct ids \<Longrightarrow> \<forall>a \<in> set ids. a < 96 \<Longrightarrow> bitmap_ids (bitmap ids) = ids"
  unfolding bitmap_def Let_def by (rule bitmap_ids_foldl) auto

section \<open>Properties\<close>

text \<open>C15 (the size preflight is exact).  For any request the client can have built, any
  cached answers included, the preflight ends and answers with the true encoded
  size exactly when that size fits the limit rounded down to whole words; it
  leaves the operations alone.\<close>

theorem encoded_len_preflight:
  assumes "xdr_encoder encode sz" "built encode c"
  shows "\<exists>c'. encoded_len_up_to encode c limit = Some (c', preflight sz c limit) \<and>
    cp_ops c' = cp_ops c \<and> cp_tag c' = cp_tag c"
  using encoded_len_exact [OF assms(1) built_cache_ok [OF assms]] by blast

theorem encoded_len_preflight_witness:
  "\<exists>c'. encoded_len_up_to
        (\<lambda>_ tag ops cap. if 12 + length tag + 4 * length ops \<le> cap
           then Some (12 + length tag + 4 * length ops) else None)
        (c_putrootfh compound_new) 1000
      = Some (c', Some 16) \<and> cp_ops c' = [A_PutRootFh]"
proof -
  let ?sz = "\<lambda>(tag :: bytes) (ops :: nfs_argop4 list). 12 + length tag + 4 * length ops"
  let ?enc = "\<lambda>(_ :: nat) tag ops cap. if ?sz tag ops \<le> cap then Some (?sz tag ops) else None"
  have "xdr_encoder ?enc ?sz" by (simp add: xdr_encoder_def)
  moreover have "built ?enc (c_putrootfh compound_new)"
    unfolding c_putrootfh_def by (intro built.intros)
  ultimately have "\<exists>c'. encoded_len_up_to ?enc (c_putrootfh compound_new) 1000 =
      Some (c', preflight ?sz (c_putrootfh compound_new) 1000) \<and>
      cp_ops c' = cp_ops (c_putrootfh compound_new) \<and> cp_tag c' = cp_tag (c_putrootfh compound_new)"
    by (rule encoded_len_preflight)
  then show ?thesis
    by (auto simp: preflight_def aligned_limit_def c_putrootfh_def push_def compound_new_def u32_max_def)
qed

text \<open>C16 (attribute updates on the wire).  The bitmap of a SETATTR names exactly the
  requested attributes and the value list is the concatenation of their
  encodings in ascending order of attribute numbers, whatever subset is
  requested; the operation is appended to the request.\<close>

theorem setattr_wire_order:
  "\<exists>f. cp_ops (c_setattr_ownership c mode fsize ownership atime mtime sid) = cp_ops c @ [A_Setattr sid f] \<and>
     bitmap_ids (fa_mask f) = map fst (setattr_rows mode fsize ownership atime mtime) \<and>
     fa_vals f = concat (map snd (setattr_rows mode fsize ownership atime mtime))"
proof -
  let ?rows = "setattr_rows mode fsize ownership atime mtime"
  let ?f = "setattr_fattr mode fsize ownership atime mtime"
  have "fa_vals ?f = concat (map snd ?rows)"
    by (simp add: setattr_fattr_rows rows_acc_def Let_def)
  moreover have "bitmap_ids (fa_mask ?f) = map fst ?rows"
    unfolding setattr_fattr_rows Let_def rows_acc_def fattr4.select_convs fst_conv
    using setattr_rows_sorted by (intro bitmap_ids_foldl) auto
  ultimately show ?thesis
    by (auto simp: c_setattr_ownership_def Let_def push_def keep_def)
qed

end
