(* ===== verification/Nfs_Effects.thy ===== *)
theory Nfs_Effects
  imports Vfs_Error
begin

text \<open>
  How the NFS client's methods are written: an operation takes the state it may
  change (the client, the connection and whatever the caller's closures write)
  and returns the new state with an outcome.  \<^verbatim>\<open>Done\<close> and \<^verbatim>\<open>Fail\<close> are the two
  sides of an \<^verbatim>\<open>RpcResult\<close>.  \<^verbatim>\<open>Stuck\<close> is what Rust gives no result for: a panic,
  a slice built from a null pointer, or a loop that never ends.

  \<^verbatim>\<open>try_op\<close> is the question mark of Rust, \<^verbatim>\<open>loop_op\<close> a \<^verbatim>\<open>while\<close> or \<^verbatim>\<open>loop\<close> whose
  body either continues with new loop variables or leaves with an outcome.
\<close>

section \<open>Operations\<close>

datatype 'a outcome = Done 'a | Fail RpcError | Stuck

type_synonym ('s, 'a) eff = "'s \<Rightarrow> 's \<times> 'a outcome"

definition ret :: "'a \<Rightarrow> ('s, 'a) eff" where
  "ret x s = (s, Done x)"

definition fail_with :: "RpcError \<Rightarrow> ('s, 'a) eff" where
  "fail_with e s = (s, Fail e)"

definition try_op :: "('s, 'a) eff \<Rightarrow> ('a \<Rightarrow> ('s, 'b) eff) \<Rightarrow> ('s, 'b) eff" where
  "try_op m k s =
     (case m s of
        (s', Done x) \<Rightarrow> k x s'
      | (s', Fail e) \<Rightarrow> (s', Fail e)
      | (s', Stuck) \<Rightarrow> (s', Stuck))"

definition map_err :: "(RpcError \<Rightarrow> RpcError) \<Rightarrow> ('s, 'a) eff \<Rightarrow> ('s, 'a) eff" where
  "map_err f m s = (case m s of (s', Fail e) \<Rightarrow> (s', Fail (f e)) | r \<Rightarrow> r)"

text \<open>A pure \<^verbatim>\<open>RpcResult\<close>, a value whose computation may panic, a read of the state
  and \<^verbatim>\<open>let _ = m\<close>.\<close>

definition of_sum :: "RpcError + 'a \<Rightarrow> ('s, 'a) eff" where
  "of_sum r s = (s, case r of Inl e \<Rightarrow> Fail e | Inr x \<Rightarrow> Done x)"

definition of_option :: "'a option \<Rightarrow> ('s, 'a) eff" where
  "of_option r s = (s, case r of None \<Rightarrow> Stuck | Some x \<Rightarrow> Done x)"

definition with_state :: "('s \<Rightarrow> ('s, 'a) eff) \<Rightarrow> ('s, 'a) eff" where
  "with_state f s = f s s"

definition modify :: "('s \<Rightarrow> 's) \<Rightarrow> ('s, unit) eff" where
  "modify f s = (f s, Done ())"

definition ignore :: "('s, 'a) eff \<Rightarrow> ('s, unit) eff" where
  "ignore m s = (case m s of (s', Stuck) \<Rightarrow> (s', Stuck) | (s', _) \<Rightarrow> (s', Done ()))"

text \<open>\<^verbatim>\<open>match m { Ok(x) => k(x), Err(e) => h(e) }\<close>\<close>

definition catch_op :: "('s, 'a) eff \<Rightarrow> (RpcError \<Rightarrow> ('s, 'b) eff) \<Rightarrow> ('a \<Rightarrow> ('s, 'b) eff) \<Rightarrow> ('s, 'b) eff" where
  "catch_op m h k s =
     (case m s of
        (s', Done x) \<Rightarrow> k x s'
      | (s', Fail e) \<Rightarrow> h e s'
      | (s', Stuck) \<Rightarrow> (s', Stuck))"

named_theorems eff_defs \<open>unfolding of the operation combinators\<close>

lemmas eff_basic [eff_defs] = ret_def fail_with_def of_sum_def of_option_def with_state_def modify_def

lemma try_op_cases:
  "try_op m k s = (s', r) \<longleftrightarrow>
     (\<exists>s1 x. m s = (s1, Done x) \<and> k x s1 = (s', r)) \<or>
     (\<exists>e. m s = (s', Fail e) \<and> r = Fail e) \<or>
     (m s = (s', Stuck) \<and> r = Stuck)"
  by (auto simp: try_op_def split: prod.splits outcome.splits)

lemma try_op_Done [elim_format]:
  "try_op m k s = (s', Done y) \<Longrightarrow> \<exists>s1 x. m s = (s1, Done x) \<and> k x s1 = (s', Done y)"
  by (auto simp: try_op_cases)

lemma try_op_ret [simp]: "try_op (ret x) k = k x"
  by (rule ext) (simp add: try_op_def ret_def)

lemma try_op_fail [simp]: "try_op (fail_with e) k = fail_with e"
  by (rule ext) (simp add: try_op_def fail_with_def)

lemma try_op_assoc: "try_op (try_op m k) h = try_op m (\<lambda>x. try_op (k x) h)"
  by (rule ext) (auto simp: try_op_def split: prod.splits outcome.splits)

section \<open>Loops\<close>

datatype ('l, 'r) ctl = Again 'l | Leave_Loop 'r

partial_function (option) loop_run ::
  "('l \<Rightarrow> 's \<Rightarrow> 's \<times> ('l, 'r) ctl) \<Rightarrow> 'l \<Rightarrow> 's \<Rightarrow> ('s \<times> 'r) option" where
  "loop_run body l s =
     (case body l s of
        (s', Again l') \<Rightarrow> loop_run body l' s'
      | (s', Leave_Loop r) \<Rightarrow> Some (s', r))"

definition loop_op ::
  "('l \<Rightarrow> 's \<Rightarrow> 's \<times> ('l, 'a outcome) ctl) \<Rightarrow> 'l \<Rightarrow> ('s, 'a) eff" where
  "loop_op body l s = (case loop_run body l s of None \<Rightarrow> (s, Stuck) | Some r \<Rightarrow> r)"

text \<open>Leaving a loop body with the outcome of an operation, and its question mark.\<close>

definition leave_with :: "('s, 'a) eff \<Rightarrow> 's \<Rightarrow> 's \<times> ('l, 'a outcome) ctl" where
  "leave_with m s = (case m s of (s', r) \<Rightarrow> (s', Leave_Loop r))"

definition try_in ::
  "('s, 'a) eff \<Rightarrow> ('a \<Rightarrow> 's \<Rightarrow> 's \<times> ('l, 'b outcome) ctl) \<Rightarrow> 's \<Rightarrow> 's \<times> ('l, 'b outcome) ctl" where
  "try_in m k s =
     (case m s of
        (s', Done x) \<Rightarrow> k x s'
      | (s', Fail e) \<Rightarrow> (s', Leave_Loop (Fail e))
      | (s', Stuck) \<Rightarrow> (s', Leave_Loop Stuck))"

definition again :: "'l \<Rightarrow> 's \<Rightarrow> 's \<times> ('l, 'r) ctl" where
  "again l s = (s, Again l)"

lemmas loop_defs [eff_defs] = leave_with_def again_def

lemma try_in_Again [simp]:
  "try_in m k s = (s', Again l) \<longleftrightarrow> (\<exists>s1 x. m s = (s1, Done x) \<and> k x s1 = (s', Again l))"
  by (auto simp: try_in_def split: prod.splits outcome.splits)

lemma leave_with_Again [simp]: "leave_with m s \<noteq> (s', Again l)"
  by (simp add: leave_with_def split: prod.splits)

lemma leave_with_Leave [simp]: "leave_with m s = (s', Leave_Loop r) \<longleftrightarrow> m s = (s', r)"
  by (simp add: leave_with_def split: prod.splits)

lemma try_in_Leave:
  "try_in m k s = (s', Leave_Loop r) \<longleftrightarrow>
     (\<exists>s1 x. m s = (s1, Done x) \<and> k x s1 = (s', Leave_Loop r)) \<or>
     (\<exists>e. m s = (s', Fail e) \<and> r = Fail e) \<or>
     (m s = (s', Stuck) \<and> r = Stuck)"
  by (auto simp: try_in_def split: prod.splits outcome.splits)

text \<open>A loop ends if a measure decreases at every further iteration, under an
  invariant of the loop variables and the state.\<close>

theorem loop_run_terminates:
  assumes inv: "I l s"
    and step: "\<And>l s l' s'. I l s \<Longrightarrow> body l s = (s', Again l') \<Longrightarrow>
      I l' s' \<and> ((l', s'), (l, s)) \<in> R"
    and wf: "wf R"
  shows "\<exists>s' r. loop_run body l s = Some (s', r)"
proof -
  have "I l s \<longrightarrow> (\<exists>s' r. loop_run body l s = Some (s', r))" for l s
  proof (induction "(l, s)" arbitrary: l s rule: wf_induct_rule [OF wf])
    case (1 l s)
    show ?case
    proof
      assume "I l s"
      obtain s' c where b: "body l s = (s', c)" by fastforce
      show "\<exists>s' r. loop_run body l s = Some (s', r)"
      proof (cases c)
        case (Again l')
        with b step [OF \<open>I l s\<close>] 1 show ?thesis by (subst loop_run.simps) force
      next
        case (Leave_Loop r)
        with b show ?thesis by (subst loop_run.simps) force
      qed
    qed
  qed
  then show ?thesis using inv by blast
qed

text \<open>What every iteration keeps holds when the loop leaves.\<close>

theorem loop_run_invariant:
  assumes run: "loop_run body l s = Some (s', r)"
    and inv: "I l s"
    and step: "\<And>l s l' s'. I l s \<Longrightarrow> body l s = (s', Again l') \<Longrightarrow> I l' s'"
    and leave: "\<And>l s s' r. I l s \<Longrightarrow> body l s = (s', Leave_Loop r) \<Longrightarrow> Q s' r"
  shows "Q s' r"
proof -
  have "b = body \<longrightarrow> I l s \<longrightarrow> Q (fst y) (snd y)" if "loop_run b l s = Some y" for b l s y
  proof (rule loop_run.raw_induct [OF _ that], intro impI)
    fix run b l s y
    assume IH: "\<And>b l s y. run b l s = Some y \<Longrightarrow> b = body \<longrightarrow> I l s \<longrightarrow> Q (fst y) (snd y)"
      and y: "(case b l s of (s', Again l') \<Rightarrow> run b l' s' | (s', Leave_Loop r) \<Rightarrow> Some (s', r)) = Some y"
      and "b = body" "I l s"
    obtain s1 c where b: "body l s = (s1, c)" by fastforce
    show "Q (fst y) (snd y)"
    proof (cases c)
      case (Again l')
      with y b \<open>b = body\<close> step [OF \<open>I l s\<close>] IH [of body l' s1 y] show ?thesis by simp
    next
      case (Leave_Loop r)
      with y b \<open>b = body\<close> leave [OF \<open>I l s\<close>] show ?thesis by auto
    qed
  qed
  from this [OF run] inv show ?thesis by simp
qed

text \<open>Total correctness of a loop.\<close>

theorem loop_op_rule:
  assumes start: "I l s"
    and more: "\<And>l s l' s'. I l s \<Longrightarrow> body l s = (s', Again l') \<Longrightarrow> I l' s' \<and> ((l', s'), (l, s)) \<in> R"
    and leave: "\<And>l s s' r. I l s \<Longrightarrow> body l s = (s', Leave_Loop r) \<Longrightarrow> Q s' r" and wf: "wf R"
  shows "Q (fst (loop_op body l s)) (snd (loop_op body l s))"
proof -
  from loop_run_terminates [of I, OF start more wf]
  obtain s' r where run: "loop_run body l s = Some (s', r)" by blast
  have "Q s' r" by (rule loop_run_invariant [OF run, of I, OF start]) (use more leave in blast)+
  then show ?thesis by (simp add: loop_op_def run)
qed

section \<open>What every operation keeps\<close>

text \<open>A relation between the state before and the state after that holds of every
  step holds of everything composed of such steps.\<close>

lemma fst_unchanged [simp]:
  "fst (map_err f m s) = fst (m s)"
  "fst (ignore m s) = fst (m s)"
  "fst (leave_with m s) = fst (m s)"
  by (simp_all add: map_err_def ignore_def leave_with_def split: prod.split outcome.split)

definition keeps :: "('s \<Rightarrow> 's \<Rightarrow> bool) \<Rightarrow> ('s \<Rightarrow> 's \<times> 'x) \<Rightarrow> bool" where
  "keeps R m \<longleftrightarrow> (\<forall>s. R s (fst (m s)))"

lemma keepsD: "keeps R m \<Longrightarrow> m s = (s', r) \<Longrightarrow> R s s'"
  unfolding keeps_def by (metis fst_conv)

lemma keeps_with_state: "(\<And>x. keeps R (f x)) \<Longrightarrow> keeps R (with_state f)"
  by (simp add: keeps_def with_state_def)

lemma keeps_modify: "(\<And>s. R s (f s)) \<Longrightarrow> keeps R (modify f)"
  by (simp add: keeps_def modify_def)

lemma keeps_map_err: "keeps R m \<Longrightarrow> keeps R (map_err f m)"
  by (simp add: keeps_def)

lemma keeps_ignore: "keeps R m \<Longrightarrow> keeps R (ignore m)"
  by (simp add: keeps_def)

lemma keeps_leave_with: "keeps R m \<Longrightarrow> keeps R (leave_with m)"
  by (simp add: keeps_def)

locale step_order =
  fixes R :: "'s \<Rightarrow> 's \<Rightarrow> bool"
  assumes refl: "R s s"
    and trans: "R s t \<Longrightarrow> R t u \<Longrightarrow> R s u"
begin

lemma ret: "keeps R (ret x)"
  and fail_with: "keeps R (fail_with e)"
  and of_sum: "keeps R (of_sum v)"
  and of_option: "keeps R (of_option opt)"
  and again: "keeps R (again l)"
  by (simp_all add: keeps_def ret_def fail_with_def of_sum_def of_option_def again_def refl)

lemma try_op:
  assumes "keeps R m" "\<And>x. keeps R (k x)"
  shows "keeps R (try_op m k)"
  unfolding keeps_def
proof
  fix s
  obtain s1 r where m: "m s = (s1, r)" by fastforce
  with assms(1) have "R s s1" by (rule keepsD)
  then show "R s (fst (try_op m k s))"
    using m assms(2-) [unfolded keeps_def] trans by (cases r) (auto simp: try_op_def)
qed

lemma catch_op:
  assumes "keeps R m" "\<And>e. keeps R (h e)" "\<And>x. keeps R (k x)"
  shows "keeps R (catch_op m h k)"
  unfolding keeps_def
proof
  fix s
  obtain s1 r where m: "m s = (s1, r)" by fastforce
  with assms(1) have "R s s1" by (rule keepsD)
  then show "R s (fst (catch_op m h k s))"
    using m assms(2-) [unfolded keeps_def] trans by (cases r) (auto simp: catch_op_def)
qed

lemma try_in:
  assumes "keeps R m" "\<And>x. keeps R (k x)"
  shows "keeps R (try_in m k)"
  unfolding keeps_def
proof
  fix s
  obtain s1 r where m: "m s = (s1, r)" by fastforce
  with assms(1) have "R s s1" by (rule keepsD)
  then show "R s (fst (try_in m k s))"
    using m assms(2-) [unfolded keeps_def] trans by (cases r) (auto simp: try_in_def)
qed

lemma loop_op:
  assumes "\<And>l. keeps R (body l)"
  shows "keeps R (loop_op body l)"
  unfolding keeps_def
proof
  fix s
  show "R s (fst (loop_op body l s))"
  proof (cases "loop_run body l s")
    case (Some y)
    obtain s' r where y: "y = (s', r)" by fastforce
    have "R s s'"
    proof (rule loop_run_invariant [where I = "\<lambda>l t. R s t" and Q = "\<lambda>t r. R s t"])
      show "loop_run body l s = Some (s', r)" using Some y by simp
      show "R s s" by (rule refl)
      show "R s t'" if "R s t" "body l t = (t', Again l')" for l t l' t'
        using that(1) keepsD [OF assms that(2)] by (rule trans)
      show "R s t'" if "R s t" "body l t = (t', Leave_Loop r)" for l t t' r
        using that(1) keepsD [OF assms that(2)] by (rule trans)
    qed
    with Some y show ?thesis by (simp add: loop_op_def)
  qed (simp add: loop_op_def refl)
qed

lemmas step_intros = ret fail_with of_sum of_option again try_op catch_op try_in loop_op
  keeps_with_state keeps_map_err keeps_ignore keeps_leave_with

end

end
