(* ===== verification/Nfs_Reply.thy ===== *)
theory Nfs_Reply
  imports Nfs_Compound Nfs_Effects
begin

text \<open>
  COMPOUND replies: the second half of \<^verbatim>\<open>crates/vfsi-nfs/src/compound.rs\<close>.

  A decoded operation carries its operation number, its status and the body the
  XDR decoder selected for it.  \<^verbatim>\<open>validate_response_ops\<close> is run on every reply
  before anything else looks at it; the typed accessors assert the operation
  number and the success status and are \<^verbatim>\<open>None\<close> where the code would panic or
  build a slice from a null pointer.  The theory interprets the planner's
  contract \<^verbatim>\<open>reply_source\<close> for the replies that pass the validation.
\<close>

section \<open>Decoded replies\<close>

type_synonym 'a var_field = "nat \<times> 'a list option"

record entry4 =
  en_cookie :: nat
  en_name :: "char var_field"
  en_attrs :: "8 word var_field"

datatype resbody =
    B_None
  | B_Fh "char var_field"
  | B_Open stateid4 bitmap4
  | B_Read bool "char var_field"
  | B_Write nat nat
  | B_Copy nat
  | B_Link "char var_field"
  | B_Attr bitmap4 "8 word var_field"
  | B_Dir "entry4 list" bool
  | B_ExchangeId nat nat nat
  | B_CreateSession sessionid4 channel_attrs4

record nfs_resop4 =
  ro_op :: nat
  ro_status :: nat
  ro_body :: resbody

record CompoundRes =
  cr_status :: nat
  cr_len :: nat
  cr_ops :: "nfs_resop4 list option"

text \<open>The operations whose replies are understood.\<close>

definition supported_ops :: "nat list" where
  "supported_ops =
     [NFS4_OP_PUTFH, NFS4_OP_PUTROOTFH, NFS4_OP_GETFH, NFS4_OP_LOOKUP, NFS4_OP_SEQUENCE,
      NFS4_OP_NVERIFY, NFS4_OP_OPEN, NFS4_OP_READ, NFS4_OP_WRITE, NFS4_OP_COPY, NFS4_OP_CLOSE,
      NFS4_OP_EXCHANGE_ID, NFS4_OP_CREATE_SESSION, NFS4_OP_BIND_CONN_TO_SESSION,
      NFS4_OP_RECLAIM_COMPLETE, NFS4_OP_CREATE, NFS4_OP_READLINK, NFS4_OP_GETATTR,
      NFS4_OP_SETATTR, NFS4_OP_READDIR, NFS4_OP_REMOVE, NFS4_OP_RENAME, NFS4_OP_LINK,
      NFS4_OP_SAVEFH, NFS4_OP_RESTOREFH, NFS4_OP_LOOKUPP, NFS4_OP_DESTROY_SESSION,
      NFS4_OP_DESTROY_CLIENTID]"

definition response_op_status :: "nfs_resop4 \<Rightarrow> nat" where
  "response_op_status ro = (if ro_op ro \<in> set supported_ops then ro_status ro else u32_max)"

definition null_field :: "'a var_field \<Rightarrow> bool" where
  "null_field v \<longleftrightarrow> fst v \<noteq> 0 \<and> snd v = None"

definition null_payload :: "nfs_resop4 \<Rightarrow> bool" where
  "null_payload ro =
     (ro_status ro = NFS_OK \<and>
      (case ro_body ro of
         B_Fh v \<Rightarrow> ro_op ro = NFS4_OP_GETFH \<and> null_field v
       | B_Read _ v \<Rightarrow> ro_op ro = NFS4_OP_READ \<and> null_field v
       | B_Link v \<Rightarrow> ro_op ro = NFS4_OP_READLINK \<and> null_field v
       | B_Attr _ v \<Rightarrow> ro_op ro = NFS4_OP_GETATTR \<and> null_field v
       | _ \<Rightarrow> False))"

definition malformed :: "string \<Rightarrow> RpcError" where
  "malformed what = rpc_transport_with_kind InvalidReply (''malformed NFS COMPOUND reply: '' @ what)"

definition nth_op :: "CompoundRes \<Rightarrow> nat \<Rightarrow> nfs_resop4" where
  "nth_op res i = the (cr_ops res) ! i"

definition validate_op :: "nfs_argop4 list \<Rightarrow> CompoundRes \<Rightarrow> nat \<Rightarrow> RpcError + unit" where
  "validate_op request res index =
     (let actual = nth_op res index;
          status = response_op_status actual;
          expected = (if index + 1 = cr_len res then cr_status res else NFS_OK)
      in if ro_op actual \<noteq> argop (request ! index)
         then Inl (malformed (''operation '' @ decimal index @ '' is '' @ decimal (ro_op actual) @
                '', expected '' @ decimal (argop (request ! index))))
         else if status = u32_max
         then Inl (malformed (''operation '' @ decimal index @ '' has unsupported opcode '' @
                decimal (ro_op actual)))
         else if status \<noteq> expected
         then Inl (malformed (''operation '' @ decimal index @ '' status '' @ decimal status @
                '' does not match compound status '' @ decimal (cr_status res)))
         else if null_payload actual
         then Inl (malformed (''operation '' @ decimal index @ '' has a null payload pointer''))
         else Inr ())"

fun validate_from :: "nfs_argop4 list \<Rightarrow> CompoundRes \<Rightarrow> nat list \<Rightarrow> RpcError + unit" where
  "validate_from request res [] = Inr ()"
| "validate_from request res (i # is) =
     (case validate_op request res i of Inl e \<Rightarrow> Inl e | Inr _ \<Rightarrow> validate_from request res is)"

definition validate_response_ops :: "nfs_argop4 list \<Rightarrow> CompoundRes \<Rightarrow> RpcError + unit" where
  "validate_response_ops request res =
     (let count = cr_len res
      in if length request < count
         then Inl (malformed (''returned '' @ decimal count @ '' operations for '' @
                decimal (length request) @ '' requests''))
         else if count \<noteq> 0 \<and> cr_ops res = None
         then Inl (malformed ''non-empty operation array has a null pointer'')
         else if cr_status res = NFS_OK \<and> count \<noteq> length request
         then Inl (malformed (''successful reply returned '' @ decimal count @ '' operations for '' @
                decimal (length request) @ '' requests''))
         else validate_from request res [0..<count])"

section \<open>Accessors\<close>

definition res_nops :: "CompoundRes \<Rightarrow> nat" where
  "res_nops res = cr_len res"

definition resop :: "CompoundRes \<Rightarrow> nat \<Rightarrow> nfs_resop4 option" where
  "resop res i =
     (if i < res_nops res then map_option (\<lambda>ops. ops ! i) (cr_ops res) else None)"

definition op_status :: "CompoundRes \<Rightarrow> nat \<Rightarrow> nat option" where
  "op_status res i = map_option response_op_status (resop res i)"

definition try_op_status :: "CompoundRes \<Rightarrow> nat \<Rightarrow> ('s, nat) eff" where
  "try_op_status res i =
     (if res_nops res \<le> i then fail_with (rpc_op (res_nops res - 1) (cr_status res))
      else of_option (op_status res i))"

definition expect_op :: "CompoundRes \<Rightarrow> nat \<Rightarrow> nat \<Rightarrow> nfs_resop4 option" where
  "expect_op res i want =
     (case resop res i of
        None \<Rightarrow> None
      | Some ro \<Rightarrow> if ro_op ro = want \<and> response_op_status ro = NFS_OK then Some ro else None)"

text \<open>The slice a variable-length field denotes; a null pointer with a length is no
  slice.\<close>

definition field_slice :: "'a var_field \<Rightarrow> 'a list option" where
  "field_slice v = (if fst v = 0 then Some [] else snd v)"

definition r_exchange_id :: "CompoundRes \<Rightarrow> nat \<Rightarrow> (nat \<times> nat \<times> nat) option" where
  "r_exchange_id res i =
     (case expect_op res i NFS4_OP_EXCHANGE_ID of
        Some ro \<Rightarrow> (case ro_body ro of B_ExchangeId a b c \<Rightarrow> Some (a, b, c) | _ \<Rightarrow> None)
      | None \<Rightarrow> None)"

definition r_create_session :: "CompoundRes \<Rightarrow> nat \<Rightarrow> (sessionid4 \<times> channel_attrs4) option" where
  "r_create_session res i =
     (case expect_op res i NFS4_OP_CREATE_SESSION of
        Some ro \<Rightarrow> (case ro_body ro of B_CreateSession sid attrs \<Rightarrow> Some (sid, attrs) | _ \<Rightarrow> None)
      | None \<Rightarrow> None)"

definition r_getfh :: "CompoundRes \<Rightarrow> nat \<Rightarrow> bytes option" where
  "r_getfh res i =
     (case expect_op res i NFS4_OP_GETFH of
        Some ro \<Rightarrow> (case ro_body ro of B_Fh v \<Rightarrow> field_slice v | _ \<Rightarrow> None)
      | None \<Rightarrow> None)"

definition r_open :: "CompoundRes \<Rightarrow> nat \<Rightarrow> (stateid4 \<times> bitmap4) option" where
  "r_open res i =
     (case expect_op res i NFS4_OP_OPEN of
        Some ro \<Rightarrow> (case ro_body ro of B_Open sid attrset \<Rightarrow> Some (sid, attrset) | _ \<Rightarrow> None)
      | None \<Rightarrow> None)"

definition r_read :: "CompoundRes \<Rightarrow> nat \<Rightarrow> (bool \<times> nat) option" where
  "r_read res i =
     (case expect_op res i NFS4_OP_READ of
        Some ro \<Rightarrow> (case ro_body ro of B_Read eof v \<Rightarrow> Some (eof, fst v) | _ \<Rightarrow> None)
      | None \<Rightarrow> None)"

definition r_read_data :: "CompoundRes \<Rightarrow> nat \<Rightarrow> bytes option" where
  "r_read_data res i =
     (case expect_op res i NFS4_OP_READ of
        Some ro \<Rightarrow> (case ro_body ro of B_Read eof v \<Rightarrow> field_slice v | _ \<Rightarrow> None)
      | None \<Rightarrow> None)"

definition r_write :: "CompoundRes \<Rightarrow> nat \<Rightarrow> (nat \<times> nat) option" where
  "r_write res i =
     (case expect_op res i NFS4_OP_WRITE of
        Some ro \<Rightarrow> (case ro_body ro of B_Write count committed \<Rightarrow> Some (count, committed) | _ \<Rightarrow> None)
      | None \<Rightarrow> None)"

definition r_copy :: "CompoundRes \<Rightarrow> nat \<Rightarrow> nat option" where
  "r_copy res i =
     (case expect_op res i NFS4_OP_COPY of
        Some ro \<Rightarrow> (case ro_body ro of B_Copy count \<Rightarrow> Some count | _ \<Rightarrow> None)
      | None \<Rightarrow> None)"

definition r_readlink :: "CompoundRes \<Rightarrow> nat \<Rightarrow> bytes option" where
  "r_readlink res i =
     (case expect_op res i NFS4_OP_READLINK of
        Some ro \<Rightarrow> (case ro_body ro of B_Link v \<Rightarrow> field_slice v | _ \<Rightarrow> None)
      | None \<Rightarrow> None)"

definition r_getattr :: "CompoundRes \<Rightarrow> nat \<Rightarrow> wire option" where
  "r_getattr res i =
     (case expect_op res i NFS4_OP_GETATTR of
        Some ro \<Rightarrow> (case ro_body ro of B_Attr bm v \<Rightarrow> field_slice v | _ \<Rightarrow> None)
      | None \<Rightarrow> None)"

definition r_getattr_with_bitmap :: "CompoundRes \<Rightarrow> nat \<Rightarrow> (bitmap4 \<times> wire) option" where
  "r_getattr_with_bitmap res i =
     (case expect_op res i NFS4_OP_GETATTR of
        Some ro \<Rightarrow>
          (case ro_body ro of B_Attr bm v \<Rightarrow> map_option (Pair bm) (r_getattr res i) | _ \<Rightarrow> None)
      | None \<Rightarrow> None)"

definition r_readdir :: "CompoundRes \<Rightarrow> nat \<Rightarrow> (entry4 list \<times> bool) option" where
  "r_readdir res i =
     (case expect_op res i NFS4_OP_READDIR of
        Some ro \<Rightarrow> (case ro_body ro of B_Dir entries eof \<Rightarrow> Some (entries, eof) | _ \<Rightarrow> None)
      | None \<Rightarrow> None)"

text \<open>The reply as the planner sees it.\<close>

definition res_view :: "CompoundRes \<Rightarrow> reply_view" where
  "res_view res =
     \<lparr> rv_status = cr_status res, rv_nops = res_nops res,
       rv_op_status = (\<lambda>i. response_op_status (nth_op res i)) \<rparr>"

text \<open>\<^verbatim>\<open>for_each_open_result\<close>: the handles and stateids it visits.\<close>

definition open_at :: "CompoundRes \<Rightarrow> nat \<Rightarrow> nat \<Rightarrow> bool" where
  "open_at res e index \<longleftrightarrow>
     ro_op (nth_op res index) = NFS4_OP_OPEN \<and> index + 1 < e \<and> index + 1 < res_nops res \<and>
     ro_op (nth_op res (index + 1)) = NFS4_OP_GETFH"

fun collect_some :: "'a option list \<Rightarrow> 'a list option" where
  "collect_some [] = Some []"
| "collect_some (x # xs) =
     (case x of None \<Rightarrow> None | Some v \<Rightarrow> map_option (Cons v) (collect_some xs))"

definition open_result :: "CompoundRes \<Rightarrow> nat \<Rightarrow> (bytes \<times> stateid4) option" where
  "open_result res index =
     (case r_open res index of
        None \<Rightarrow> None
      | Some (sid, _) \<Rightarrow> map_option (\<lambda>fh. (fh, sid)) (r_getfh res (index + 1)))"

definition for_each_open_result ::
  "CompoundRes \<Rightarrow> (nat \<times> nat) list \<Rightarrow> (bytes \<times> stateid4) list option" where
  "for_each_open_result res ranges =
     collect_some (map (open_result res)
       (concat (map (\<lambda>(start, e). filter (open_at res e) [start..<min e (res_nops res)]) ranges)))"

section \<open>Sending a request\<close>

text \<open>\<^verbatim>\<open>rpc\<close> stands for the RPC library: it delivers a request and decodes the reply.\<close>

record 'w transport =
  tp_encode :: encoder
  tp_rpc :: "Compound \<Rightarrow> 'w \<Rightarrow> 'w \<times> (RpcError + CompoundRes)"

definition compound_call :: "'w transport \<Rightarrow> Compound \<Rightarrow> 'w \<Rightarrow> 'w \<times> (RpcError + CompoundRes)" where
  "compound_call tp c w =
     (case tp_rpc tp c w of
        (w', Inl e) \<Rightarrow> (w', Inl e)
      | (w', Inr res) \<Rightarrow>
          (case validate_response_ops (cp_ops c) res of
             Inl e \<Rightarrow> (w', Inl e)
           | Inr _ \<Rightarrow> (w', Inr res)))"

section \<open>What validation gives\<close>

lemma validate_from_Inr:
  "validate_from req res is = Inr u \<longleftrightarrow> (\<forall>i \<in> set is. validate_op req res i = Inr ())"
  by (induction "is") (auto split: sum.split)

definition accepts :: "nfs_argop4 list \<Rightarrow> CompoundRes \<Rightarrow> bool" where
  "accepts req res \<longleftrightarrow> validate_response_ops req res = Inr ()"

lemma accepts_iff:
  "accepts req res \<longleftrightarrow>
     cr_len res \<le> length req \<and> (cr_len res = 0 \<or> cr_ops res \<noteq> None) \<and>
     (cr_status res = NFS_OK \<longrightarrow> cr_len res = length req) \<and>
     (\<forall>i < cr_len res. validate_op req res i = Inr ())"
  by (auto simp: accepts_def validate_response_ops_def Let_def validate_from_Inr malformed_def not_less)

lemma validate_op_Inr:
  "validate_op req res i = Inr () \<longleftrightarrow>
     ro_op (nth_op res i) = argop (req ! i) \<and> response_op_status (nth_op res i) \<noteq> u32_max \<and>
     response_op_status (nth_op res i) = (if i + 1 = cr_len res then cr_status res else NFS_OK) \<and>
     \<not> null_payload (nth_op res i)"
  by (auto simp: validate_op_def Let_def)

lemma response_op_status_supported:
  "response_op_status ro \<noteq> u32_max \<Longrightarrow> response_op_status ro = ro_status ro"
  by (simp add: response_op_status_def split: if_splits)

lemma accepts_op:
  assumes "accepts req res" "i < res_nops res"
  shows "resop res i = Some (nth_op res i)" "ro_op (nth_op res i) = argop (req ! i)"
    "ro_status (nth_op res i) = response_op_status (nth_op res i)"
    "\<not> null_payload (nth_op res i)"
  using assms response_op_status_supported [of "nth_op res i"]
  by (auto simp: accepts_iff validate_op_Inr resop_def res_nops_def nth_op_def)

lemma accepts_status:
  "accepts req res \<Longrightarrow> i < res_nops res \<Longrightarrow>
     response_op_status (nth_op res i) = (if i + 1 = res_nops res then cr_status res else NFS_OK)"
  by (simp add: accepts_iff validate_op_Inr res_nops_def)

lemma accepts_wf:
  assumes "accepts req res" "0 < length req"
  shows "wf_reply (res_view res)"
  using assms by (auto simp: accepts_iff validate_op_Inr wf_reply_def res_view_def res_nops_def)

interpretation reply: reply_source accepts res_view length
proof unfold_locales
  show "wf_reply (res_view res)" if "accepts req res" "0 < length req" for req :: "nfs_argop4 list" and res
    using that by (rule accepts_wf)
qed (auto simp: accepts_iff res_view_def res_nops_def)

text \<open>What the XDR decoder guarantees: the body of a successful operation is the one of
  its operation number, and a pointer that is not null points to as many elements
  as the length says.\<close>

definition field_ok :: "'a var_field \<Rightarrow> bool" where
  "field_ok v \<longleftrightarrow> (case snd v of None \<Rightarrow> True | Some xs \<Rightarrow> length xs = fst v)"

definition entry_ok :: "entry4 \<Rightarrow> bool" where
  "entry_ok ent \<longleftrightarrow> field_slice (en_name ent) \<noteq> None \<and> field_slice (en_attrs ent) \<noteq> None"

definition decoded_op :: "nfs_resop4 \<Rightarrow> bool" where
  "decoded_op ro \<longleftrightarrow> ro_status ro = NFS_OK \<longrightarrow>
     (ro_op ro = NFS4_OP_GETFH \<longrightarrow> (\<exists>v. ro_body ro = B_Fh v \<and> field_ok v)) \<and>
     (ro_op ro = NFS4_OP_OPEN \<longrightarrow> (\<exists>sid bm. ro_body ro = B_Open sid bm)) \<and>
     (ro_op ro = NFS4_OP_READ \<longrightarrow> (\<exists>eof v. ro_body ro = B_Read eof v \<and> field_ok v)) \<and>
     (ro_op ro = NFS4_OP_WRITE \<longrightarrow> (\<exists>count com. ro_body ro = B_Write count com)) \<and>
     (ro_op ro = NFS4_OP_COPY \<longrightarrow> (\<exists>count. ro_body ro = B_Copy count)) \<and>
     (ro_op ro = NFS4_OP_READLINK \<longrightarrow> (\<exists>v. ro_body ro = B_Link v \<and> field_ok v)) \<and>
     (ro_op ro = NFS4_OP_GETATTR \<longrightarrow> (\<exists>bm v. ro_body ro = B_Attr bm v \<and> field_ok v)) \<and>
     (ro_op ro = NFS4_OP_READDIR \<longrightarrow> (\<exists>entries eof. ro_body ro = B_Dir entries eof \<and> list_all entry_ok entries)) \<and>
     (ro_op ro = NFS4_OP_EXCHANGE_ID \<longrightarrow> (\<exists>a b c. ro_body ro = B_ExchangeId a b c)) \<and>
     (ro_op ro = NFS4_OP_CREATE_SESSION \<longrightarrow> (\<exists>sid attrs. ro_body ro = B_CreateSession sid attrs))"

lemma decoded_op_body:
  assumes "decoded_op ro" "ro_status ro = NFS_OK"
  shows "ro_op ro = NFS4_OP_GETFH \<Longrightarrow> \<exists>v. ro_body ro = B_Fh v \<and> field_ok v"
    "ro_op ro = NFS4_OP_OPEN \<Longrightarrow> \<exists>sid bm. ro_body ro = B_Open sid bm"
    "ro_op ro = NFS4_OP_READ \<Longrightarrow> \<exists>eof v. ro_body ro = B_Read eof v \<and> field_ok v"
    "ro_op ro = NFS4_OP_WRITE \<Longrightarrow> \<exists>count com. ro_body ro = B_Write count com"
    "ro_op ro = NFS4_OP_COPY \<Longrightarrow> \<exists>count. ro_body ro = B_Copy count"
    "ro_op ro = NFS4_OP_READLINK \<Longrightarrow> \<exists>v. ro_body ro = B_Link v \<and> field_ok v"
    "ro_op ro = NFS4_OP_GETATTR \<Longrightarrow> \<exists>bm v. ro_body ro = B_Attr bm v \<and> field_ok v"
    "ro_op ro = NFS4_OP_READDIR \<Longrightarrow> \<exists>entries eof. ro_body ro = B_Dir entries eof \<and> list_all entry_ok entries"
    "ro_op ro = NFS4_OP_EXCHANGE_ID \<Longrightarrow> \<exists>a b c. ro_body ro = B_ExchangeId a b c"
    "ro_op ro = NFS4_OP_CREATE_SESSION \<Longrightarrow> \<exists>sid attrs. ro_body ro = B_CreateSession sid attrs"
  using assms unfolding decoded_op_def by blast+

definition decoded :: "CompoundRes \<Rightarrow> bool" where
  "decoded res \<longleftrightarrow> (\<forall>i < res_nops res. decoded_op (nth_op res i))"

lemma expect_op_accepts:
  assumes "accepts req res" "i < res_nops res" "response_op_status (nth_op res i) = NFS_OK"
    "argop (req ! i) = want"
  shows "expect_op res i want = Some (nth_op res i)"
  using assms accepts_op [OF assms(1,2)] by (simp add: expect_op_def)

lemma field_slice_ok:
  "field_ok v \<Longrightarrow> \<not> null_field v \<Longrightarrow> \<exists>xs. field_slice v = Some xs \<and> length xs = fst v"
  by (auto simp: field_slice_def null_field_def field_ok_def split: option.splits)

lemma collect_some_map:
  "\<forall>x \<in> set xs. \<exists>y. f x = Some y \<Longrightarrow> collect_some (map f xs) = Some (map (\<lambda>x. the (f x)) xs)"
  by (induction xs) auto

lemma open_positions:
  "i \<in> set (concat (map (\<lambda>(start, e). filter (open_at res e) [start..<min e n]) rs)) \<longleftrightarrow>
     (\<exists>s e. (s, e) \<in> set rs \<and> s \<le> i \<and> i < e \<and> i < n \<and> open_at res e i)"
  by (auto simp: case_prod_beta) (metis fst_conv snd_conv)+

lemma ordered_positions:
  "sorted_wrt (\<lambda>x y. snd x \<le> fst y) rs \<Longrightarrow>
     sorted_wrt (<) (concat (map (\<lambda>(start, e). filter (P e) [start..<min e (n::nat)]) rs))"
proof (induction rs)
  case (Cons r rs)
  then show ?case by (cases r) (fastforce simp: sorted_wrt_append intro: sorted_wrt_filter)
qed simp

lemma reply_ranges:
  assumes "sum_list (map snd items) < u64_max" "(c, s, e) \<in> set (em_ranges (build_map items))"
  shows "1 \<le> s \<and> s \<le> e \<and> e \<le> 1 + sum_list (map snd items)"
proof -
  have ranges: "em_ranges (build_map items) = layout 1 items"
    using assms(1) by (simp add: build_map_layout)
  have "e \<le> n + sum_list (map snd items)" if "(c, s, e) \<in> set (layout n items)" for n
    using that by (induction n items rule: layout.induct) auto
  from this [of 1] assms(2) layout_bounds [of c s e 1 items] show ?thesis by (auto simp: ranges)
qed

lemma open_result_accepted:
  assumes "accepts req res" "decoded res" "index + 1 < res_nops res"
    and "response_op_status (nth_op res index) = NFS_OK"
    and "response_op_status (nth_op res (index + 1)) = NFS_OK"
    and "ro_op (nth_op res index) = NFS4_OP_OPEN" "ro_op (nth_op res (index + 1)) = NFS4_OP_GETFH"
  shows "\<exists>fh sid. open_result res index = Some (fh, sid)"
proof -
  have lt: "index < res_nops res" "index + 1 < res_nops res" using assms(3) by simp_all
  note ok1 = accepts_op [OF assms(1) lt(1)] and ok2 = accepts_op [OF assms(1) lt(2)]
  have "expect_op res index NFS4_OP_OPEN = Some (nth_op res index)"
    "expect_op res (index + 1) NFS4_OP_GETFH = Some (nth_op res (index + 1))"
    using assms ok1 ok2 by (simp_all add: expect_op_def)
  moreover have "decoded_op (nth_op res index)" "decoded_op (nth_op res (index + 1))"
    using assms(2) lt by (simp_all add: decoded_def)
  moreover obtain v where v: "ro_body (nth_op res (index + 1)) = B_Fh v" "field_ok v"
    using decoded_op_body(1) [OF \<open>decoded_op (nth_op res (index + 1))\<close>] assms ok2 by metis
  moreover obtain sid bm where "ro_body (nth_op res index) = B_Open sid bm"
    using decoded_op_body(2) [OF \<open>decoded_op (nth_op res index)\<close>] assms ok1 by metis
  moreover have "\<not> null_field v" using ok2(3,4) v(1) assms(5,7) by (simp add: null_payload_def)
  ultimately show ?thesis
    using assms ok1 field_slice_ok [of v]
    by (auto simp: open_result_def r_open_def r_getfh_def)
qed

lemma accessors_total:
  assumes acc: "accepts req res" and "decoded res"
    and "op_status res i = Some NFS_OK"
  shows "i < length req \<and>
    (argop (req ! i) = NFS4_OP_GETFH \<longrightarrow> r_getfh res i \<noteq> None) \<and>
    (argop (req ! i) = NFS4_OP_OPEN \<longrightarrow> r_open res i \<noteq> None) \<and>
    (argop (req ! i) = NFS4_OP_READ \<longrightarrow>
       (\<exists>eof data. r_read res i = Some (eof, length data) \<and> r_read_data res i = Some data)) \<and>
    (argop (req ! i) = NFS4_OP_WRITE \<longrightarrow> r_write res i \<noteq> None) \<and>
    (argop (req ! i) = NFS4_OP_COPY \<longrightarrow> r_copy res i \<noteq> None) \<and>
    (argop (req ! i) = NFS4_OP_READLINK \<longrightarrow> r_readlink res i \<noteq> None) \<and>
    (argop (req ! i) = NFS4_OP_GETATTR \<longrightarrow> r_getattr res i \<noteq> None) \<and>
    (argop (req ! i) = NFS4_OP_READDIR \<longrightarrow>
       (\<exists>entries eof. r_readdir res i = Some (entries, eof) \<and> list_all entry_ok entries)) \<and>
    (argop (req ! i) = NFS4_OP_EXCHANGE_ID \<longrightarrow> r_exchange_id res i \<noteq> None) \<and>
    (argop (req ! i) = NFS4_OP_CREATE_SESSION \<longrightarrow> r_create_session res i \<noteq> None)"
proof -
  have i: "i < res_nops res" using assms(3) by (auto simp: op_status_def resop_def split: if_splits)
  note ok = accepts_op [OF acc i]
  have st: "response_op_status (nth_op res i) = NFS_OK" using assms(3) ok(1) by (simp add: op_status_def)
  have ex: "expect_op res i (argop (req ! i)) = Some (nth_op res i)"
    using expect_op_accepts [OF acc i st] by simp
  have dec: "decoded_op (nth_op res i)" using assms(2) i by (simp add: decoded_def)
  have len: "i < length req" using acc i by (auto simp: accepts_iff res_nops_def)
  have slice': "\<exists>xs. field_slice v = Some xs \<and> length xs = fst v"
    if "field_ok v" "\<not> null_field v" for v :: "8 word var_field"
    using that by (rule field_slice_ok)
  have slicec: "\<exists>xs. field_slice v = Some xs \<and> length xs = fst v"
    if "field_ok v" "\<not> null_field v" for v :: "char var_field"
    using that by (rule field_slice_ok)
  note facts = dec ok(2-4) st
  show ?thesis
  proof (intro conjI impI len)
    assume a: "argop (req ! i) = NFS4_OP_GETFH"
    then obtain v where "ro_body (nth_op res i) = B_Fh v" "field_ok v"
      using decoded_op_body [OF dec] facts by metis
    with slicec [of v] facts a ex show "r_getfh res i \<noteq> None" by (auto simp: r_getfh_def null_payload_def)
  next
    assume a: "argop (req ! i) = NFS4_OP_READ"
    then obtain eof v where "ro_body (nth_op res i) = B_Read eof v" "field_ok v"
      using decoded_op_body [OF dec] facts by metis
    with slicec [of v] facts a ex
    show "\<exists>eof data. r_read res i = Some (eof, length data) \<and> r_read_data res i = Some data"
      by (auto simp: r_read_def r_read_data_def null_payload_def)
  next
    assume a: "argop (req ! i) = NFS4_OP_READLINK"
    then obtain v where "ro_body (nth_op res i) = B_Link v" "field_ok v"
      using decoded_op_body [OF dec] facts by metis
    with slicec [of v] facts a ex show "r_readlink res i \<noteq> None" by (auto simp: r_readlink_def null_payload_def)
  next
    assume a: "argop (req ! i) = NFS4_OP_GETATTR"
    then obtain bm v where "ro_body (nth_op res i) = B_Attr bm v" "field_ok v"
      using decoded_op_body [OF dec] facts by metis
    with slice' [of v] facts a ex show "r_getattr res i \<noteq> None" by (auto simp: r_getattr_def null_payload_def)
  qed (use decoded_op_body(2,4,5,8,9,10) [OF dec] facts ex in \<open>force simp: r_open_def r_write_def r_copy_def r_readdir_def r_exchange_id_def r_create_session_def\<close>)+
qed

section \<open>Properties\<close>

text \<open>C6 (validated replies can be attributed).  Whatever the server sends, a reply that
  passes validation has the shape the planner needs: for a compound made of
  SEQUENCE and one group of operations per item, the analysis never rejects it.\<close>

theorem validated_reply_analyzed:
  assumes "validate_response_ops req res = Inr ()"
    and "length req = 1 + sum_list (map snd items)" "length req \<le> u64_max"
  shows "\<exists>report. analyze (build_map items) (res_view res) = Inr report"
proof (rule reply.analyze_accepted)
  show "accepts req res" using assms(1) by (simp add: accepts_def)
  show "0 < length req" using assms(2) by simp
  show "\<forall>(c, s, e) \<in> set (em_ranges (build_map items)). e \<le> length req"
    using reply_ranges [of items] assms(2,3) by fastforce
qed

theorem validated_reply_analyzed_witness:
  "\<exists>report. analyze (build_map [(0, 1)])
     (res_view \<lparr> cr_status = 2, cr_len = 2,
        cr_ops = Some [\<lparr> ro_op = 53, ro_status = 0, ro_body = B_None \<rparr>,
                       \<lparr> ro_op = 24, ro_status = 2, ro_body = B_None \<rparr>] \<rparr>) = Inr report"
  by (rule validated_reply_analyzed [of "[A_Sequence [] 1 0 0, A_PutRootFh]"])
     (simp_all add: validate_response_ops_def validate_op_def nth_op_def response_op_status_def
      supported_ops_def nfs_op_defs NFS_OK_def null_payload_def u32_max_def u64_max_def upt_rec)

text \<open>C17 (accessors cannot fail on validated replies).  In a validated reply, the typed
  accessor of an operation that reports success neither panics nor builds a
  slice from a null pointer, and READ data has the announced length.\<close>

theorem accessors_safe:
  assumes "validate_response_ops req res = Inr ()" "decoded res"
    and "op_status res i = Some NFS_OK"
  shows "i < length req \<and>
    (argop (req ! i) = NFS4_OP_GETFH \<longrightarrow> r_getfh res i \<noteq> None) \<and>
    (argop (req ! i) = NFS4_OP_OPEN \<longrightarrow> r_open res i \<noteq> None) \<and>
    (argop (req ! i) = NFS4_OP_READ \<longrightarrow>
       (\<exists>eof data. r_read res i = Some (eof, length data) \<and> r_read_data res i = Some data)) \<and>
    (argop (req ! i) = NFS4_OP_WRITE \<longrightarrow> r_write res i \<noteq> None) \<and>
    (argop (req ! i) = NFS4_OP_COPY \<longrightarrow> r_copy res i \<noteq> None) \<and>
    (argop (req ! i) = NFS4_OP_READLINK \<longrightarrow> r_readlink res i \<noteq> None) \<and>
    (argop (req ! i) = NFS4_OP_GETATTR \<longrightarrow> r_getattr res i \<noteq> None) \<and>
    (argop (req ! i) = NFS4_OP_READDIR \<longrightarrow>
       (\<exists>entries eof. r_readdir res i = Some (entries, eof) \<and> list_all entry_ok entries)) \<and>
    (argop (req ! i) = NFS4_OP_EXCHANGE_ID \<longrightarrow> r_exchange_id res i \<noteq> None) \<and>
    (argop (req ! i) = NFS4_OP_CREATE_SESSION \<longrightarrow> r_create_session res i \<noteq> None)"
  using assms by (intro accessors_total) (simp_all add: accepts_def)

theorem accessors_safe_witness:
  "r_getfh \<lparr> cr_status = 0, cr_len = 1,
     cr_ops = Some [\<lparr> ro_op = 10, ro_status = 0, ro_body = B_Fh (2, Some ''ab'') \<rparr>] \<rparr> 0 \<noteq> None"
  using accessors_safe [of "[A_GetFh]" "\<lparr> cr_status = 0, cr_len = 1,
     cr_ops = Some [\<lparr> ro_op = 10, ro_status = 0, ro_body = B_Fh (2, Some ''ab'') \<rparr>] \<rparr>" 0]
  by (simp add: validate_response_ops_def validate_op_def nth_op_def response_op_status_def
      supported_ops_def nfs_op_defs NFS_OK_def null_payload_def null_field_def u32_max_def
      decoded_def decoded_op_def res_nops_def field_ok_def op_status_def resop_def)

text \<open>C18 (every OPEN is found once).  Let a compound be built from items with distinct callers.  For
  any validated reply whose SEQUENCE succeeded, collecting the OPEN results of the
  executed ranges never fails; it visits in order, each exactly once, the OPENs that
  are followed by their GETFH in the same item and both succeeded, with the handle
  and the stateid of the reply, and nothing else.\<close>

theorem open_results_complete:
  assumes "validate_response_ops req res = Inr ()" "decoded res"
    and "analyze (build_map items) (res_view res) = Inr report" "distinct (map fst items)"
    and "1 + sum_list (map snd items) \<le> usize_max" "op_status res 0 = Some NFS_OK"
  shows "\<exists>positions vs. for_each_open_result res (executed_ranges (build_map items) report) = Some vs \<and>
    sorted_wrt (<) positions \<and>
    list_all2 (\<lambda>i (fh, sid). \<exists>bm. r_open res i = Some (sid, bm) \<and> r_getfh res (i + 1) = Some fh) positions vs \<and>
    (\<forall>i. i \<in> set positions \<longleftrightarrow>
       (\<exists>c s e. (c, s, e) \<in> set (em_ranges (build_map items)) \<and> s \<le> i \<and> i + 1 < e) \<and>
       op_status res i = Some NFS_OK \<and> op_status res (i + 1) = Some NFS_OK \<and>
       argop (req ! i) = NFS4_OP_OPEN \<and> argop (req ! (i + 1)) = NFS4_OP_GETFH)"
proof -
  let ?m = "build_map items" and ?ranges = "executed_ranges (build_map items) report"
  define xs where "xs = concat (map (\<lambda>(start, e). filter (open_at res e) [start..<min e (res_nops res)]) ?ranges)"
  have acc: "accepts req res" using assms(1) by (simp add: accepts_def)
  have layout: "em_ranges ?m = layout 1 items" using build_map_layout [OF assms(5)] by simp
  have dist: "distinct (map fst (em_ranges ?m))" using assms(4) by (simp add: layout)
  have st: "op_status res i = Some NFS_OK \<longleftrightarrow> i < res_nops res \<and> response_op_status (nth_op res i) = NFS_OK" for i
    using accepts_op(1) [OF acc, of i] by (cases "i < res_nops res") (auto simp: op_status_def resop_def)
  have ok: "op_status res i = Some NFS_OK" if "(s, e) \<in> set ?ranges" "s \<le> i" "i < e" for s e i
    using executed_range_op_ok [OF assms(3) dist that] by (simp add: res_view_def st)
  have found: "\<exists>fh sid. open_result res i = Some (fh, sid)" if "i \<in> set xs" for i
  proof -
    from that obtain s e where se: "(s, e) \<in> set ?ranges" "s \<le> i" "i < e" "open_at res e i"
      unfolding xs_def open_positions by blast
    then show ?thesis
      using ok [OF se(1), of i] ok [OF se(1), of "i + 1"] open_result_accepted [OF acc assms(2), of i]
      by (simp add: open_at_def st)
  qed
  have some: "for_each_open_result res ?ranges = Some (map (\<lambda>i. the (open_result res i)) xs)"
    unfolding for_each_open_result_def xs_def [symmetric] using found by (intro collect_some_map) blast
  have visited: "list_all2 (\<lambda>i (fh, sid). \<exists>bm. r_open res i = Some (sid, bm) \<and> r_getfh res (i + 1) = Some fh) xs
      (map (\<lambda>i. the (open_result res i)) xs)"
    using found by (fastforce simp: list_all2_map2 list_all2_same open_result_def split: option.splits)
  have "i \<in> set xs \<longleftrightarrow> (\<exists>c s e. (c, s, e) \<in> set (em_ranges ?m) \<and> s \<le> i \<and> i + 1 < e) \<and>
       op_status res i = Some NFS_OK \<and> op_status res (i + 1) = Some NFS_OK \<and>
       argop (req ! i) = NFS4_OP_OPEN \<and> argop (req ! (i + 1)) = NFS4_OP_GETFH" (is "_ \<longleftrightarrow> ?in \<and> ?ok") for i
  proof
    assume "i \<in> set xs"
    then obtain s e where se: "(s, e) \<in> set ?ranges" "s \<le> i" "i < e" "open_at res e i"
      unfolding xs_def open_positions by blast
    have both: "op_status res i = Some NFS_OK" "op_status res (i + 1) = Some NFS_OK"
      using ok [OF se(1)] se by (auto simp: open_at_def)
    moreover have ?in using executed_in_item [OF assms(3) dist se(1)] se(2,4) by (fastforce simp: open_at_def)
    ultimately show "?in \<and> ?ok" using se(4) accepts_op(2) [OF acc, of i] accepts_op(2) [OF acc, of "i + 1"]
      by (simp add: open_at_def st)
  next
    assume "?in \<and> ?ok"
    then obtain c s e where i: "(c, s, e) \<in> set (em_ranges ?m)" "s \<le> i" "i + 1 < e" and ?ok by blast
    have view: "rv_op_status (res_view res) 0 = NFS_OK" "i + 1 < rv_nops (res_view res)"
      "rv_op_status (res_view res) (i + 1) = NFS_OK" using assms(6) \<open>?ok\<close> by (simp_all add: res_view_def st)
    have "s \<le> i + 1" using i(2) by simp
    from executed_ranges_cover [OF assms(3) dist layout view(1) i(1) this i(3) view(2,3)]
    obtain e' where e': "(s, e') \<in> set ?ranges" "i + 1 < e'" by blast
    then have "open_at res e' i" using \<open>?ok\<close> accepts_op(2) [OF acc, of i] accepts_op(2) [OF acc, of "i + 1"]
      by (simp add: open_at_def st)
    then show "i \<in> set xs" unfolding xs_def open_positions using e' i(2) \<open>?ok\<close>
      by (intro exI [of _ s] exI [of _ e']) (simp add: st)
  qed
  moreover have "sorted_wrt (<) xs" unfolding xs_def by (rule ordered_positions [OF executed_ordered [OF assms(3) dist layout]])
  ultimately show ?thesis using some visited by blast
qed

theorem open_results_complete_witness:
  "\<exists>positions vs. for_each_open_result
     \<lparr> cr_status = 0, cr_len = 3, cr_ops = Some
         [\<lparr> ro_op = 53, ro_status = 0, ro_body = B_None \<rparr>,
          \<lparr> ro_op = 18, ro_status = 0, ro_body = B_Open zero_stateid (bitmap []) \<rparr>,
          \<lparr> ro_op = 10, ro_status = 0, ro_body = B_Fh (1, Some ''h'') \<rparr>] \<rparr> [(1, 3)] = Some vs \<and>
     (1::nat) \<in> set positions \<and> sorted_wrt (<) positions \<and> length vs = length positions"
proof -
  let ?res = "\<lparr> cr_status = 0, cr_len = 3, cr_ops = Some
         [\<lparr> ro_op = 53, ro_status = 0, ro_body = B_None \<rparr>,
          \<lparr> ro_op = 18, ro_status = 0, ro_body = B_Open zero_stateid (bitmap []) \<rparr>,
          \<lparr> ro_op = 10, ro_status = 0, ro_body = B_Fh (1, Some ''h'') \<rparr>] \<rparr>"
  let ?rep = "\<lparr> er_completed = [0], er_failure = None, er_unexecuted = [],
      er_compound_failure = None, er_compound_failure_op = None \<rparr>"
  let ?req = "[A_Sequence [] 1 0 0, A_Open undefined, A_GetFh]"
  have "validate_response_ops ?req ?res = Inr ()"
    by (simp add: validate_response_ops_def validate_op_def nth_op_def response_op_status_def
      supported_ops_def nfs_op_defs NFS_OK_def null_payload_def null_field_def u32_max_def upt_rec)
  moreover have "decoded ?res"
    by (auto simp: decoded_def decoded_op_def res_nops_def field_ok_def nfs_op_defs nth_op_def
        less_Suc_eq numeral_3_eq_3)
  moreover have "analyze (build_map [(0, 2)]) (res_view ?res) = Inr ?rep"
    by (simp add: build_map_def map_new_def map_begin_def map_note_ops_def map_end_def sat_add_def
      u64_max_def analyze_def NFS_OK_def upt_rec res_view_def res_nops_def nth_op_def
      response_op_status_def supported_ops_def nfs_op_defs)
  moreover have "op_status ?res 0 = Some NFS_OK"
    by (simp add: op_status_def resop_def res_nops_def response_op_status_def supported_ops_def nfs_op_defs NFS_OK_def)
  ultimately obtain positions vs where vs: "for_each_open_result ?res (executed_ranges (build_map [(0, 2)]) ?rep) = Some vs"
    "sorted_wrt (<) positions"
    "list_all2 (\<lambda>i (fh, sid). \<exists>bm. r_open ?res i = Some (sid, bm) \<and> r_getfh ?res (i + 1) = Some fh) positions vs"
    "\<forall>i. i \<in> set positions \<longleftrightarrow>
       (\<exists>c s e. (c, s, e) \<in> set (em_ranges (build_map [(0, 2)])) \<and> s \<le> i \<and> i + 1 < e) \<and>
       op_status ?res i = Some NFS_OK \<and> op_status ?res (i + 1) = Some NFS_OK \<and>
       argop (?req ! i) = NFS4_OP_OPEN \<and> argop (?req ! (i + 1)) = NFS4_OP_GETFH"
    using open_results_complete [of ?req ?res "[(0, 2)]" ?rep] by (auto simp: u64_max_def)
  note defs = build_map_def map_new_def map_begin_def map_note_ops_def map_end_def sat_add_def u64_max_def
  have one: "1 \<in> set positions" using vs(4)
    by (auto simp: defs op_status_def resop_def res_nops_def response_op_status_def supported_ops_def nfs_op_defs NFS_OK_def)
  have ex: "executed_ranges (build_map [(0, 2)]) ?rep = [(1, 3)]"
    by (simp add: executed_ranges_def completed_ranges_def defs)
  show ?thesis
    by (rule exI [of _ positions], rule exI [of _ vs], intro conjI)
      (rule vs(1) [unfolded ex] one vs(2) list_all2_lengthD [OF vs(3), symmetric])+
qed

end
