(* ===== verification/Nfs_Session.thy ===== *)
theory Nfs_Session
  imports Nfs_Reply
begin

text \<open>
  NFSv4.1 sessions: \<^verbatim>\<open>crates/vfsi-nfs/src/session.rs\<close>.

  A session is a record; its operations act on the session and the world behind
  the transport.  The verifier and the generated owner name, which the code
  draws from the clock, a counter and the process id, are arguments.  The
  connection itself is opened by the RPC library: \<^verbatim>\<open>session_connect\<close> is the
  handshake that follows.
\<close>

section \<open>State\<close>

record OpenOwner =
  oo_name :: bytes
  oo_seqid :: nat

record Session =
  se_clientid :: nat
  se_sessionid :: sessionid4
  se_minorversion :: nat
  se_slot_seqid :: nat
  se_create_session_seqid :: nat
  se_session_created :: bool
  se_owns_clientid :: bool
  se_poisoned :: bool
  se_max_requestsize :: nat
  se_max_responsesize :: nat
  se_max_operations :: nat
  se_open_owner :: OpenOwner
  se_path_owner :: OpenOwner
  se_client_owner :: "bytes option"

type_synonym 'w session_state = "Session \<times> 'w"

definition NFS4ERR_MINOR_VERS_MISMATCH :: nat where "NFS4ERR_MINOR_VERS_MISMATCH = 10021"
definition NFS4ERR_BADSESSION :: nat where "NFS4ERR_BADSESSION = 10052"
definition NFS4ERR_COMPLETE_ALREADY :: nat where "NFS4ERR_COMPLETE_ALREADY = 10054"
definition NFS4ERR_DEADSESSION :: nat where "NFS4ERR_DEADSESSION = 10078"

lemmas session_status = NFS4ERR_MINOR_VERS_MISMATCH_def NFS4ERR_BADSESSION_def
  NFS4ERR_COMPLETE_ALREADY_def NFS4ERR_DEADSESSION_def

text \<open>\<^verbatim>\<open>wrapping_add\<close> of a 32-bit unsigned integer.\<close>

definition wrap32_add :: "nat \<Rightarrow> nat \<Rightarrow> nat" where
  "wrap32_add a b = (a + b) mod 2 ^ 32"

section \<open>Negotiated parameters\<close>

definition fore_channel_attrs :: channel_attrs4 where
  "fore_channel_attrs =
     \<lparr> ca_headerpadsize = 0, ca_maxrequestsize = 4 * 1024 * 1024,
       ca_maxresponsesize = 4 * 1024 * 1024, ca_maxresponsesize_cached = 4 * 1024 * 1024,
       ca_maxoperations = 256, ca_maxrequests = 256 \<rparr>"

definition back_channel_attrs :: channel_attrs4 where
  "back_channel_attrs =
     \<lparr> ca_headerpadsize = 0, ca_maxrequestsize = 4 * 1024 * 1024,
       ca_maxresponsesize = 4 * 1024 * 1024, ca_maxresponsesize_cached = 4 * 1024 * 1024,
       ca_maxoperations = 2, ca_maxrequests = 1 \<rparr>"

definition create_session_args_with_sequence :: "nat \<Rightarrow> nat \<Rightarrow> CREATE_SESSION4args" where
  "create_session_args_with_sequence clientid sequence =
     \<lparr> csa_clientid = clientid, csa_sequence = sequence, csa_flags = 0,
       csa_fore_chan_attrs = fore_channel_attrs, csa_back_chan_attrs = back_channel_attrs,
       csa_cb_program = 0 \<rparr>"

definition PREFERRED_MINOR_VERSION :: nat where "PREFERRED_MINOR_VERSION = 2"
definition FALLBACK_MINOR_VERSION :: nat where "FALLBACK_MINOR_VERSION = 1"

definition negotiate_minor :: "(nat \<Rightarrow> ('s, 'a) eff) \<Rightarrow> ('s, 'a) eff" where
  "negotiate_minor attempt =
     catch_op (attempt PREFERRED_MINOR_VERSION)
       (\<lambda>e. if re_status e = NFS4ERR_MINOR_VERS_MISMATCH then attempt FALLBACK_MINOR_VERSION
            else fail_with e)
       ret"

section \<open>Sending\<close>

text \<open>\<^verbatim>\<open>c.call(&self.rpc)\<close>\<close>

definition raw_call :: "'w transport \<Rightarrow> Compound \<Rightarrow> ('w session_state, CompoundRes) eff" where
  "raw_call tp c st =
     (case compound_call tp c (snd st) of
        (w', Inl e) \<Rightarrow> ((fst st, w'), Fail e)
      | (w', Inr res) \<Rightarrow> ((fst st, w'), Done res))"

definition session_sequence :: "Session \<Rightarrow> nfs_argop4" where
  "session_sequence s = A_Sequence (se_sessionid s) (se_slot_seqid s) 0 0"

definition poison :: "Session \<Rightarrow> Session" where
  "poison s = s \<lparr> se_poisoned := True \<rparr>"

definition advance_slot :: "Session \<Rightarrow> CompoundRes \<Rightarrow> Session option" where
  "advance_slot s res =
     (if 0 < res_nops res
      then case op_status res 0 of
             None \<Rightarrow> None
           | Some st \<Rightarrow>
               Some (if st = NFS_OK then s \<lparr> se_slot_seqid := wrap32_add (se_slot_seqid s) 1 \<rparr> else s)
      else Some s)"

definition session_compound :: "'w transport \<Rightarrow> Compound \<Rightarrow> ('w session_state, CompoundRes) eff" where
  "session_compound tp c st =
     (let s = fst st
      in if se_poisoned s
         then (st, Fail (rpc_transport
                ''NFS session is unusable after an ambiguous transport failure; reconnect''))
         else case raw_call tp (insert0 (set_minorversion c (se_minorversion s)) (session_sequence s)) st of
                ((s', w'), Fail e) \<Rightarrow> ((poison s', w'), Fail e)
              | ((s', w'), Stuck) \<Rightarrow> ((s', w'), Stuck)
              | ((s', w'), Done res) \<Rightarrow>
                  (case advance_slot s' res of
                     None \<Rightarrow> ((s', w'), Stuck)
                   | Some s'' \<Rightarrow> ((s'', w'), Done res)))"

definition first_compound_failure :: "nat \<Rightarrow> nat list \<Rightarrow> (nat \<times> nat) option" where
  "first_compound_failure compound_status op_statuses =
     (case find (\<lambda>i. op_statuses ! i \<noteq> NFS_OK) [0..<length op_statuses] of
        Some i \<Rightarrow> Some (i, op_statuses ! i)
      | None \<Rightarrow> if compound_status \<noteq> NFS_OK then Some (0, compound_status) else None)"

definition expect_all_ok :: "CompoundRes \<Rightarrow> ('s, unit) eff" where
  "expect_all_ok res =
     try_op (of_option (collect_some (map (op_status res) [0..<res_nops res]))) (\<lambda>statuses.
       case first_compound_failure (cr_status res) statuses of
         None \<Rightarrow> ret ()
       | Some (index, status) \<Rightarrow> fail_with (rpc_op index status))"

section \<open>The handshake\<close>

definition session_start :: "nat \<Rightarrow> bytes option \<Rightarrow> Session" where
  "session_start minorversion client_owner =
     \<lparr> se_clientid = 0, se_sessionid = replicate 16 0, se_minorversion = minorversion,
       se_slot_seqid = 1, se_create_session_seqid = 1, se_session_created = False,
       se_owns_clientid = False, se_poisoned = False,
       se_max_requestsize = 4 * 1024 * 1024, se_max_responsesize = 4 * 1024 * 1024,
       se_max_operations = 256,
       se_open_owner = \<lparr> oo_name = ''vnfs-open-owner'', oo_seqid = 0 \<rparr>,
       se_path_owner = \<lparr> oo_name = ''vnfs-path-open-owner'', oo_seqid = 0 \<rparr>,
       se_client_owner = client_owner \<rparr>"

definition EXCHGID4_FLAG_CONFIRMED_R :: nat where "EXCHGID4_FLAG_CONFIRMED_R = 2 ^ 31"

definition confirmed_flag :: "nat \<Rightarrow> bool" where
  "confirmed_flag flags \<longleftrightarrow> (flags div EXCHGID4_FLAG_CONFIRMED_R) mod 2 = 1"

definition on_session :: "(Session \<Rightarrow> Session) \<Rightarrow> ('w session_state, unit) eff" where
  "on_session f = modify (\<lambda>(s, w). (f s, w))"

definition exchange_id :: "'w transport \<Rightarrow> wire \<Rightarrow> bytes \<Rightarrow> ('w session_state, unit) eff" where
  "exchange_id tp verifier generated =
     with_state (\<lambda>(s, w).
       let owner = (case se_client_owner s of Some own \<Rightarrow> own | None \<Rightarrow> generated);
           c = c_exchange_id (compound_tag (set_minorversion compound_new (se_minorversion s)) ''exchange_id'')
                 verifier owner 0
       in try_op (raw_call tp c) (\<lambda>res.
          try_op (try_op_status res 0) (\<lambda>st.
          if st \<noteq> NFS_OK then fail_with (rpc_op 0 st)
          else try_op (of_option (r_exchange_id res 0)) (\<lambda>(clientid, seq, flags).
            on_session (\<lambda>s. s \<lparr> se_clientid := clientid, se_create_session_seqid := seq,
                                se_owns_clientid := \<not> confirmed_flag flags \<rparr>)))))"

definition create_session :: "'w transport \<Rightarrow> ('w session_state, unit) eff" where
  "create_session tp =
     with_state (\<lambda>(s, w).
       let c = c_create_session
                 (compound_tag (set_minorversion compound_new (se_minorversion s)) ''create_session'')
                 (create_session_args_with_sequence (se_clientid s) (se_create_session_seqid s))
       in try_op (raw_call tp c) (\<lambda>res.
          try_op (try_op_status res 0) (\<lambda>st.
          if st \<noteq> NFS_OK then fail_with (rpc_op 0 st)
          else try_op (of_option (r_create_session res 0)) (\<lambda>(sid, fore).
               try_op (on_session (\<lambda>s. s \<lparr> se_sessionid := sid, se_session_created := True \<rparr>)) (\<lambda>_.
               if ca_maxrequestsize fore = 0 \<or> ca_maxresponsesize fore = 0 \<or> ca_maxoperations fore = 0
               then fail_with (rpc_transport ''server returned invalid zero-valued fore-channel limits'')
               else on_session (\<lambda>s. s \<lparr> se_max_requestsize := ca_maxrequestsize fore,
                      se_max_responsesize := ca_maxresponsesize fore,
                      se_max_operations := ca_maxoperations fore \<rparr>))))))"

definition reclaim_complete :: "'w transport \<Rightarrow> ('w session_state, unit) eff" where
  "reclaim_complete tp =
     try_op (session_compound tp (c_reclaim_complete (compound_tag compound_new ''reclaim_complete'')))
       (\<lambda>res. try_op (try_op_status res 1) (\<lambda>st.
          if st \<noteq> NFS_OK \<and> st \<noteq> NFS4ERR_COMPLETE_ALREADY then fail_with (rpc_op 1 st) else ret ()))"

section \<open>Teardown\<close>

definition destroy_session :: "'w transport \<Rightarrow> sessionid4 \<Rightarrow> ('w session_state, unit) eff" where
  "destroy_session tp sid =
     with_state (\<lambda>(s, w).
       try_op (raw_call tp (c_destroy_session
           (compound_tag (set_minorversion compound_new (se_minorversion s)) ''destroy_session'') sid))
         (\<lambda>res. let st = cr_status res
                in if st = NFS_OK \<or> st = NFS4ERR_BADSESSION \<or> st = NFS4ERR_DEADSESSION then ret ()
                   else fail_with (rpc_op 0 st)))"

definition destroy_clientid :: "'w transport \<Rightarrow> ('w session_state, unit) eff" where
  "destroy_clientid tp =
     with_state (\<lambda>(s, w).
       try_op (raw_call tp (c_destroy_clientid
           (compound_tag (set_minorversion compound_new (se_minorversion s)) ''destroy_clientid'')
           (se_clientid s)))
         (\<lambda>res. if cr_status res = NFS_OK then ret () else fail_with (rpc_op 0 (cr_status res))))"

text \<open>Run the second operation whatever the first returned and report the first
  failure: the bookkeeping of \<^verbatim>\<open>first_error\<close>.\<close>

definition both_ops :: "('s, unit) eff \<Rightarrow> ('s, unit) eff \<Rightarrow> ('s, unit) eff" where
  "both_ops a b = catch_op a (\<lambda>e. try_op (ignore b) (\<lambda>_. fail_with e)) (\<lambda>_. b)"

definition session_shutdown :: "'w transport \<Rightarrow> ('w session_state, unit) eff" where
  "session_shutdown tp =
     with_state (\<lambda>(s, w).
       if se_clientid s = 0 then ret ()
       else both_ops
              (both_ops (if se_session_created s then destroy_session tp (se_sessionid s) else ret ())
                        (if se_owns_clientid s then destroy_clientid tp else ret ()))
              (on_session (\<lambda>s. s \<lparr> se_clientid := 0 \<rparr>)))"

text \<open>The handshake.  When a step fails the session is dropped, and dropping it tears
  down what the server already granted.\<close>

definition drop_on_error :: "'w transport \<Rightarrow> ('w session_state, 'a) eff \<Rightarrow> ('w session_state, 'a) eff" where
  "drop_on_error tp m =
     catch_op m (\<lambda>e. try_op (ignore (session_shutdown tp)) (\<lambda>_. fail_with e)) ret"

definition session_connect :: "'w transport \<Rightarrow> wire \<Rightarrow> bytes \<Rightarrow> ('w session_state, unit) eff" where
  "session_connect tp verifier generated =
     drop_on_error tp
       (try_op (exchange_id tp verifier generated) (\<lambda>_.
        try_op (create_session tp) (\<lambda>_.
        reclaim_complete tp)))"

definition session_abandon :: "Session \<Rightarrow> Session" where
  "session_abandon s = s \<lparr> se_clientid := 0 \<rparr>"

definition shares_identity :: "Session \<Rightarrow> Session \<Rightarrow> bool" where
  "shares_identity s previous \<longleftrightarrow> se_clientid s \<noteq> 0 \<and> se_clientid s = se_clientid previous"

definition retire_previous_session :: "'w transport \<Rightarrow> Session \<Rightarrow> ('w session_state, unit) eff" where
  "retire_previous_session tp previous =
     with_state (\<lambda>(s, w).
       try_op (catch_op (raw_call tp (c_bind_fore_channel
            (compound_tag (set_minorversion compound_new (se_minorversion s)) ''bind_retired_session'')
            (se_sessionid previous)))
          (\<lambda>_. ret False) (\<lambda>res. ret (cr_status res = NFS_OK)))
       (\<lambda>bound. try_op (if bound then ignore (destroy_session tp (se_sessionid previous)) else ret ())
       (\<lambda>_. on_session (\<lambda>s. s \<lparr> se_owns_clientid := se_owns_clientid previous \<rparr>))))"

section \<open>Observing what is sent\<close>

text \<open>A transport that also records every request with the world it was sent in.\<close>

definition logging :: "'w transport \<Rightarrow> ('w \<times> (Compound \<times> 'w) list) transport" where
  "logging tp =
     \<lparr> tp_encode = tp_encode tp,
       tp_rpc = (\<lambda>c (w, log). case tp_rpc tp c w of (w', r) \<Rightarrow> ((w', log @ [(c, w)]), r)) \<rparr>"

fun session_run ::
  "'w transport \<Rightarrow> Compound list \<Rightarrow> 'w session_state \<Rightarrow> 'w session_state \<times> CompoundRes outcome list" where
  "session_run tp [] st = (st, [])"
| "session_run tp (c # cs) st =
     (case session_compound tp c st of
        (st', r) \<Rightarrow> (case session_run tp cs st' of (st'', rs) \<Rightarrow> (st'', r # rs)))"

fun is_done :: "'a outcome \<Rightarrow> bool" where
  "is_done (Done _) = True"
| "is_done _ = False"

text \<open>What the client relies on in the server's slot: it executes a SEQUENCE only with
  the number after the last one it executed, and a SEQUENCE that does not succeed
  leaves the slot alone.\<close>

definition slot_server :: "('w \<Rightarrow> nat) \<Rightarrow> 'w transport \<Rightarrow> bool" where
  "slot_server seq tp \<longleftrightarrow>
     (\<forall>c w w' res sid q a b ops.
        cp_ops c = A_Sequence sid q a b # ops \<and> tp_rpc tp c w = (w', Inr res) \<longrightarrow>
        (if op_status res 0 = Some NFS_OK
         then q = wrap32_add (seq w) 1 \<and> seq w' = q
         else seq w' = seq w))"

section \<open>Requests and replies\<close>

lemma logging_call:
  "compound_call (logging tp) c (w, log) =
     (case compound_call tp c w of (w', r) \<Rightarrow> ((w', log @ [(c, w)]), r))"
  by (auto simp: compound_call_def logging_def split: prod.splits sum.splits)

lemma compound_call_Inr:
  "compound_call tp c w = (w', Inr res) \<Longrightarrow> tp_rpc tp c w = (w', Inr res) \<and> accepts (cp_ops c) res"
  by (auto simp: compound_call_def accepts_def split: prod.splits sum.splits)

lemma raw_call_Done:
  "raw_call tp c st = (st', Done res) \<longleftrightarrow>
     fst st' = fst st \<and> compound_call tp c (snd st) = (snd st', Inr res)"
  by (cases st') (auto simp: raw_call_def split: prod.splits sum.splits)

lemma raw_call_not_Stuck [simp]: "raw_call tp c st \<noteq> (st', Stuck)"
  by (auto simp: raw_call_def split: prod.splits sum.splits)

lemma op_status_accepts:
  "accepts req res \<Longrightarrow> i < res_nops res \<Longrightarrow> op_status res i = Some (response_op_status (nth_op res i))"
  by (simp add: op_status_def accepts_op)

lemma accepts_prefix_ok:
  "accepts req res \<Longrightarrow> i + 1 < res_nops res \<Longrightarrow> op_status res i = Some NFS_OK"
  using op_status_accepts [of req res i] accepts_status [of req res i] by simp

lemma insert0_ops [simp]: "cp_ops (insert0 c op) = op # cp_ops c"
  by (simp add: insert0_def)

lemma set_minorversion_ops [simp]: "cp_ops (set_minorversion c v) = cp_ops c"
  by (simp add: set_minorversion_def)

lemma compound_tag_ops [simp]: "cp_ops (compound_tag c t) = cp_ops c"
  by (simp add: compound_tag_def keep_def)

lemma compound_new_ops [simp]: "cp_ops compound_new = []"
  by (simp add: compound_new_def)

text \<open>The outcomes of a compound: refused, failed and poisoned, or answered.\<close>

lemma session_compound_cases:
  obtains (refused) e where "se_poisoned s" "session_compound tp c (s, w) = ((s, w), Fail e)"
  | (failed) w' e where "\<not> se_poisoned s"
      "compound_call tp (insert0 (set_minorversion c (se_minorversion s)) (session_sequence s)) w = (w', Inl e)"
      "session_compound tp c (s, w) = ((poison s, w'), Fail e)"
  | (answered) w' res s' where "\<not> se_poisoned s"
      "compound_call tp (insert0 (set_minorversion c (se_minorversion s)) (session_sequence s)) w = (w', Inr res)"
      "advance_slot s res = Some s'"
      "session_compound tp c (s, w) = ((s', w'), Done res)"
proof (cases "se_poisoned s")
  case True
  then show ?thesis by (intro refused) (auto simp: session_compound_def Let_def)
next
  case False
  let ?c = "insert0 (set_minorversion c (se_minorversion s)) (session_sequence s)"
  obtain w' r where call: "compound_call tp ?c w = (w', r)" by fastforce
  show ?thesis
  proof (cases r)
    case (Inl e)
    with call False show ?thesis
      by (intro failed) (auto simp: session_compound_def raw_call_def Let_def)
  next
    case (Inr res)
    then have acc: "accepts (cp_ops ?c) res" using call compound_call_Inr [of tp ?c w w' res] by simp
    then obtain s' where s': "advance_slot s res = Some s'"
      using op_status_accepts [of "cp_ops ?c" res 0]
      by (cases "0 < res_nops res") (auto simp: advance_slot_def)
    with Inr call False show ?thesis
      by (intro answered) (auto simp: session_compound_def raw_call_def Let_def)
  qed
qed

lemma first_compound_failure_accepts:
  assumes "accepts req res"
  shows "\<exists>statuses. collect_some (map (op_status res) [0..<res_nops res]) = Some statuses \<and>
    first_compound_failure (cr_status res) statuses =
      (if cr_status res = NFS_OK then None else Some (res_nops res - 1, cr_status res))"
proof -
  let ?st = "\<lambda>i. response_op_status (nth_op res i)"
  have "collect_some (map (op_status res) [0..<res_nops res]) = Some (map ?st [0..<res_nops res])"
    using collect_some_map [of "[0..<res_nops res]" "op_status res"] op_status_accepts [OF assms]
    by (auto cong: map_cong)
  moreover have "first_compound_failure (cr_status res) (map ?st [0..<res_nops res]) =
      (if cr_status res = NFS_OK then None else Some (res_nops res - 1, cr_status res))"
  proof -
    have ok: "?st i = (if i + 1 = res_nops res then cr_status res else NFS_OK)" if "i < res_nops res" for i
      using accepts_status [OF assms that] .
    let ?f = "find (\<lambda>i. map ?st [0..<res_nops res] ! i \<noteq> NFS_OK) [0..<length (map ?st [0..<res_nops res])]"
    show ?thesis
    proof (cases "cr_status res = NFS_OK \<or> res_nops res = 0")
      case True
      then have "?f = None" using ok by (auto simp: find_upt_None)
      with True show ?thesis by (auto simp: first_compound_failure_def)
    next
      case False
      then have "?f = Some (res_nops res - 1)" using ok by (auto simp: find_upt_Some)
      with False ok show ?thesis by (auto simp: first_compound_failure_def)
    qed
  qed
  ultimately show ?thesis by blast
qed

lemma expect_all_ok_accepts:
  assumes "accepts req res"
  shows "expect_all_ok res st =
    (st, if cr_status res = NFS_OK then Done () else Fail (rpc_op (res_nops res - 1) (cr_status res)))"
proof -
  obtain sts where "collect_some (map (op_status res) [0..<res_nops res]) = Some sts"
    "first_compound_failure (cr_status res) sts =
      (if cr_status res = NFS_OK then None else Some (res_nops res - 1, cr_status res))"
    using first_compound_failure_accepts [OF assms] by blast
  then show ?thesis by (simp add: expect_all_ok_def try_op_def eff_defs)
qed

section \<open>The slot sequence\<close>

lemma slot_serverD:
  "slot_server seq tp \<Longrightarrow> cp_ops c = A_Sequence sid q a b # ops \<Longrightarrow> tp_rpc tp c w = (w', Inr res) \<Longrightarrow>
     if op_status res 0 = Some NFS_OK then q = wrap32_add (seq w) 1 \<and> seq w' = q else seq w' = seq w"
  unfolding slot_server_def by blast

definition in_sync :: "('w \<Rightarrow> nat) \<Rightarrow> Session \<Rightarrow> 'w \<Rightarrow> bool" where
  "in_sync seq s w \<longleftrightarrow> \<not> se_poisoned s \<longrightarrow> se_slot_seqid s = wrap32_add (seq w) 1"

lemma session_compound_sync:
  assumes "slot_server seq tp" "in_sync seq s w"
    and "session_compound tp c (s, w) = ((s', w'), r)"
  shows "in_sync seq s' w' \<and> se_sessionid s' = se_sessionid s \<and> (is_done r \<longleftrightarrow> \<not> se_poisoned s')"
proof (cases rule: session_compound_cases [of s tp c w])
  case (refused e)
  with assms show ?thesis by auto
next
  case (failed w1 e)
  with assms(3) show ?thesis by (auto simp: in_sync_def poison_def)
next
  case (answered w1 res s1)
  note call = compound_call_Inr [OF answered(2)]
  have "if op_status res 0 = Some NFS_OK
        then se_slot_seqid s = wrap32_add (seq w) 1 \<and> seq w1 = se_slot_seqid s
        else seq w1 = seq w"
    by (rule slot_serverD [OF assms(1) _ conjunct1 [OF call]]) (simp add: session_sequence_def)
  moreover have "op_status res 0 = None" if "res_nops res = 0"
    using that by (simp add: op_status_def resop_def)
  ultimately show ?thesis
    using answered assms(2,3)
    by (auto simp: advance_slot_def in_sync_def split: option.splits if_splits)
qed

lemma session_compound_logging:
  "session_compound (logging tp) c (s, (w, log)) =
     (case session_compound tp c (s, w) of
        ((s', w'), r) \<Rightarrow> ((s', (w', log @ (if se_poisoned s then []
          else [(insert0 (set_minorversion c (se_minorversion s)) (session_sequence s), w)]))), r))"
  by (auto simp: session_compound_def raw_call_def logging_call Let_def
      split: prod.splits sum.splits option.splits)

definition sequenced :: "('w \<Rightarrow> nat) \<Rightarrow> sessionid4 \<Rightarrow> Compound \<times> 'w \<Rightarrow> bool" where
  "sequenced seq sid entry \<longleftrightarrow>
     (\<exists>ops. cp_ops (fst entry) = A_Sequence sid (wrap32_add (seq (snd entry)) 1) 0 0 # ops)"

lemma session_run_sync:
  assumes "slot_server seq tp" "in_sync seq s w"
    and "session_run (logging tp) cs (s, (w, log)) = ((s', (w', log')), rs)"
  shows "\<exists>new. log' = log @ new \<and> list_all (sequenced seq (se_sessionid s)) new \<and>
    length new \<le> (if se_poisoned s then 0 else Suc (length (takeWhile is_done rs)))"
  using assms(2,3)
proof (induction cs arbitrary: s w log rs)
  case (Cons c cs)
  obtain s1 w1 r where c: "session_compound tp c (s, w) = ((s1, w1), r)" by (metis prod.exhaust)
  let ?new = "if se_poisoned s then []
      else [(insert0 (set_minorversion c (se_minorversion s)) (session_sequence s), w)]"
  obtain rs' where rs: "rs = r # rs'"
    and run: "session_run (logging tp) cs (s1, (w1, log @ ?new)) = ((s', (w', log')), rs')"
    using Cons.prems(2) c by (auto simp: session_compound_logging split: prod.splits)
  note sync = session_compound_sync [OF assms(1) Cons.prems(1) c]
  obtain new where new: "log' = (log @ ?new) @ new" "list_all (sequenced seq (se_sessionid s1)) new"
    "length new \<le> (if se_poisoned s1 then 0 else Suc (length (takeWhile is_done rs')))"
    using Cons.IH [OF _ run] sync by blast
  have "list_all (sequenced seq (se_sessionid s)) ?new"
    using Cons.prems(1) by (simp add: sequenced_def session_sequence_def in_sync_def)
  moreover have "se_poisoned s \<Longrightarrow> se_poisoned s1"
    using c by (auto simp: session_compound_def Let_def)
  ultimately show ?case
    using new sync by (intro exI [of _ "?new @ new"]) (auto simp: rs)
qed simp

section \<open>Teardown requests\<close>

text \<open>An operation that leaves the session alone, ends, and sends these requests.\<close>

definition sends ::
  "Session \<Rightarrow> (('w \<times> (Compound \<times> 'w) list) session_state, unit) eff \<Rightarrow> nfs_argop4 list list \<Rightarrow> bool" where
  "sends s m reqs \<longleftrightarrow>
     (\<forall>w log. \<exists>w' new r. m (s, (w, log)) = ((s, (w', log @ new)), r) \<and> r \<noteq> Stuck \<and>
        map (\<lambda>(c, _). cp_ops c) new = reqs)"

lemma sends_ret: "sends s (ret ()) []"
  by (simp add: sends_def ret_def)

lemma raw_call_logging:
  "\<exists>w' r. raw_call (logging tp) c (s, (w, log)) = ((s, (w', log @ [(c, w)])), r) \<and> r \<noteq> Stuck"
  by (auto simp: raw_call_def logging_call split: prod.splits sum.splits)

lemma raw_call_sends:
  assumes "\<And>res st. \<exists>r. k res st = (st, r) \<and> r \<noteq> Stuck"
  shows "sends s (try_op (raw_call (logging tp) c) k) [cp_ops c]"
  unfolding sends_def
proof (intro allI)
  fix w log
  obtain w' r where call: "raw_call (logging tp) c (s, (w, log)) = ((s, (w', log @ [(c, w)])), r)" "r \<noteq> Stuck"
    using raw_call_logging [of tp c s w log] by blast
  then show "\<exists>w' new r. try_op (raw_call (logging tp) c) k (s, (w, log)) = ((s, (w', log @ new)), r) \<and>
      r \<noteq> Stuck \<and> map (\<lambda>(c, _). cp_ops c) new = [cp_ops c]"
  proof (cases r)
    case (Done res)
    with call assms [of res "(s, (w', log @ [(c, w)]))"] show ?thesis
      by (auto simp: try_op_def intro!: exI [of _ "[(c, w)]"])
  next
    case (Fail e)
    with call show ?thesis by (auto simp: try_op_def intro!: exI [of _ "[(c, w)]"])
  qed simp
qed

lemma with_state_sends: "sends s (f (s, undefined)) reqs \<Longrightarrow> (\<And>w w'. f (s, w) = f (s, w')) \<Longrightarrow> sends s (with_state f) reqs"
  unfolding sends_def with_state_def by metis

lemma destroy_session_sends: "sends s (destroy_session (logging tp) sid) [[A_DestroySession sid]]"
  unfolding destroy_session_def
  by (rule with_state_sends)
     (use raw_call_sends [of _ s tp "c_destroy_session (compound_tag
        (set_minorversion compound_new (se_minorversion s)) ''destroy_session'') sid"] in
      \<open>auto simp: eff_defs Let_def c_destroy_session_def push_def\<close>)

lemma destroy_clientid_sends: "sends s (destroy_clientid (logging tp)) [[A_DestroyClientid (se_clientid s)]]"
  unfolding destroy_clientid_def
  by (rule with_state_sends)
     (use raw_call_sends [of _ s tp "c_destroy_clientid (compound_tag
        (set_minorversion compound_new (se_minorversion s)) ''destroy_clientid'') (se_clientid s)"] in
      \<open>auto simp: eff_defs Let_def c_destroy_clientid_def push_def\<close>)

lemma both_ops_sends:
  assumes "sends s a reqs" "sends s b reqs'"
  shows "sends s (both_ops a b) (reqs @ reqs')"
  unfolding sends_def
proof (intro allI)
  fix w log
  obtain w1 new r where a: "a (s, (w, log)) = ((s, (w1, log @ new)), r)" "r \<noteq> Stuck"
    "map (\<lambda>(c, _). cp_ops c) new = reqs"
    using assms(1) unfolding sends_def by blast
  obtain w2 new' r' where b: "b (s, (w1, log @ new)) = ((s, (w2, (log @ new) @ new')), r')" "r' \<noteq> Stuck"
    "map (\<lambda>(c, _). cp_ops c) new' = reqs'"
    using assms(2) unfolding sends_def by blast
  show "\<exists>w' new r. both_ops a b (s, (w, log)) = ((s, (w', log @ new)), r) \<and> r \<noteq> Stuck \<and>
      map (\<lambda>(c, _). cp_ops c) new = reqs @ reqs'"
    using a b
    by (intro exI [of _ w2] exI [of _ "new @ new'"])
       (cases r; cases r'; auto simp: both_ops_def catch_op_def try_op_def ignore_def fail_with_def)
qed

section \<open>The handshake\<close>

lemma try_op_status_Done:
  "try_op_status res i st = (st', Done x) \<longleftrightarrow> st' = st \<and> i < res_nops res \<and> op_status res i = Some x"
  by (auto simp: try_op_status_def eff_defs split: option.splits if_splits)

lemma exchange_id_Done:
  assumes "exchange_id tp v g (s, w) = ((s', w'), Done ())"
  shows "\<exists>cid seq own. s' = s \<lparr> se_clientid := cid, se_create_session_seqid := seq, se_owns_clientid := own \<rparr>"
  using assms
  by (auto simp: exchange_id_def with_state_def Let_def try_op_cases raw_call_Done try_op_status_Done
      on_session_def modify_def fail_with_def of_option_def split: if_splits option.splits)

lemma create_session_Done:
  assumes "create_session tp (s, w) = ((s', w'), Done ())"
  shows "se_session_created s' \<and> 0 < se_max_requestsize s' \<and> 0 < se_max_responsesize s' \<and>
    0 < se_max_operations s' \<and> se_poisoned s' = se_poisoned s \<and>
    se_minorversion s' = se_minorversion s \<and> se_slot_seqid s' = se_slot_seqid s"
  using assms
  by (auto simp: create_session_def with_state_def Let_def try_op_cases raw_call_Done try_op_status_Done
      on_session_def modify_def fail_with_def of_option_def split: if_splits option.splits)

lemma reclaim_complete_Done:
  assumes "reclaim_complete tp (s, w) = ((s', w'), Done ())"
  shows "\<not> se_poisoned s \<and> s' = s \<lparr> se_slot_seqid := wrap32_add (se_slot_seqid s) 1 \<rparr>"
proof -
  let ?c = "c_reclaim_complete (compound_tag compound_new ''reclaim_complete'')"
  obtain st1 res where sent: "session_compound tp ?c (s, w) = (st1, Done res)" "(s', w') = st1" "1 < res_nops res"
    using assms by (auto simp: reclaim_complete_def try_op_cases try_op_status_Done fail_with_def ret_def split: if_splits)
  show ?thesis
  proof (cases rule: session_compound_cases [of s tp ?c w])
    case (answered w1 res' s1)
    then have eq: "res' = res" "s' = s1" using sent by auto
    note acc = compound_call_Inr [OF answered(2)]
    have "op_status res 0 = Some NFS_OK"
      using acc sent(3) eq by (intro accepts_prefix_ok) auto
    with answered eq sent(3) show ?thesis by (auto simp: advance_slot_def)
  qed (use sent in auto)
qed

text \<open>When the handshake succeeds the session is usable: it is not poisoned, the
  server confirmed non-zero limits, and the slot sequence stands after the one
  SEQUENCE executed.\<close>

lemma session_connect_Done:
  assumes "session_connect tp verifier generated (session_start minor owner, w) = ((s, w'), Done ())"
  shows "\<not> se_poisoned s \<and> se_session_created s \<and> 0 < se_max_requestsize s \<and>
    0 < se_max_responsesize s \<and> 0 < se_max_operations s \<and> se_minorversion s = minor \<and>
    se_slot_seqid s = 2"
proof -
  obtain st1 st2 where "exchange_id tp verifier generated (session_start minor owner, w) = (st1, Done ())"
    "create_session tp st1 = (st2, Done ())" "reclaim_complete tp st2 = ((s, w'), Done ())"
    using assms
    by (auto simp: session_connect_def drop_on_error_def catch_op_def try_op_cases ignore_def ret_def
        fail_with_def split: prod.splits outcome.splits)
  then show ?thesis
    using exchange_id_Done [of tp verifier generated "session_start minor owner" w "fst st1" "snd st1"]
      create_session_Done [of tp "fst st1" "snd st1" "fst st2" "snd st2"]
      reclaim_complete_Done [of tp "fst st2" "snd st2" s w']
    by (auto simp: session_start_def wrap32_add_def)
qed

text \<open>Teardown always ends and leaves the session without an identity.\<close>

definition quiet :: "('w session_state, unit) eff \<Rightarrow> bool" where
  "quiet m \<longleftrightarrow> (\<forall>s w. \<exists>w' r. m (s, w) = ((s, w'), r) \<and> r \<noteq> Stuck)"

lemma quiet_destroy: "quiet (destroy_session tp sid)" "quiet (destroy_clientid tp)" "quiet (ret ())"
  by (auto simp: quiet_def destroy_session_def destroy_clientid_def with_state_def try_op_def raw_call_def
      ret_def fail_with_def Let_def split: prod.splits sum.splits)

lemma quiet_both: "quiet a \<Longrightarrow> quiet b \<Longrightarrow> quiet (both_ops a b)"
  unfolding quiet_def
proof (intro allI)
  fix s w
  assume a: "\<forall>s w. \<exists>w' r. a (s, w) = ((s, w'), r) \<and> r \<noteq> Stuck"
    and b: "\<forall>s w. \<exists>w' r. b (s, w) = ((s, w'), r) \<and> r \<noteq> Stuck"
  obtain w1 r1 where a1: "a (s, w) = ((s, w1), r1)" "r1 \<noteq> Stuck" using a by blast
  obtain w2 r2 where b1: "b (s, w1) = ((s, w2), r2)" "r2 \<noteq> Stuck" using b by blast
  show "\<exists>w' r. both_ops a b (s, w) = ((s, w'), r) \<and> r \<noteq> Stuck"
    using a1 b1
    by (cases r1; cases r2) (auto simp: both_ops_def catch_op_def try_op_def ignore_def fail_with_def)
qed

lemma session_shutdown_clears:
  "\<exists>w' r. session_shutdown tp (s, w) = ((s \<lparr> se_clientid := 0 \<rparr>, w'), r) \<and> r \<noteq> Stuck"
proof (cases "se_clientid s = 0")
  case False
  let ?m = "both_ops (if se_session_created s then destroy_session tp (se_sessionid s) else ret ())
     (if se_owns_clientid s then destroy_clientid tp else ret ())"
  have "quiet ?m" by (intro quiet_both) (auto simp: quiet_destroy)
  then obtain w1 r1 where "?m (s, w) = ((s, w1), r1)" "r1 \<noteq> Stuck" by (fastforce simp: quiet_def)
  with False show ?thesis
    by (cases r1) (auto simp: session_shutdown_def with_state_def both_ops_def [of ?m]
        catch_op_def try_op_def ignore_def on_session_def modify_def fail_with_def)
qed (auto simp: session_shutdown_def eff_defs)

lemma drop_on_error_cases:
  assumes "drop_on_error tp m st = ((s', w'), r)"
  shows "case r of Done x \<Rightarrow> m st = ((s', w'), Done x)
    | Fail e \<Rightarrow> (\<exists>st1. m st = (st1, Fail e)) \<and> se_clientid s' = 0
    | Stuck \<Rightarrow> (\<exists>st1. m st = (st1, Stuck))"
proof -
  obtain s1 w1 r1 where m: "m st = ((s1, w1), r1)" by (metis prod.exhaust)
  obtain w2 r2 where "session_shutdown tp (s1, w1) = ((s1 \<lparr> se_clientid := 0 \<rparr>, w2), r2)" "r2 \<noteq> Stuck"
    using session_shutdown_clears [of tp s1 w1] by blast
  with m assms show ?thesis
    by (cases r1; cases r2) (auto simp: drop_on_error_def catch_op_def try_op_def ignore_def ret_def fail_with_def)
qed

text \<open>What the client relies on in the reply decoder.\<close>

definition decoded_transport :: "'w transport \<Rightarrow> bool" where
  "decoded_transport tp \<longleftrightarrow> (\<forall>c w w' res. tp_rpc tp c w = (w', Inr res) \<longrightarrow> decoded res)"

lemma compound_call_decoded:
  "decoded_transport tp \<Longrightarrow> compound_call tp c w = (w', Inr res) \<Longrightarrow> accepts (cp_ops c) res \<and> decoded res"
  using compound_call_Inr [of tp c w w' res] by (auto simp: decoded_transport_def)

lemma try_op_status_not_Stuck:
  assumes "accepts req res" shows "try_op_status res i st \<noteq> (st', Stuck)"
  using op_status_accepts [OF assms] by (auto simp: try_op_status_def eff_defs split: if_splits option.splits)

lemma handshake_not_Stuck:
  assumes "decoded_transport tp"
  shows "session_connect tp v g st \<noteq> (st', Stuck)"
proof -
  have e: "exchange_id tp v g st \<noteq> (st', Stuck)" for st st' :: "'a session_state"
  proof (rule notI, cases st)
    fix s w assume ex: "exchange_id tp v g st = (st', Stuck)" and st: "st = (s, w)"
    let ?own = "case se_client_owner s of Some own \<Rightarrow> own | None \<Rightarrow> g"
    let ?c = "c_exchange_id (compound_tag (set_minorversion compound_new (se_minorversion s)) ''exchange_id'') v ?own 0"
    obtain w1 res where "compound_call tp ?c w = (w1, Inr res)" "op_status res 0 = Some NFS_OK" "r_exchange_id res 0 = None"
      using ex st compound_call_decoded [OF assms, of ?c w]
      by (auto simp: exchange_id_def with_state_def Let_def try_op_cases raw_call_Done try_op_status_Done
          try_op_status_not_Stuck on_session_def modify_def fail_with_def of_option_def split: if_splits option.splits prod.splits)
    with accessors_total [of "cp_ops ?c" res 0] compound_call_decoded [OF assms, of ?c w w1 res]
    show False by (auto simp: c_exchange_id_def push_def)
  qed
  have c: "create_session tp st \<noteq> (st', Stuck)" for st st' :: "'a session_state"
  proof (rule notI, cases st)
    fix s w assume ex: "create_session tp st = (st', Stuck)" and st: "st = (s, w)"
    let ?c = "c_create_session (compound_tag (set_minorversion compound_new (se_minorversion s)) ''create_session'')
                 (create_session_args_with_sequence (se_clientid s) (se_create_session_seqid s))"
    obtain w1 res where "compound_call tp ?c w = (w1, Inr res)" "op_status res 0 = Some NFS_OK" "r_create_session res 0 = None"
      using ex st compound_call_decoded [OF assms, of ?c w]
      by (auto simp: create_session_def with_state_def Let_def try_op_cases raw_call_Done try_op_status_Done
          try_op_status_not_Stuck on_session_def modify_def fail_with_def of_option_def split: if_splits option.splits prod.splits)
    with accessors_total [of "cp_ops ?c" res 0] compound_call_decoded [OF assms, of ?c w w1 res]
    show False by (auto simp: c_create_session_def push_def)
  qed
  have r: "reclaim_complete tp st \<noteq> (st', Stuck)" for st st' :: "'a session_state"
  proof (cases st)
    case (Pair s w)
    then show ?thesis
      using compound_call_decoded [OF assms]
      by (cases rule: session_compound_cases [of s tp "c_reclaim_complete (compound_tag compound_new ''reclaim_complete'')" w])
         (auto simp: reclaim_complete_def try_op_cases fail_with_def ret_def split: if_splits,
          metis try_op_status_not_Stuck)
  qed
  obtain s' w' where st': "st' = (s', w')" by fastforce
  show ?thesis
  proof
    assume "session_connect tp v g st = (st', Stuck)"
    then have "\<exists>st1. try_op (exchange_id tp v g) (\<lambda>_. try_op (create_session tp) (\<lambda>_. reclaim_complete tp)) st = (st1, Stuck)"
      using drop_on_error_cases [of tp _ st s' w' Stuck] by (auto simp: session_connect_def st')
    with e c r show False by (auto simp: try_op_cases)
  qed
qed

section \<open>Properties\<close>

text \<open>C5 (slot sequence).  Run any requests through a session whose slot agrees with the
  server's.  Every request that leaves the client starts with a SEQUENCE carrying
  exactly the number the server expects at that moment, wrap-around included, so
  none is misordered or taken for a replay; and once a request fails in transit
  nothing more is sent.\<close>

theorem session_slot_discipline:
  assumes "slot_server seq tp" "se_slot_seqid s = wrap32_add (seq w) 1"
    and "session_run (logging tp) cs (s, (w, [])) = ((s', (w', log)), rs)"
  shows "list_all (sequenced seq (se_sessionid s)) log \<and>
    length log \<le> Suc (length (takeWhile is_done rs))"
  using session_run_sync [OF assms(1) _ assms(3)] assms(2) by (auto simp: in_sync_def split: if_splits)

text \<open>A server that only counts: it answers with the statuses of a session it keeps.\<close>

definition counting_server :: "nat transport" where
  "counting_server =
     \<lparr> tp_encode = (\<lambda>_ _ _ _. None),
       tp_rpc = (\<lambda>c n. case cp_ops c of
           A_Sequence _ q _ _ # ops \<Rightarrow>
             if q = wrap32_add n 1
             then (q, Inr \<lparr> cr_status = 0, cr_len = 1 + length ops, cr_ops = Some
                     (\<lparr> ro_op = 53, ro_status = 0, ro_body = B_None \<rparr> #
                      map (\<lambda>op. \<lparr> ro_op = argop op, ro_status = 0, ro_body = B_None \<rparr>) ops) \<rparr>)
             else (n, Inl (rpc_transport ''misordered''))
         | _ \<Rightarrow> (n, Inl (rpc_transport ''no sequence''))) \<rparr>"

lemma counting_server_slot: "slot_server id counting_server"
  unfolding slot_server_def
proof (intro allI impI, elim conjE)
  fix c w w' res sid q a b ops
  assume ops: "cp_ops c = A_Sequence sid q a b # ops"
    and rpc: "tp_rpc counting_server c w = (w', Inr res)"
  from rpc have q: "q = wrap32_add w 1" "w' = q"
    and res: "cr_len res = Suc (length ops)" "\<exists>xs. cr_ops res = Some (\<lparr> ro_op = 53, ro_status = 0, ro_body = B_None \<rparr> # xs)"
    by (auto simp: counting_server_def ops split: if_splits)
  from res have "op_status res 0 = Some NFS_OK"
    by (auto simp: op_status_def resop_def res_nops_def response_op_status_def supported_ops_def
        nfs_op_defs NFS_OK_def)
  with q show "if op_status res 0 = Some NFS_OK then q = wrap32_add (id w) 1 \<and> id w' = q else id w' = id w"
    by simp
qed

theorem session_slot_discipline_witness:
  "\<exists>s' w' log rs.
     session_run (logging counting_server) [compound_new, compound_new]
       ((session_start 1 None) \<lparr> se_slot_seqid := 0 \<rparr>, (2 ^ 32 - 1, [])) = ((s', (w', log)), rs) \<and>
     list_all (sequenced id (replicate 16 0)) log"
proof -
  obtain s' w' log rs where run: "session_run (logging counting_server) [compound_new, compound_new]
       ((session_start 1 None) \<lparr> se_slot_seqid := 0 \<rparr>, (2 ^ 32 - 1, [])) = ((s', (w', log)), rs)"
    by (metis prod.exhaust)
  moreover have "list_all (sequenced id (replicate 16 0)) log"
    using session_slot_discipline [OF counting_server_slot _ run]
    by (simp add: session_start_def wrap32_add_def)
  ultimately show ?thesis by blast
qed

text \<open>C19 (teardown).  Shutting a session down sends DESTROY_SESSION for the session if one
  was created, then DESTROY_CLIENTID if the client owns its identity, nothing
  else, whatever the server answers; afterwards the session holds no identity and
  a second shutdown sends nothing.\<close>

theorem session_shutdown_once:
  assumes "session_shutdown (logging tp) (s, (w, [])) = ((s', (w', log)), r)"
  shows "map (\<lambda>(c, _). cp_ops c) log =
      (if se_clientid s = 0 then []
       else (if se_session_created s then [[A_DestroySession (se_sessionid s)]] else []) @
            (if se_owns_clientid s then [[A_DestroyClientid (se_clientid s)]] else [])) \<and>
    se_clientid s' = 0 \<and>
    session_shutdown (logging tp) (s', (w', log)) = ((s', (w', log)), Done ())"
proof -
  let ?sends = "(if se_session_created s then [[A_DestroySession (se_sessionid s)]] else []) @
            (if se_owns_clientid s then [[A_DestroyClientid (se_clientid s)]] else [])"
  have "map (\<lambda>(c, _). cp_ops c) log = (if se_clientid s = 0 then [] else ?sends) \<and> se_clientid s' = 0"
  proof (cases "se_clientid s = 0")
    case True
    then show ?thesis using assms by (simp add: session_shutdown_def eff_defs)
  next
    case False
    let ?a = "if se_session_created s then destroy_session (logging tp) (se_sessionid s) else ret ()"
    let ?b = "if se_owns_clientid s then destroy_clientid (logging tp) else ret ()"
    have a: "sends s ?a (if se_session_created s then [[A_DestroySession (se_sessionid s)]] else [])"
      using destroy_session_sends [of s tp "se_sessionid s"] by (simp add: sends_ret)
    have b: "sends s ?b (if se_owns_clientid s then [[A_DestroyClientid (se_clientid s)]] else [])"
      using destroy_clientid_sends [of s tp] by (simp add: sends_ret)
    obtain w1 new r1 where ab: "both_ops ?a ?b (s, (w, [])) = ((s, (w1, new)), r1)" "r1 \<noteq> Stuck"
      "map (\<lambda>(c, _). cp_ops c) new = ?sends"
      using both_ops_sends [OF a b] by (fastforce simp: sends_def)
    then show ?thesis
      using assms False
      by (cases r1) (auto simp: session_shutdown_def with_state_def both_ops_def [of "both_ops ?a ?b"]
          catch_op_def try_op_def ignore_def on_session_def modify_def fail_with_def)
  qed
  then show ?thesis by (simp add: session_shutdown_def eff_defs)
qed

theorem session_shutdown_once_witness:
  "\<exists>s' w' log r. session_shutdown (logging counting_server)
      ((session_start 1 None) \<lparr> se_clientid := 7, se_owns_clientid := True \<rparr>, (0, [])) = ((s', (w', log)), r) \<and>
     map (\<lambda>(c, _). cp_ops c) log = [[A_DestroyClientid 7]]"
proof -
  obtain s' w' log r where run: "session_shutdown (logging counting_server)
      ((session_start 1 None) \<lparr> se_clientid := 7, se_owns_clientid := True \<rparr>, (0, [])) = ((s', (w', log)), r)"
    by (metis prod.exhaust)
  from session_shutdown_once [OF run] run show ?thesis by (auto simp: session_start_def)
qed

text \<open>A server that grants every request.\<close>

definition granting_body :: "nfs_argop4 \<Rightarrow> resbody" where
  "granting_body op =
     (case op of
        A_ExchangeId _ _ _ \<Rightarrow> B_ExchangeId 7 1 0
      | A_CreateSession args \<Rightarrow> B_CreateSession (replicate 16 9) (csa_fore_chan_attrs args)
      | A_GetFh \<Rightarrow> B_Fh (1, Some ''r'')
      | A_Open _ \<Rightarrow> B_Open zero_stateid \<lparr> bm_len = 0, bm_map = [] \<rparr>
      | A_Read _ _ _ \<Rightarrow> B_Read True (0, None)
      | A_Write _ _ _ data \<Rightarrow> B_Write (length data) 2
      | A_Copy _ _ _ _ n \<Rightarrow> B_Copy n
      | A_Readlink \<Rightarrow> B_Link (1, Some ''t'')
      | A_Getattr _ \<Rightarrow> B_Attr \<lparr> bm_len = 0, bm_map = [] \<rparr> (0, None)
      | A_Readdir _ _ _ _ _ \<Rightarrow> B_Dir [] True
      | _ \<Rightarrow> B_None)"

definition op_size :: "nfs_argop4 \<Rightarrow> nat" where
  "op_size op = (case op of A_Sequence _ _ _ _ \<Rightarrow> 36 | _ \<Rightarrow> 40)"

definition request_size :: "bytes \<Rightarrow> nfs_argop4 list \<Rightarrow> nat" where
  "request_size tag ops = 12 + 4 * length tag + sum_list (map op_size ops)"

definition granting_server :: "unit transport" where
  "granting_server =
     \<lparr> tp_encode = (\<lambda>_ tag ops capacity.
         if request_size tag ops \<le> capacity then Some (request_size tag ops) else None),
       tp_rpc = (\<lambda>c w. (w, Inr \<lparr> cr_status = 0, cr_len = length (cp_ops c), cr_ops = Some
          (map (\<lambda>op. \<lparr> ro_op = argop op, ro_status = 0, ro_body = granting_body op \<rparr>) (cp_ops c)) \<rparr>)) \<rparr>"

lemma granting_server_decoded: "decoded_transport granting_server"
  by (auto simp: decoded_transport_def granting_server_def decoded_def decoded_op_def res_nops_def nth_op_def
      granting_body_def field_ok_def nfs_op_defs split: nfs_argop4.splits)

end
