(* ===== verification/Nfs_Client.thy ===== *)
theory Nfs_Client
  imports Nfs_Session
begin

text \<open>
  The NFS client of \<^verbatim>\<open>crates/vfsi-nfs/src/client.rs\<close>: its state, the limits it derives
  from the session, the dispatcher every compound goes through, the operations on
  one object, the deferred closes and the connection.

  An operation changes the client and the world of the transport.  File handles are
  their bytes.  The fault injection of the test builds is left out.
\<close>

section \<open>The client\<close>

datatype OwnerSlot = UserSlot | PathSlot

datatype OpenCreate = NoCreate | Exclusive | Guarded | Unchecked

record CloseOp =
  clo_fh :: bytes
  clo_stateid :: stateid4

record NfsClient =
  nc_session :: Session
  nc_root :: bytes
  nc_max_compound_bytes :: nat
  nc_max_response_bytes :: nat
  nc_max_ops :: nat
  nc_limits :: AdaptiveCompoundLimits
  nc_server_max_request_bytes :: nat
  nc_configured_max_request_bytes :: "nat option"
  nc_rpc_envelope_reserve :: nat
  nc_deferred_path_closes :: "CloseOp list"
  nc_next_public_open_owner_id :: nat

type_synonym 'w client_state = "NfsClient \<times> 'w"

definition DEFAULT_MAX_COMPOUND_BYTES :: nat where
  "DEFAULT_MAX_COMPOUND_BYTES = 4 * 2 ^ 20"

definition MAX_OP_BYTES :: nat where
  "MAX_OP_BYTES = 64 * 2 ^ 20"

definition MAX_COMPOUND_OPS :: nat where
  "MAX_COMPOUND_OPS = 256"

definition SEQUENCE_XDR_BYTES :: nat where
  "SEQUENCE_XDR_BYTES = 36"

definition NFS4ERR_INVAL :: nat where "NFS4ERR_INVAL = 22"
definition NFS4ERR_OLD_STATEID :: nat where "NFS4ERR_OLD_STATEID = 10024"
definition NFS4ERR_BAD_STATEID :: nat where "NFS4ERR_BAD_STATEID = 10025"
definition NFS4ERR_REQ_TOO_BIG :: nat where "NFS4ERR_REQ_TOO_BIG = 10065"
definition NFS4ERR_REP_TOO_BIG :: nat where "NFS4ERR_REP_TOO_BIG = 10066"

lemmas client_status = NFS4ERR_INVAL_def NFS4ERR_OLD_STATEID_def NFS4ERR_BAD_STATEID_def
  NFS4ERR_REQ_TOO_BIG_def NFS4ERR_REP_TOO_BIG_def

section \<open>Operation and byte budgets\<close>

record CompoundBudget =
  bg_max_ops :: nat

definition compound_budget_new :: "nat \<Rightarrow> CompoundBudget" where
  "compound_budget_new n = \<lparr> bg_max_ops = n \<rparr>"

definition batch_capacity :: "CompoundBudget \<Rightarrow> nat \<Rightarrow> RpcError + nat" where
  "batch_capacity b ops_per_item =
     (let capacity = (bg_max_ops b - 1) div ops_per_item
      in if capacity = 0 then Inl (rpc_op 0 NFS4ERR_TOO_MANY_OPS) else Inr capacity)"

definition merged_limit :: "CompoundBudget \<Rightarrow> nat \<Rightarrow> nat \<Rightarrow> nat" where
  "merged_limit b reserve min_ops_per_item =
     (let minimum = sat_add 1 min_ops_per_item
      in if bg_max_ops b < minimum then 0
         else min (max (bg_max_ops b - reserve) minimum) (bg_max_ops b))"

definition budget_ensure :: "CompoundBudget \<Rightarrow> Compound \<Rightarrow> RpcError + unit" where
  "budget_ensure b c =
     (if bg_max_ops b < sat_add (op_count c) 1 then Inl (rpc_op 0 NFS4ERR_TOO_MANY_OPS) else Inr ())"

definition effective_request_limit :: "nat \<Rightarrow> nat option \<Rightarrow> nat" where
  "effective_request_limit server configured =
     (case configured of None \<Rightarrow> server | Some limit \<Rightarrow> min limit server)"

definition response_payload_budget :: "nat \<Rightarrow> nat" where
  "response_payload_budget negotiated = max (sat_mul negotiated 3 div 4) 1"

definition checked_offset :: "nat \<Rightarrow> nat \<Rightarrow> nat \<Rightarrow> RpcError + nat" where
  "checked_offset base delta op_index =
     (case checked_add base delta of
        Some n \<Rightarrow> Inr n
      | None \<Rightarrow> Inl (rpc_op op_index NFS4ERR_INVAL))"

text \<open>\<^verbatim>\<open>NonZeroUsize::new\<close>\<close>

definition non_zero :: "nat \<Rightarrow> nat option" where
  "non_zero n = (if n = 0 then None else Some n)"

definition set_max_compound_bytes :: "NfsClient \<Rightarrow> nat \<Rightarrow> NfsClient" where
  "set_max_compound_bytes cl n =
     cl \<lparr> nc_configured_max_request_bytes := non_zero n,
          nc_max_compound_bytes :=
            effective_request_limit (nc_server_max_request_bytes cl) (non_zero n) \<rparr>"

definition max_request_arg_bytes :: "NfsClient \<Rightarrow> nat" where
  "max_request_arg_bytes cl =
     min (nc_max_compound_bytes cl) (nc_server_max_request_bytes cl) - nc_rpc_envelope_reserve cl"

definition per_op_bytes :: "NfsClient \<Rightarrow> nat" where
  "per_op_bytes cl = min (max (max_request_arg_bytes cl - 1024) 1) MAX_OP_BYTES"

definition read_compound_bytes :: "NfsClient \<Rightarrow> nat" where
  "read_compound_bytes cl = response_payload_budget (nc_max_response_bytes cl)"

definition read_per_op_bytes :: "NfsClient \<Rightarrow> nat" where
  "read_per_op_bytes cl = min (per_op_bytes cl) (max (read_compound_bytes cl - 256) 1)"

definition readdir_limits :: "NfsClient \<Rightarrow> nat \<Rightarrow> nat \<times> nat" where
  "readdir_limits cl operations =
     (let per_operation = max (read_compound_bytes cl div max operations 1) 1;
          maxcount = min per_operation u32_max
      in (max (maxcount div 4) 1, max maxcount 1))"

definition op_budget_for :: "NfsClient \<Rightarrow> bytes \<Rightarrow> nat \<Rightarrow> CompoundBudget" where
  "op_budget_for cl tag one_item_ops =
     compound_budget_new (max (min (limits_limit (nc_limits cl) tag) (nc_max_ops cl))
                     (min one_item_ops (nc_max_ops cl)))"

definition compound_request_fits ::
  "'w transport \<Rightarrow> NfsClient \<Rightarrow> Compound \<Rightarrow> (Compound \<times> bool) option" where
  "compound_request_fits tp cl c =
     map_option (\<lambda>(c', r). (c', r \<noteq> None))
       (encoded_len_up_to (tp_encode tp) c (max_request_arg_bytes cl - SEQUENCE_XDR_BYTES))"

definition merged_paths_need_repack ::
  "'w transport \<Rightarrow> NfsClient \<Rightarrow> bytes \<Rightarrow> nat \<Rightarrow> Compound \<Rightarrow> nat \<Rightarrow> (Compound \<times> bool) option" where
  "merged_paths_need_repack tp cl tag one_item_ops c items =
     (if \<not> 1 < items then Some (c, False)
      else if bg_max_ops (op_budget_for cl tag one_item_ops) < sat_add (op_count c) 1
      then Some (c, True)
      else map_option (\<lambda>(c', fits). (c', \<not> fits)) (compound_request_fits tp cl c))"

definition can_retry_merged_resource ::
  "NfsClient \<Rightarrow> bytes \<Rightarrow> CompoundRes \<Rightarrow> nat \<Rightarrow> nat \<Rightarrow> nat \<Rightarrow> bool" where
  "can_retry_merged_resource cl tag reply old_budget reserve per_item \<longleftrightarrow>
     resource_rejected_before_mutation (res_view reply) \<and>
     merged_limit (op_budget_for cl tag (1 + per_item)) reserve per_item < old_budget"

definition can_retry_read_only_merged_resource ::
  "NfsClient \<Rightarrow> bytes \<Rightarrow> CompoundRes \<Rightarrow> nat \<Rightarrow> nat \<Rightarrow> nat \<Rightarrow> bool" where
  "can_retry_read_only_merged_resource cl tag reply old_budget reserve per_item \<longleftrightarrow>
     (cr_status reply = NFS4ERR_RESOURCE \<or> cr_status reply = NFS4ERR_TOO_MANY_OPS) \<and>
     merged_limit (op_budget_for cl tag (1 + per_item)) reserve per_item < old_budget"

definition remove_batch_capacity :: "NfsClient \<Rightarrow> nat" where
  "remove_batch_capacity cl = max (bg_max_ops (op_budget_for cl ''removev'' 3) - 2) 1"

definition lookup_batch_capacity :: "NfsClient \<Rightarrow> nat" where
  "lookup_batch_capacity cl = max ((bg_max_ops (op_budget_for cl ''lookupv'' 4) - 1) div 3) 1"

section \<open>Dispatching a compound\<close>

text \<open>An operation of the session run by the client, and a change of the client.\<close>

definition on_conn :: "('w session_state, 'a) eff \<Rightarrow> ('w client_state, 'a) eff" where
  "on_conn m st =
     (case m (nc_session (fst st), snd st) of
        ((s', w'), r) \<Rightarrow> (((fst st) \<lparr> nc_session := s' \<rparr>, w'), r))"

definition on_client :: "(NfsClient \<Rightarrow> NfsClient) \<Rightarrow> ('w client_state, unit) eff" where
  "on_client f = modify (\<lambda>(cl, w). (f cl, w))"

definition with_client :: "(NfsClient \<Rightarrow> ('w client_state, 'a) eff) \<Rightarrow> ('w client_state, 'a) eff" where
  "with_client f = with_state (\<lambda>(cl, w). f cl)"

definition observe_reply :: "bytes \<Rightarrow> nat \<Rightarrow> CompoundRes \<Rightarrow> NfsClient \<Rightarrow> NfsClient" where
  "observe_reply tag sent_ops reply cl =
     cl \<lparr> nc_limits := limits_observe (nc_limits cl) tag sent_ops (cr_status reply) (res_nops reply) \<rparr>"

definition call_compound :: "'w transport \<Rightarrow> Compound \<Rightarrow> ('w client_state, CompoundRes) eff" where
  "call_compound tp c =
     with_client (\<lambda>cl.
       try_op (of_sum (budget_ensure (compound_budget_new (nc_max_ops cl)) c)) (\<lambda>_.
       try_op (of_option (compound_request_fits tp cl c)) (\<lambda>(c, fits).
       if \<not> fits then fail_with (rpc_op 0 NFS4ERR_REQ_TOO_BIG)
       else try_op (on_conn (session_compound tp c)) (\<lambda>reply.
            try_op (on_client (observe_reply (cp_tag c) (sat_add (op_count c) 1) reply)) (\<lambda>_.
            ret reply)))))"

definition ambiguous_message :: "RequestSafety \<Rightarrow> RpcError \<Rightarrow> RpcError" where
  "ambiguous_message safety e =
     (if rpc_is_transport e \<and> recovery_action safety (Transport False) False = Ambiguous
      then e \<lparr> re_message :=
        ''ambiguous outcome for mutating compound; request was not retried: '' @ re_message e \<rparr>
      else e)"

definition call_compound_with_safety ::
  "'w transport \<Rightarrow> Compound \<Rightarrow> RequestSafety \<Rightarrow> ('w client_state, CompoundRes) eff" where
  "call_compound_with_safety tp c safety = map_err (ambiguous_message safety) (call_compound tp c)"

text \<open>Send a compound, require every operation to have succeeded and read the reply.\<close>

definition call_all_ok ::
  "'w transport \<Rightarrow> Compound \<Rightarrow> (CompoundRes \<Rightarrow> ('w client_state, 'a) eff) \<Rightarrow> ('w client_state, 'a) eff" where
  "call_all_ok tp c k =
     try_op (call_compound tp c) (\<lambda>res. try_op (expect_all_ok res) (\<lambda>_. k res))"

section \<open>Operations on one object\<close>

text \<open>A compound with a tag that starts at a file handle.\<close>

definition tagged :: "bytes \<Rightarrow> Compound" where
  "tagged tag = compound_tag compound_new tag"

definition at_fh :: "bytes \<Rightarrow> bytes \<Rightarrow> Compound" where
  "at_fh tag fh = c_putfh (tagged tag) fh"

definition type_of_bytes :: "wire \<Rightarrow> nat" where
  "type_of_bytes t = (if 4 \<le> length t then be_nat (take 4 t) else 0)"

definition client_lookup :: "'w transport \<Rightarrow> bytes \<Rightarrow> bytes \<Rightarrow> ('w client_state, bytes) eff" where
  "client_lookup tp dir name =
     call_all_ok tp (c_getfh (c_lookup (at_fh ''lookup'' dir) name)) (\<lambda>res. of_option (r_getfh res 3))"

definition client_lookup_getattr ::
  "'w transport \<Rightarrow> bytes \<Rightarrow> bytes \<Rightarrow> ('w client_state, bytes \<times> nat) eff" where
  "client_lookup_getattr tp dir name =
     call_all_ok tp (c_getattr (c_getfh (c_lookup (at_fh ''lookup_getattr'' dir) name)) [FATTR4_TYPE])
       (\<lambda>res. try_op (of_option (r_getfh res 3)) (\<lambda>fh.
              try_op (of_option (r_getattr res 4)) (\<lambda>t. ret (fh, type_of_bytes t))))"

definition validate_read_length :: "nat \<Rightarrow> nat \<Rightarrow> RpcError + unit" where
  "validate_read_length actual requested =
     (if requested < actual
      then Inl (rpc_transport_with_kind InvalidReply ''NFS READ reply exceeded requested count'')
      else Inr ())"

definition client_read ::
  "'w transport \<Rightarrow> bytes \<Rightarrow> stateid4 \<Rightarrow> nat \<Rightarrow> nat \<Rightarrow> ('w client_state, bytes \<times> bool) eff" where
  "client_read tp fh sid offset count =
     with_client (\<lambda>cl.
       let count = min count (read_per_op_bytes cl)
       in call_all_ok tp (c_read (at_fh ''read'' fh) sid offset count) (\<lambda>res.
            try_op (of_option (r_read res 2)) (\<lambda>(eof, len).
            try_op (of_sum (validate_read_length len count)) (\<lambda>_.
            try_op (of_option (r_read_data res 2)) (\<lambda>data. ret (data, eof))))))"

definition FILE_SYNC4 :: nat where "FILE_SYNC4 = 2"

definition client_write ::
  "'w transport \<Rightarrow> bytes \<Rightarrow> stateid4 \<Rightarrow> nat \<Rightarrow> bytes \<Rightarrow> ('w client_state, nat \<times> nat) eff" where
  "client_write tp fh sid offset data =
     call_all_ok tp (c_write (at_fh ''write'' fh) sid offset FILE_SYNC4 data)
       (\<lambda>res. of_option (r_write res 2))"

definition client_create ::
  "'w transport \<Rightarrow> bytes \<Rightarrow> bytes \<Rightarrow> nat \<Rightarrow> bytes option \<Rightarrow> ('w client_state, bytes) eff" where
  "client_create tp dir name ftype linkdata =
     call_all_ok tp (c_getfh (c_create (at_fh ''create'' dir) name ftype linkdata))
       (\<lambda>res. of_option (r_getfh res 3))"

definition client_mkdir :: "'w transport \<Rightarrow> bytes \<Rightarrow> bytes \<Rightarrow> ('w client_state, bytes) eff" where
  "client_mkdir tp dir name = client_create tp dir name NF4DIR None"

definition client_symlink :: "'w transport \<Rightarrow> bytes \<Rightarrow> bytes \<Rightarrow> bytes \<Rightarrow> ('w client_state, bytes) eff" where
  "client_symlink tp dir name target = client_create tp dir name NF4LNK (Some target)"

definition client_readlink :: "'w transport \<Rightarrow> bytes \<Rightarrow> ('w client_state, bytes) eff" where
  "client_readlink tp fh =
     call_all_ok tp (c_readlink (at_fh ''readlink'' fh)) (\<lambda>res. of_option (r_readlink res 2))"

definition client_getattr :: "'w transport \<Rightarrow> bytes \<Rightarrow> nat list \<Rightarrow> ('w client_state, wire) eff" where
  "client_getattr tp fh attrs =
     call_all_ok tp (c_getattr (at_fh ''getattr'' fh) attrs) (\<lambda>res. of_option (r_getattr res 2))"

definition client_setattr ::
  "'w transport \<Rightarrow> bytes \<Rightarrow> nat option \<Rightarrow> nat option \<Rightarrow> ('w client_state, unit) eff" where
  "client_setattr tp fh mode fsize =
     call_all_ok tp (c_setattr (at_fh ''setattr'' fh) mode fsize) (\<lambda>_. ret ())"

definition client_setattr_values ::
  "'w transport \<Rightarrow> bytes \<Rightarrow> nat option \<Rightarrow> nat option \<Rightarrow> (int \<times> nat) option \<Rightarrow> (int \<times> nat) option
     \<Rightarrow> ('w client_state, unit) eff" where
  "client_setattr_values tp fh mode fsize atime mtime =
     call_all_ok tp (c_setattr_values (at_fh ''setattr-values'' fh) mode fsize atime mtime zero_stateid)
       (\<lambda>_. ret ())"

definition client_setattr_ownership ::
  "'w transport \<Rightarrow> bytes \<Rightarrow> nat option \<Rightarrow> nat option \<Rightarrow> nat option \<times> nat option
     \<Rightarrow> (int \<times> nat) option \<Rightarrow> (int \<times> nat) option \<Rightarrow> ('w client_state, unit) eff" where
  "client_setattr_ownership tp fh mode fsize ownership atime mtime =
     call_all_ok tp
       (c_setattr_ownership (at_fh ''setattr-ownership'' fh) mode fsize ownership atime mtime zero_stateid)
       (\<lambda>_. ret ())"

definition client_remove :: "'w transport \<Rightarrow> bytes \<Rightarrow> bytes \<Rightarrow> ('w client_state, unit) eff" where
  "client_remove tp dir name = call_all_ok tp (c_remove (at_fh ''remove'' dir) name) (\<lambda>_. ret ())"

definition client_rename ::
  "'w transport \<Rightarrow> bytes \<Rightarrow> bytes \<Rightarrow> bytes \<Rightarrow> bytes \<Rightarrow> ('w client_state, unit) eff" where
  "client_rename tp srcdir oldname dstdir newname =
     call_all_ok tp
       (c_rename (c_putfh (c_savefh (at_fh ''rename'' srcdir)) dstdir) oldname newname) (\<lambda>_. ret ())"

definition client_link :: "'w transport \<Rightarrow> bytes \<Rightarrow> bytes \<Rightarrow> bytes \<Rightarrow> ('w client_state, unit) eff" where
  "client_link tp dir src newname =
     call_all_ok tp (c_link (c_putfh (c_savefh (at_fh ''link'' src)) dir) newname) (\<lambda>_. ret ())"

section \<open>Directory pages\<close>

record DirEntry4 =
  de_name :: bytes
  de_cookie :: nat
  de_attrs :: wire

type_synonym 'a decoding = "(RpcError + 'a) option"

text \<open>\<^verbatim>\<open>collect_readdir\<close>: a decoding gives \<open>None\<close> for a slice that does not exist.\<close>

fun collect_entries :: "entry4 list \<Rightarrow> DirEntry4 list \<Rightarrow> nat \<Rightarrow> (DirEntry4 list \<times> nat) decoding" where
  "collect_entries [] out cookie = Some (Inr (out, cookie))"
| "collect_entries (ent # rest) out cookie =
     (case field_slice (en_name ent) of
        None \<Rightarrow> None
      | Some name \<Rightarrow>
          if name = [] \<or> CHR ''/'' \<in> set name \<or> CHR 0x00 \<in> set name
          then Some (Inl (rpc_transport_with_kind InvalidReply
                 ''READDIR returned an invalid name component''))
          else if name \<noteq> ''.'' \<and> name \<noteq> ''..''
          then case field_slice (en_attrs ent) of
                 None \<Rightarrow> None
               | Some attrs \<Rightarrow>
                   collect_entries rest
                     (out @ [\<lparr> de_name = name, de_cookie = en_cookie ent, de_attrs = attrs \<rparr>])
                     (en_cookie ent)
          else collect_entries rest out (en_cookie ent))"

definition collect_readdir :: "entry4 list \<times> bool \<Rightarrow> (DirEntry4 list \<times> nat) decoding" where
  "collect_readdir ok =
     (case collect_entries (fst ok) [] 0 of
        Some (Inr (out, cookie)) \<Rightarrow>
          Some (if \<not> snd ok \<and> cookie = 0
                then Inl (rpc_transport ''READDIR page has no continuation progress'')
                else Inr (out, if snd ok then 0 else cookie))
      | r \<Rightarrow> r)"

definition of_decoding :: "'a decoding \<Rightarrow> ('s, 'a) eff" where
  "of_decoding d = try_op (of_option d) of_sum"

lemma of_decoding_eq:
  "of_decoding d st =
     (st, case d of None \<Rightarrow> Stuck | Some (Inl e) \<Rightarrow> Fail e | Some (Inr x) \<Rightarrow> Done x)"
  by (simp add: of_decoding_def try_op_def of_option_def of_sum_def split: option.split sum.split)

lemma of_decoding_Done [simp]: "of_decoding d st = (st', Done x) \<longleftrightarrow> st' = st \<and> d = Some (Inr x)"
  by (auto simp: of_decoding_eq split: option.splits sum.splits)

text \<open>The counts one of \<open>n\<close> READDIRs of a compound asks for.\<close>

definition page_counts :: "NfsClient \<Rightarrow> nat \<Rightarrow> nat \<Rightarrow> nat \<times> nat" where
  "page_counts cl n max_page_bytes =
     (case readdir_limits cl n of
        (dircount, maxcount) \<Rightarrow>
          let maxcount = min maxcount (min (max max_page_bytes 4096) u32_max)
          in (max (min dircount (maxcount div 4)) 1, maxcount))"

definition zero_verf :: wire where
  "zero_verf = replicate 8 0"

definition readdir_bounded ::
  "'w transport \<Rightarrow> bytes \<Rightarrow> nat \<Rightarrow> nat list \<Rightarrow> nat \<Rightarrow> ('w client_state, DirEntry4 list) eff" where
  "readdir_bounded tp dir cookie attrs max_response_bytes =
     with_client (\<lambda>cl.
       case page_counts cl 1 max_response_bytes of
         (dircount, maxcount) \<Rightarrow>
           call_all_ok tp (c_readdir (at_fh ''readdir'' dir) cookie zero_verf dircount maxcount attrs)
             (\<lambda>res. try_op (of_option (r_readdir res 2)) (\<lambda>ok.
                    try_op (of_decoding (collect_readdir ok)) (\<lambda>page. ret (fst page)))))"

section \<open>Open owners and closes\<close>

definition next_public_open_owner_name :: "NfsClient \<Rightarrow> NfsClient \<times> bytes" where
  "next_public_open_owner_name cl =
     (let id = nc_next_public_open_owner_id cl
      in (cl \<lparr> nc_next_public_open_owner_id := (id + 1) mod 2 ^ 64 \<rparr>,
          oo_name (se_open_owner (nc_session cl)) @ ''-'' @ decimal id))"

definition prepare_reconnect :: "NfsClient \<Rightarrow> NfsClient \<Rightarrow> NfsClient" where
  "prepare_reconnect cl previous =
     cl \<lparr> nc_next_public_open_owner_id := nc_next_public_open_owner_id previous \<rparr>"

definition path_seqid :: "NfsClient \<Rightarrow> nat" where
  "path_seqid cl = oo_seqid (se_path_owner (nc_session cl))"

definition set_path_seqid :: "nat \<Rightarrow> NfsClient \<Rightarrow> NfsClient" where
  "set_path_seqid n cl =
     cl \<lparr> nc_session := (nc_session cl)
       \<lparr> se_path_owner := (se_path_owner (nc_session cl)) \<lparr> oo_seqid := n \<rparr> \<rparr> \<rparr>"

definition close_slot ::
  "'w transport \<Rightarrow> bytes \<Rightarrow> stateid4 \<Rightarrow> OwnerSlot \<Rightarrow> ('w client_state, unit) eff" where
  "close_slot tp fh sid slot =
     with_client (\<lambda>cl.
       let seqid = (case slot of UserSlot \<Rightarrow> 1 | PathSlot \<Rightarrow> path_seqid cl)
       in call_all_ok tp (c_close (at_fh ''close'' fh) seqid sid) (\<lambda>_.
            if slot = PathSlot
            then on_client (\<lambda>cl. set_path_seqid (wrap32_add (path_seqid cl) 1) cl)
            else ret ()))"

definition client_close :: "'w transport \<Rightarrow> bytes \<Rightarrow> stateid4 \<Rightarrow> ('w client_state, unit) eff" where
  "client_close tp fh sid = close_slot tp fh sid UserSlot"

definition close_path :: "'w transport \<Rightarrow> bytes \<Rightarrow> stateid4 \<Rightarrow> ('w client_state, unit) eff" where
  "close_path tp fh sid = close_slot tp fh sid PathSlot"

definition close_unregistered :: "'w transport \<Rightarrow> bytes \<Rightarrow> stateid4 \<Rightarrow> ('w client_state, unit) eff" where
  "close_unregistered tp fh sid = close_slot tp fh sid UserSlot"

definition defer_closes :: "CloseOp list \<Rightarrow> NfsClient \<Rightarrow> NfsClient" where
  "defer_closes closes cl =
     cl \<lparr> nc_deferred_path_closes := nc_deferred_path_closes cl @ closes \<rparr>"

fun drain_closes :: "'w transport \<Rightarrow> CloseOp list \<Rightarrow> ('w client_state, unit) eff" where
  "drain_closes tp [] = ret ()"
| "drain_closes tp (close # remaining) =
     catch_op (close_unregistered tp (clo_fh close) (clo_stateid close))
       (\<lambda>e. if re_status e = NFS4ERR_BAD_STATEID \<or> re_status e = NFS4ERR_OLD_STATEID
            then drain_closes tp remaining
            else try_op (on_client (defer_closes (close # remaining))) (\<lambda>_. fail_with e))
       (\<lambda>_. drain_closes tp remaining)"

definition drain_deferred_path_closes :: "'w transport \<Rightarrow> ('w client_state, unit) eff" where
  "drain_deferred_path_closes tp =
     with_client (\<lambda>cl.
       try_op (on_client (\<lambda>cl. cl \<lparr> nc_deferred_path_closes := [] \<rparr>)) (\<lambda>_.
       drain_closes tp (nc_deferred_path_closes cl)))"

definition client_abandon :: "NfsClient \<Rightarrow> NfsClient" where
  "client_abandon cl = cl \<lparr> nc_session := session_abandon (nc_session cl) \<rparr>"

definition client_shutdown :: "'w transport \<Rightarrow> ('w client_state, unit) eff" where
  "client_shutdown tp = both_ops (drain_deferred_path_closes tp) (on_conn (session_shutdown tp))"

section \<open>Connecting\<close>


definition client_new :: "Session \<Rightarrow> bytes \<Rightarrow> nat \<Rightarrow> RpcError + NfsClient" where
  "client_new s root reserve =
     (let configured = non_zero DEFAULT_MAX_COMPOUND_BYTES;
          limit = effective_request_limit (se_max_requestsize s) configured;
          max_ops = min (se_max_operations s) MAX_COMPOUND_OPS
      in if limit \<le> reserve + 128
         then Inl (rpc_transport (''negotiated NFS request limit '' @ decimal limit @
                '' is too small for the RPC/authentication envelope''))
         else Inr \<lparr> nc_session = s, nc_root = root, nc_max_compound_bytes = limit,
                nc_max_response_bytes = min (se_max_responsesize s) DEFAULT_MAX_COMPOUND_BYTES,
                nc_max_ops = max_ops, nc_limits = limits_new max_ops,
                nc_server_max_request_bytes = se_max_requestsize s,
                nc_configured_max_request_bytes = configured, nc_rpc_envelope_reserve = reserve,
                nc_deferred_path_closes = [], nc_next_public_open_owner_id = 0 \<rparr>)"



section \<open>Limits hold of every client\<close>

definition client_ok :: "NfsClient \<Rightarrow> bool" where
  "client_ok cl \<longleftrightarrow>
     1 \<le> nc_max_ops cl \<and> nc_max_ops cl \<le> MAX_COMPOUND_OPS \<and>
     cl_negotiated_ops (nc_limits cl) = nc_max_ops cl \<and> limits_wf (nc_limits cl) \<and>
     nc_max_compound_bytes cl =
       effective_request_limit (nc_server_max_request_bytes cl) (nc_configured_max_request_bytes cl)"

text \<open>What no operation of a connected client changes.\<close>

definition same_limits :: "NfsClient \<Rightarrow> NfsClient \<Rightarrow> bool" where
  "same_limits cl cl' \<longleftrightarrow>
     nc_root cl' = nc_root cl \<and> nc_max_ops cl' = nc_max_ops cl \<and>
     nc_max_compound_bytes cl' = nc_max_compound_bytes cl \<and>
     nc_max_response_bytes cl' = nc_max_response_bytes cl \<and>
     nc_server_max_request_bytes cl' = nc_server_max_request_bytes cl \<and>
     nc_configured_max_request_bytes cl' = nc_configured_max_request_bytes cl \<and>
     nc_rpc_envelope_reserve cl' = nc_rpc_envelope_reserve cl"

lemma same_limits_refl [simp]: "same_limits cl cl"
  by (simp add: same_limits_def)

lemma same_limits_trans: "same_limits a b \<Longrightarrow> same_limits b c \<Longrightarrow> same_limits a c"
  by (simp add: same_limits_def)

lemma same_limits_arg_bytes [simp]:
  "same_limits a b \<Longrightarrow> max_request_arg_bytes b = max_request_arg_bytes a"
  by (simp add: same_limits_def max_request_arg_bytes_def)

lemma client_ok_limit:
  "client_ok cl \<Longrightarrow> 1 \<le> limits_limit (nc_limits cl) tag \<and> limits_limit (nc_limits cl) tag \<le> nc_max_ops cl"
  using limits_wf_limit [of "nc_limits cl" tag] by (simp add: client_ok_def)

lemma observe_reply_ok:
  "client_ok cl \<Longrightarrow> client_ok (observe_reply tag n res cl) \<and> same_limits cl (observe_reply tag n res cl)"
  by (auto simp: client_ok_def observe_reply_def same_limits_def)

lemma session_update_ok [simp]:
  "client_ok (cl \<lparr> nc_session := s \<rparr>) = client_ok cl"
  "same_limits cl (cl \<lparr> nc_session := s \<rparr>)"
  by (simp_all add: client_ok_def same_limits_def)

lemma max_request_arg_bytes_bound:
  "max_request_arg_bytes cl \<le> nc_server_max_request_bytes cl - nc_rpc_envelope_reserve cl"
  by (simp add: max_request_arg_bytes_def)

section \<open>Requests stay within the limits\<close>

text \<open>A request that honours the operation count and the size the server confirmed,
  the RPC envelope set aside.\<close>

definition request_within :: "(bytes \<Rightarrow> nfs_argop4 list \<Rightarrow> nat) \<Rightarrow> NfsClient \<Rightarrow> Compound \<Rightarrow> bool" where
  "request_within sz cl c \<longleftrightarrow>
     length (cp_ops c) \<le> nc_max_ops cl \<and>
     sz (cp_tag c) (cp_ops c) + nc_rpc_envelope_reserve cl \<le> nc_server_max_request_bytes cl"

definition bounded_step ::
  "(bytes \<Rightarrow> nfs_argop4 list \<Rightarrow> nat) \<Rightarrow> ('w \<times> (Compound \<times> 'w) list) client_state
     \<Rightarrow> ('w \<times> (Compound \<times> 'w) list) client_state \<Rightarrow> bool" where
  "bounded_step sz st st' \<longleftrightarrow>
     (client_ok (fst st) \<longrightarrow>
      client_ok (fst st') \<and> same_limits (fst st) (fst st') \<and>
      (\<exists>new. snd (snd st') = snd (snd st) @ new \<and> list_all (request_within sz (fst st)) (map fst new)))"

lemma request_within_same:
  "same_limits a b \<Longrightarrow> request_within sz b = request_within sz a"
  by (rule ext) (simp add: request_within_def same_limits_def)

interpretation bounded: step_order "bounded_step sz"
proof
  show "bounded_step sz s s" for s :: "('w \<times> (Compound \<times> 'w) list) client_state"
    by (simp add: bounded_step_def)
next
  fix s t u :: "('w \<times> (Compound \<times> 'w) list) client_state"
  assume "bounded_step sz s t" "bounded_step sz t u"
  then show "bounded_step sz s u"
    unfolding bounded_step_def
    by (auto simp: request_within_same intro: same_limits_trans)
qed

text \<open>The size of a request and of the SEQUENCE that goes in front of it: what the
  preflight relies on.\<close>

definition sized_transport :: "(bytes \<Rightarrow> nfs_argop4 list \<Rightarrow> nat) \<Rightarrow> 'w transport \<Rightarrow> bool" where
  "sized_transport sz tp \<longleftrightarrow>
     xdr_encoder (tp_encode tp) sz \<and>
     (\<forall>tag sid q a b ops. sz tag (A_Sequence sid q a b # ops) = SEQUENCE_XDR_BYTES + sz tag ops)"

lemma tp_encode_logging [simp]: "tp_encode (logging tp) = tp_encode tp"
  by (simp add: logging_def)

lemma compound_request_fits_total:
  "\<exists>c' fits. compound_request_fits tp cl c = Some (c', fits) \<and>
     cp_ops c' = cp_ops c \<and> cp_tag c' = cp_tag c"
  using encoded_len_total [of "tp_encode tp" c "max_request_arg_bytes cl - SEQUENCE_XDR_BYTES"]
  by (auto simp: compound_request_fits_def)

lemma compound_request_fits_exact:
  assumes "xdr_encoder (tp_encode tp) sz" "cache_ok sz c"
    and "compound_request_fits tp cl c = Some (c', fits)"
  shows "cache_ok sz c' \<and> cp_ops c' = cp_ops c \<and> cp_tag c' = cp_tag c \<and>
    (fits \<longrightarrow> sz (cp_tag c) (cp_ops c) + SEQUENCE_XDR_BYTES \<le> max_request_arg_bytes cl)"
proof -
  let ?limit = "max_request_arg_bytes cl - SEQUENCE_XDR_BYTES"
  have "aligned_limit ?limit \<le> ?limit"
    by (metis aligned_limit_def div_times_less_eq_dividend le_trans min.cobounded1)
  then show ?thesis
    using assms(3) encoded_len_exact [OF assms(1,2), of ?limit]
    by (auto simp: compound_request_fits_def preflight_def split: if_splits)
qed

text \<open>The outcomes of the dispatcher.  A request it refuses is never sent.\<close>

definition session_unusable :: RpcError where
  "session_unusable =
     rpc_transport ''NFS session is unusable after an ambiguous transport failure; reconnect''"

definition local_refusal :: "RpcError \<Rightarrow> bool" where
  "local_refusal e \<longleftrightarrow>
     e = session_unusable \<or> e = rpc_op 0 NFS4ERR_TOO_MANY_OPS \<or> e = rpc_op 0 NFS4ERR_REQ_TOO_BIG"

lemma session_unusable_status: "rpc_is_transport session_unusable"
  by (simp add: session_unusable_def rpc_transport_def rpc_transport_with_kind_def rpc_is_transport_def)

lemma local_refusal_index: "local_refusal e \<Longrightarrow> rpc_is_transport e \<or> re_op_index e = 0"
  using session_unusable_status by (auto simp: local_refusal_def rpc_op_def)

lemma call_compound_cases:
  obtains (refused) e where "call_compound tp c (cl, w) = ((cl, w), Fail e)"
      "local_refusal e"
  | (failed) c' w' e where "call_compound tp c (cl, w) = ((cl \<lparr> nc_session := poison (nc_session cl) \<rparr>, w'), Fail e)"
      "compound_request_fits tp cl c = Some (c', True)" "sat_add (length (cp_ops c)) 1 \<le> nc_max_ops cl"
      "compound_call tp (insert0 (set_minorversion c' (se_minorversion (nc_session cl)))
         (session_sequence (nc_session cl))) w = (w', Inl e)" "\<not> se_poisoned (nc_session cl)"
  | (answered) c' w' res s' where
      "call_compound tp c (cl, w) =
        ((observe_reply (cp_tag c) (sat_add (length (cp_ops c)) 1) res (cl \<lparr> nc_session := s' \<rparr>), w'), Done res)"
      "compound_request_fits tp cl c = Some (c', True)" "sat_add (length (cp_ops c)) 1 \<le> nc_max_ops cl"
      "compound_call tp (insert0 (set_minorversion c' (se_minorversion (nc_session cl)))
         (session_sequence (nc_session cl))) w = (w', Inr res)" "\<not> se_poisoned (nc_session cl)"
      "advance_slot (nc_session cl) res = Some s'"
proof -
  obtain c' fits where fits: "compound_request_fits tp cl c = Some (c', fits)"
    "cp_ops c' = cp_ops c" "cp_tag c' = cp_tag c"
    using compound_request_fits_total by blast
  let ?call = "call_compound tp c (cl, w)"
  note defs = call_compound_def with_client_def try_op_def eff_defs budget_ensure_def compound_budget_new_def op_count_def
  show ?thesis
  proof (cases "sat_add (length (cp_ops c)) 1 \<le> nc_max_ops cl \<and> fits")
    case False
    then show ?thesis using fits by (intro refused [of "rpc_op 0 (if \<not> sat_add (length (cp_ops c)) 1 \<le> nc_max_ops cl
          then NFS4ERR_TOO_MANY_OPS else NFS4ERR_REQ_TOO_BIG)"]) (auto simp: defs local_refusal_def)
  next
    case True
    show ?thesis
    proof (cases rule: session_compound_cases [of "nc_session cl" tp c' w])
      case (refused e)
      then have "?call = ((cl, w), Fail e)" "e = session_unusable"
        using fits True by (auto simp: defs on_conn_def session_compound_def session_unusable_def Let_def)
      then show ?thesis by (intro that(1)) (auto simp: local_refusal_def)
    next
      case (failed w' e)
      then show ?thesis
        using fits True by (intro that(2) [of w' e c']) (auto simp: defs on_conn_def)
    next
      case (answered w' res s')
      then show ?thesis
        using fits True by (intro that(3) [of res s' w' c']) (auto simp: defs on_conn_def on_client_def)
    qed
  qed
qed

lemma call_compound_bounded:
  assumes "sized_transport sz tp" "cache_ok sz c"
  shows "keeps (bounded_step sz) (call_compound (logging tp) c)"
  unfolding keeps_def
proof
  fix st :: "('a \<times> (Compound \<times> 'a) list) client_state"
  obtain cl w log where st: "st = (cl, (w, log))" by (metis prod.exhaust)
  have enc: "xdr_encoder (tp_encode (logging tp)) sz" using assms(1) by (simp add: sized_transport_def)
  let ?req = "\<lambda>c. insert0 (set_minorversion c (se_minorversion (nc_session cl))) (session_sequence (nc_session cl))"
  have within: "request_within sz cl (?req c')"
    if "compound_request_fits (logging tp) cl c = Some (c', True)" "client_ok cl"
      "sat_add (length (cp_ops c)) 1 \<le> nc_max_ops cl" for c'
  proof -
    have "cp_ops c' = cp_ops c" "cp_tag c' = cp_tag c"
      "sz (cp_tag c) (cp_ops c) + SEQUENCE_XDR_BYTES \<le> max_request_arg_bytes cl"
      using compound_request_fits_exact [OF enc assms(2) that(1)] by auto
    moreover have "nc_max_ops cl < u64_max"
      using that(2) by (simp add: client_ok_def MAX_COMPOUND_OPS_def u64_max_def)
    ultimately show ?thesis
      using assms(1) that(3) max_request_arg_bytes_bound [of cl]
      by (auto simp: request_within_def sized_transport_def session_sequence_def set_minorversion_def
          insert0_def sat_add_def SEQUENCE_XDR_BYTES_def)
  qed
  show "bounded_step sz st (fst (call_compound (logging tp) c st))"
  proof (cases rule: call_compound_cases [of "logging tp" c cl "(w, log)"])
    case (refused e)
    then show ?thesis by (simp add: st bounded_step_def)
  next
    case (failed c' w' e)
    moreover from failed(4) obtain w1 where "w' = (w1, log @ [(?req c', w)])"
      by (auto simp: logging_call split: prod.splits)
    ultimately show ?thesis using within by (simp add: st bounded_step_def)
  next
    case (answered c' w' res s')
    moreover from answered(4) obtain w1 where "w' = (w1, log @ [(?req c', w)])"
      by (auto simp: logging_call split: prod.splits)
    ultimately show ?thesis
      using within observe_reply_ok [of "cl \<lparr> nc_session := s' \<rparr>"]
      by (auto simp: st bounded_step_def same_limits_def)
  qed
qed

text \<open>Requests that were just built carry no cached size.\<close>

lemma push_cache [simp]: "cp_size_check (push c op) = None"
  by (simp add: push_def)

lemma fresh_cache_ok [simp]: "cp_size_check c = None \<Longrightarrow> cache_ok sz c"
  by (rule cache_ok_clear)

lemma call_all_ok_bounded:
  assumes "sized_transport sz tp" "cp_size_check c = None" "\<And>res. keeps (bounded_step sz) (k res)"
  shows "keeps (bounded_step sz) (call_all_ok (logging tp) c k)"
  unfolding call_all_ok_def expect_all_ok_def using assms
  by (intro bounded.step_intros call_compound_bounded) (auto intro: bounded.step_intros split: option.split)

lemma with_client_keeps: "(\<And>cl. keeps R (f cl)) \<Longrightarrow> keeps R (with_client f)"
  by (auto simp: with_client_def intro: keeps_with_state)

lemma on_client_keeps: "(\<And>cl w. R (cl, w) (f cl, w)) \<Longrightarrow> keeps R (on_client f)"
  by (auto simp: on_client_def intro: keeps_modify)

section \<open>Connecting yields a usable client\<close>


lemma client_new_ok:
  assumes "client_new s root reserve = Inr cl" "0 < se_max_operations s" "0 < se_max_responsesize s"
  shows "client_ok cl \<and> nc_session cl = s \<and> nc_root cl = root \<and>
    reserve + 128 < nc_max_compound_bytes cl \<and> nc_max_compound_bytes cl \<le> nc_server_max_request_bytes cl \<and>
    nc_server_max_request_bytes cl = se_max_requestsize s \<and>
    nc_max_ops cl \<le> se_max_operations s \<and> 0 < nc_max_response_bytes cl \<and>
    nc_max_response_bytes cl \<le> se_max_responsesize s"
  using assms
  by (auto simp: client_new_def Let_def client_ok_def effective_request_limit_def non_zero_def
      DEFAULT_MAX_COMPOUND_BYTES_def MAX_COMPOUND_OPS_def limits_new_def limits_wf_def split: if_splits)

text \<open>A client of a fresh session.\<close>

definition fresh_client :: NfsClient where
  "fresh_client = projr (client_new (session_start 2 None) ''r'' 1024)"

lemma fresh_client_ok: "client_ok fresh_client"
proof -
  have "client_new (session_start 2 None) ''r'' 1024 = Inr fresh_client"
    by (simp add: fresh_client_def client_new_def session_start_def Let_def effective_request_limit_def non_zero_def
        DEFAULT_MAX_COMPOUND_BYTES_def)
  from client_new_ok [OF this] show ?thesis by (simp add: session_start_def)
qed








section \<open>Owner names\<close>

definition undecimal :: "string \<Rightarrow> nat" where
  "undecimal s = foldl (\<lambda>n c. 10 * n + (of_char c - 48)) 0 s"

lemma undecimal_decimal: "undecimal (decimal n) = n"
proof (induction n rule: decimal.induct)
  case (1 n)
  show ?case
  proof (cases "n < 10")
    case True
    then show ?thesis by (subst decimal.simps) (simp add: undecimal_def)
  next
    case False
    then have "undecimal (decimal n) = 10 * undecimal (decimal (n div 10)) + n mod 10"
      by (subst decimal.simps) (simp add: undecimal_def)
    with 1 False show ?thesis by simp
  qed
qed

lemma decimal_inj [simp]: "decimal m = decimal n \<longleftrightarrow> m = n"
  by (metis undecimal_decimal)

lemma mod_add_inj:
  fixes a i j M :: nat
  assumes "(a + i) mod M = (a + j) mod M" "i < M" "j < M"
  shows "i = j"
proof (rule ccontr)
  have "False" if "p < q" "q < M" "(a + p) mod M = (a + q) mod M" for p q
  proof -
    have "M dvd (a + q) - (a + p)" using that by (intro mod_eq_dvd_iff_nat [THEN iffD1]) auto
    with that show False by (auto dest: dvd_imp_le)
  qed
  moreover assume "i \<noteq> j"
  ultimately show False using assms by (metis linorder_neqE_nat)
qed

text \<open>The names a client hands out one after the other.\<close>

fun owner_names :: "nat \<Rightarrow> NfsClient \<Rightarrow> NfsClient \<times> bytes list" where
  "owner_names 0 cl = (cl, [])"
| "owner_names (Suc n) cl =
     (let (cl1, name) = next_public_open_owner_name cl; (cl2, names) = owner_names n cl1
      in (cl2, name # names))"

definition owner_name :: "bytes \<Rightarrow> nat \<Rightarrow> bytes" where
  "owner_name base k = base @ ''-'' @ decimal k"

lemma owner_names_eq:
  fixes M :: nat
  assumes M: "M = 2 ^ 64"
  shows "nc_next_public_open_owner_id cl < M \<Longrightarrow>
     owner_names n cl =
       (cl \<lparr> nc_next_public_open_owner_id := (nc_next_public_open_owner_id cl + n) mod M \<rparr>,
        map (\<lambda>i. owner_name (oo_name (se_open_owner (nc_session cl)))
                  ((nc_next_public_open_owner_id cl + i) mod M)) [0..<n])"
proof (induction n arbitrary: cl)
  case (Suc n)
  let ?cl = "fst (next_public_open_owner_name cl)"
  have mod: "(Suc a mod M + i) mod M = Suc (a + i) mod M" for a i
    using mod_add_left_eq [of "Suc a" M i] by simp
  have cl: "next_public_open_owner_name cl =
      (cl \<lparr> nc_next_public_open_owner_id := Suc (nc_next_public_open_owner_id cl) mod M \<rparr>,
       owner_name (oo_name (se_open_owner (nc_session cl))) (nc_next_public_open_owner_id cl))"
    by (simp add: next_public_open_owner_name_def owner_name_def Let_def M)
  have "0 < M" by (simp add: M)
  then have IH: "owner_names n ?cl =
       (?cl \<lparr> nc_next_public_open_owner_id := (nc_next_public_open_owner_id ?cl + n) mod M \<rparr>,
        map (\<lambda>i. owner_name (oo_name (se_open_owner (nc_session ?cl)))
                  ((nc_next_public_open_owner_id ?cl + i) mod M)) [0..<n])"
    by (intro Suc.IH) (simp add: cl)
  show ?case
    using Suc.prems IH unfolding owner_names.simps map_upt_Suc cl Let_def fst_conv
    by (simp add: mod)
qed simp

section \<open>Operations end and leave unrelated state alone\<close>

text \<open>Nothing but the bookkeeping of closes touches the deferred ones.\<close>

definition same_deferred :: "'w client_state \<Rightarrow> 'w client_state \<Rightarrow> bool" where
  "same_deferred st st' \<longleftrightarrow> nc_deferred_path_closes (fst st') = nc_deferred_path_closes (fst st)"

interpretation undeferred: step_order same_deferred
  by unfold_locales (simp_all add: same_deferred_def)

lemma call_compound_deferred: "keeps same_deferred (call_compound tp c)"
  unfolding keeps_def
proof
  fix st :: "'a client_state"
  obtain cl w where "st = (cl, w)" by fastforce
  then show "same_deferred st (fst (call_compound tp c st))"
    by (cases rule: call_compound_cases [of tp c cl w]) (simp_all add: same_deferred_def observe_reply_def)
qed

lemma call_all_ok_deferred:
  assumes "\<And>res. keeps same_deferred (k res)"
  shows "keeps same_deferred (call_all_ok tp c k)"
  unfolding call_all_ok_def expect_all_ok_def
  by (intro undeferred.step_intros call_compound_deferred)
     (auto intro: undeferred.step_intros assms split: option.split)

lemma close_slot_deferred: "keeps same_deferred (close_slot tp fh sid slot)"
  unfolding close_slot_def Let_def
  by (auto intro!: with_client_keeps call_all_ok_deferred on_client_keeps undeferred.ret
      simp: same_deferred_def set_path_seqid_def)

text \<open>A dispatched compound always returns, and what it returns was validated.\<close>

lemma call_compound_not_Stuck [simp]: "call_compound tp c st \<noteq> (st', Stuck)"
  by (cases st) (metis call_compound_cases outcome.distinct(4) outcome.distinct(6) snd_conv outcome.distinct(3,5))

lemma call_compound_accepts:
  assumes "call_compound tp c (cl, w) = (st', Done res)"
  shows "accepts (session_sequence (nc_session cl) # cp_ops c) res"
proof (cases rule: call_compound_cases [of tp c cl w])
  case (answered c' w' res' s')
  have "cp_ops c' = cp_ops c"
    using compound_request_fits_total [of tp cl c] answered(2) by auto
  with compound_call_Inr [OF answered(4)] answered(1) assms show ?thesis by simp
qed (use assms in auto)

lemma call_all_ok_cases:
  assumes "call_all_ok tp c k (cl, w) = (st', r)"
  shows "(\<exists>st1 res. call_compound tp c (cl, w) = (st1, Done res) \<and> cr_status res = NFS_OK \<and> k res st1 = (st', r)) \<or>
    (\<exists>e. r = Fail e)"
  using assms call_compound_accepts [of tp c cl w]
  by (auto simp: call_all_ok_def try_op_cases expect_all_ok_accepts split: if_splits)

lemma close_slot_not_Stuck: "close_slot tp fh sid slot st \<noteq> (st', Stuck)"
proof
  assume "close_slot tp fh sid slot st = (st', Stuck)"
  moreover obtain cl w where "st = (cl, w)" by fastforce
  ultimately show False
    using call_all_ok_cases [of tp _ _ cl w st' Stuck]
    by (fastforce simp: close_slot_def with_client_def with_state_def Let_def on_client_def modify_def ret_def
        split: if_splits)
qed

text \<open>The request that closes a deferred open, and a reply to it that ends the matter:
  the open is closed, or the server does not know its state id any more.\<close>

definition close_request :: "CloseOp \<Rightarrow> Compound \<Rightarrow> bool" where
  "close_request close c \<longleftrightarrow>
     tl (cp_ops c) = [A_PutFh (clo_fh close), A_Close 1 (clo_stateid close)]"

definition stale_stateid :: "nat \<Rightarrow> bool" where
  "stale_stateid st \<longleftrightarrow> st = NFS4ERR_BAD_STATEID \<or> st = NFS4ERR_OLD_STATEID"

definition close_settled :: "'w transport \<Rightarrow> Compound \<times> 'w \<Rightarrow> bool" where
  "close_settled tp sent \<longleftrightarrow>
     (case snd (compound_call tp (fst sent) (snd sent)) of
        Inl e \<Rightarrow> stale_stateid (re_status e)
      | Inr res \<Rightarrow> cr_status res = NFS_OK \<or> stale_stateid (cr_status res))"

lemma local_refusal_not_stale: "local_refusal e \<Longrightarrow> \<not> stale_stateid (re_status e)"
  using session_unusable_status
  by (auto simp: local_refusal_def stale_stateid_def rpc_is_transport_def STATUS_TRANSPORT_def u32_max_def
      rpc_op_def NFS4ERR_BAD_STATEID_def NFS4ERR_OLD_STATEID_def NFS4ERR_TOO_MANY_OPS_def
      NFS4ERR_REQ_TOO_BIG_def)

lemma close_unregistered_sent:
  fixes tp :: "'w transport" and close :: CloseOp
  assumes "close_unregistered (logging tp) (clo_fh close) (clo_stateid close) (cl, (w, log)) = ((cl1, (w1, log1)), r)"
  obtains (refused) e where "r = Fail e" "local_refusal e" "log1 = log"
  | (sent) c where "log1 = log @ [(c, w)]" "close_request close c"
      "case r of Done _ \<Rightarrow> close_settled tp (c, w)
        | Fail e \<Rightarrow> close_settled tp (c, w) \<longleftrightarrow> stale_stateid (re_status e) | Stuck \<Rightarrow> False"
proof -
  let ?c = "c_close (at_fh ''close'' (clo_fh close)) 1 (clo_stateid close)"
  have run: "call_all_ok (logging tp) ?c (\<lambda>_. ret ()) (cl, (w, log)) = ((cl1, (w1, log1)), r)"
    using assms by (simp add: close_unregistered_def close_slot_def with_client_def with_state_def ret_def)
  let ?req = "\<lambda>c. insert0 (set_minorversion c (se_minorversion (nc_session cl))) (session_sequence (nc_session cl))"
  have req: "close_request close (?req c')" if "compound_request_fits (logging tp) cl ?c = Some (c', True)" for c'
    using compound_request_fits_total [of "logging tp" cl ?c] that
    by (auto simp: close_request_def c_close_def at_fh_def c_putfh_def push_def tagged_def)
  show thesis
  proof (cases rule: call_compound_cases [of "logging tp" ?c cl "(w, log)"])
    case (refused e)
    then show thesis using run by (intro that(1) [of e]) (auto simp: call_all_ok_def try_op_def)
  next
    case (failed c' w' e)
    then have "log1 = log @ [(?req c', w)]" "r = Fail e" "snd (compound_call tp (?req c') w) = Inl e"
      using run by (auto simp: call_all_ok_def try_op_def logging_call split: prod.splits)
    then show thesis using req [OF failed(2)] by (intro that(2)) (auto simp: close_settled_def)
  next
    case (answered c' w' res s')
    then have call: "snd (compound_call tp (?req c') w) = Inr res" "snd w' = log @ [(?req c', w)]"
      by (auto simp: logging_call split: prod.splits)
    have "accepts (cp_ops (?req c')) res" using compound_call_Inr [OF answered(4)] by simp
    then have "log1 = snd w'" "r = (if cr_status res = NFS_OK then Done () else Fail (rpc_op (res_nops res - 1) (cr_status res)))"
      using run answered(1) by (auto simp: call_all_ok_def try_op_def expect_all_ok_accepts ret_def split: if_splits)
    then show thesis
      using req [OF answered(2)] call by (intro that(2)) (auto simp: close_settled_def rpc_op_def)
  qed
qed

text \<open>What a drain did: the first \<open>k\<close> closes were sent in order and settled, the others
  are still deferred; it stopped at the one whose request was refused by the client
  itself, or was sent and not settled.\<close>

definition drained :: "'w transport \<Rightarrow> CloseOp list \<Rightarrow> nat \<Rightarrow> (Compound \<times> 'w) list \<Rightarrow> CloseOp list \<Rightarrow> unit outcome \<Rightarrow> bool" where
  "drained tp closes k sent left r \<longleftrightarrow>
     k \<le> length closes \<and> left = drop k closes \<and>
     list_all2 (\<lambda>close s. close_request close (fst s) \<and> close_settled tp s) (take k closes) (take k sent) \<and>
     (case r of
        Done _ \<Rightarrow> k = length closes \<and> length sent = k
      | Fail e \<Rightarrow> k < length closes \<and> \<not> stale_stateid (re_status e) \<and>
          (case drop k sent of
             [] \<Rightarrow> local_refusal e
           | s # further \<Rightarrow> further = [] \<and> close_request (closes ! k) (fst s) \<and> \<not> close_settled tp s)
      | Stuck \<Rightarrow> False)"

lemma drained_Cons:
  "\<lbrakk>drained tp closes k sent left r; close_request close (fst s); close_settled tp s\<rbrakk> \<Longrightarrow>
     drained tp (close # closes) (Suc k) (s # sent) left r"
  by (auto simp: drained_def split: outcome.splits list.splits)

lemma drain_closes_spec:
  assumes "nc_deferred_path_closes cl = []"
  shows "\<exists>cl' w' sent r k. drain_closes (logging tp) closes (cl, (w, log)) = ((cl', (w', log @ sent)), r) \<and>
    drained tp closes k sent (nc_deferred_path_closes cl') r"
  using assms
proof (induction closes arbitrary: cl w log)
  case Nil
  then show ?case by (simp add: drained_def ret_def)
next
  case (Cons close rest)
  obtain cl1 w1 log1 r1 where c: "close_unregistered (logging tp) (clo_fh close) (clo_stateid close) (cl, (w, log)) =
      ((cl1, (w1, log1)), r1)" by (metis prod.exhaust)
  have empty: "nc_deferred_path_closes cl1 = []"
    using keepsD [OF close_slot_deferred] c Cons.prems
    by (fastforce simp: close_unregistered_def same_deferred_def)
  have kept: "drain_closes (logging tp) (close # rest) (cl, (w, log)) =
      ((cl1 \<lparr> nc_deferred_path_closes := close # rest \<rparr>, (w1, log1)), Fail e)"
    if "r1 = Fail e" "\<not> stale_stateid (re_status e)" for e
    using c that empty by (auto simp: catch_op_def try_op_def on_client_def modify_def fail_with_def defer_closes_def
        stale_stateid_def)
  have next': "drain_closes (logging tp) (close # rest) (cl, (w, log)) = drain_closes (logging tp) rest (cl1, (w1, log1))"
    if "case r1 of Done _ \<Rightarrow> True | Fail e \<Rightarrow> stale_stateid (re_status e) | Stuck \<Rightarrow> False"
    using c that by (auto simp: catch_op_def stale_stateid_def split: outcome.splits)
  from c show ?case
  proof (cases rule: close_unregistered_sent)
    case (refused e)
    then show ?thesis
      using kept [of e] local_refusal_not_stale [of e]
      by (intro exI [of _ "cl1 \<lparr> nc_deferred_path_closes := close # rest \<rparr>"] exI [of _ w1] exI [of _ "[]"]
          exI [of _ r1] exI [of _ 0]) (simp add: drained_def)
  next
    case (sent req)
    show ?thesis
    proof (cases "close_settled tp (req, w)")
      case True
      then have "case r1 of Done _ \<Rightarrow> True | Fail e \<Rightarrow> stale_stateid (re_status e) | Stuck \<Rightarrow> False"
        using sent(3) by (cases r1) auto
      moreover obtain cl' w' new r k where "drain_closes (logging tp) rest (cl1, (w1, log1)) = ((cl', (w', log1 @ new)), r)"
        "drained tp rest k new (nc_deferred_path_closes cl') r"
        using Cons.IH [OF empty, of w1 log1] by blast
      ultimately show ?thesis
        using next' sent(1,2) True drained_Cons [of tp rest k new _ r close "(req, w)"]
        by (intro exI [of _ cl'] exI [of _ w'] exI [of _ "(req, w) # new"] exI [of _ r] exI [of _ "Suc k"]) simp
    next
      case False
      then obtain e where "r1 = Fail e" "\<not> stale_stateid (re_status e)" using sent(3) by (cases r1) auto
      then show ?thesis
        using kept [of e] sent(1,2) False
        by (intro exI [of _ "cl1 \<lparr> nc_deferred_path_closes := close # rest \<rparr>"] exI [of _ w1] exI [of _ "[(req, w)]"]
            exI [of _ r1] exI [of _ 0]) (simp add: drained_def)
    qed
  qed
qed


section \<open>Properties\<close>



text \<open>C38 (owner names).  The names given to public OPENs are distinct, across a reconnect
  too: the replacement continues the numbering of the connection it replaces, so
  its OPENs cannot collide with state that is still live there.\<close>

theorem owner_names_distinct:
  assumes "m + n \<le> 2 ^ 64" "nc_next_public_open_owner_id old < 2 ^ 64"
    and "owner_names m old = (old', names)" "owner_names n (prepare_reconnect cl old') = (cl', names')"
    and "se_open_owner (nc_session cl) = se_open_owner (nc_session old)"
  shows "distinct (names @ names') \<and> length (names @ names') = m + n"
proof -
  define M :: nat where "M = 2 ^ 64"
  note small = assms(1,2) [folded M_def]
  define f where "f = (\<lambda>i. owner_name (oo_name (se_open_owner (nc_session old))) ((nc_next_public_open_owner_id old + i) mod M))"
  have names: "names = map f [0..<m]" and old': "old' = old \<lparr> nc_next_public_open_owner_id :=
      (nc_next_public_open_owner_id old + m) mod M \<rparr>"
    using owner_names_eq [OF M_def small(2), of m] assms(3) by (auto simp: f_def)
  have names': "names' = map f [m..<m + n]"
  proof -
    have "nc_next_public_open_owner_id (prepare_reconnect cl old') < M"
      using small(2) by (simp add: prepare_reconnect_def old')
    then have "names' = map (\<lambda>i. f (m + i)) [0..<n]"
      using owner_names_eq [OF M_def, of "prepare_reconnect cl old'" n] assms(4,5)
      by (auto simp: f_def old' prepare_reconnect_def mod_add_left_eq add.assoc)
    also have "\<dots> = map f (map (\<lambda>i. i + m) [0..<n])" by (simp add: add.commute)
    also have "map (\<lambda>i. i + m) [0..<n] = [m..<m + n]" using map_add_upt [of m n] by (simp add: add.commute)
    finally show ?thesis .
  qed
  have inj: "inj_on f {0..<m + n}"
  proof (rule inj_onI)
    fix i j assume ij: "i \<in> {0..<m + n}" "j \<in> {0..<m + n}" "f i = f j"
    then have "(nc_next_public_open_owner_id old + i) mod M = (nc_next_public_open_owner_id old + j) mod M"
      by (simp add: f_def owner_name_def)
    then show "i = j" using ij small(1) by (intro mod_add_inj [of _ i M j]) auto
  qed
  have "names @ names' = map f [0..<m + n]" by (simp add: names names' upt_add_eq_append [of 0 m n])
  then show ?thesis using inj by (simp add: distinct_map)
qed

theorem owner_names_distinct_witness:
  "\<exists>cl :: NfsClient. distinct (snd (owner_names 2 cl) @ snd (owner_names 1 (prepare_reconnect cl (fst (owner_names 2 cl)))))"
proof -
  obtain cl where cl: "client_new (session_start 2 None) ''r'' 1024 = Inr cl"
    by (simp add: client_new_def session_start_def Let_def effective_request_limit_def non_zero_def
        DEFAULT_MAX_COMPOUND_BYTES_def)
  then have "nc_next_public_open_owner_id cl = 0"
    by (auto simp: client_new_def Let_def split: if_splits)
  then have "distinct (snd (owner_names 2 cl) @ snd (owner_names 1 (prepare_reconnect cl (fst (owner_names 2 cl)))))"
    using owner_names_distinct [of 2 1 cl "fst (owner_names 2 cl)" "snd (owner_names 2 cl)" cl
        "fst (owner_names 1 (prepare_reconnect cl (fst (owner_names 2 cl))))"
        "snd (owner_names 1 (prepare_reconnect cl (fst (owner_names 2 cl))))"]
    unfolding prod.collapse by simp
  then show ?thesis by blast
qed

text \<open>C39 (deferred closes).  Draining the deferred closes always ends, and no close is lost.
  A close leaves the queue only after its CLOSE was put on the wire, in the order
  of the queue, and the server either closed the open or no longer knows its
  state id.  On any other error, be it a refusal by the client, a transport
  failure or a failing reply, that close and all the closes behind it stay
  deferred in their order, nothing more is sent, and the drain reports the error.
  It reports success only when every close was sent and settled.\<close>

theorem drain_deferred_suffix:
  "\<exists>cl' w' sent r k.
     drain_deferred_path_closes (logging tp) (cl, (w, log)) = ((cl', (w', log @ sent)), r) \<and>
     drained tp (nc_deferred_path_closes cl) k sent (nc_deferred_path_closes cl') r"
proof -
  let ?cl = "cl \<lparr> nc_deferred_path_closes := [] \<rparr>"
  have "drain_deferred_path_closes (logging tp) (cl, (w, log)) =
      drain_closes (logging tp) (nc_deferred_path_closes cl) (?cl, (w, log))"
    by (simp add: drain_deferred_path_closes_def with_client_def with_state_def try_op_def on_client_def modify_def)
  then show ?thesis using drain_closes_spec [of ?cl tp "nc_deferred_path_closes cl" w log] by simp
qed

end
