(* ===== verification/Nfs_Batch.thy ===== *)
theory Nfs_Batch
  imports Nfs_Client
begin

text \<open>
  The vectored operations of \<^verbatim>\<open>client.rs\<close>: \<^verbatim>\<open>batch_ops\<close> and the operations built on
  it.

  The closures a vectored operation passes are arguments: \<open>add\<close> appends the
  operations of one item, \<open>extr\<close> reads the result of the i-th item of a reply
  (given how many results were read before it), \<open>on_failure\<close> runs before an error
  is returned.
\<close>

section \<open>Requests\<close>

record ReadOp4 =
  rd_fh :: bytes
  rd_stateid :: stateid4
  rd_offset :: nat
  rd_count :: nat

record WriteOp4 =
  wr_fh :: bytes
  wr_stateid :: stateid4
  wr_offset :: nat
  wr_data :: bytes

record GetattrOp =
  ga_fh :: bytes
  ga_attrs :: "nat list"

record SetattrOp =
  sa_fh :: bytes
  sa_mode :: "nat option"
  sa_uid :: "nat option"
  sa_gid :: "nat option"
  sa_size :: "nat option"
  sa_atime :: "(int \<times> nat) option"
  sa_mtime :: "(int \<times> nat) option"

record RenameOp =
  rn_srcdir :: bytes
  rn_oldname :: bytes
  rn_dstdir :: bytes
  rn_newname :: bytes

record CreateOp =
  cr_dir :: bytes
  cr_name :: bytes
  cr_ftype :: nat
  cr_linkdata :: "bytes option"

record LinkOp =
  ln_dstdir :: bytes
  ln_src :: bytes
  ln_newname :: bytes

record OpenOp4 =
  op_dir :: bytes
  op_name :: bytes
  op_access :: nat
  op_create :: OpenCreate

record CopyOp =
  cy_src_fh :: bytes
  cy_src_stateid :: stateid4
  cy_dst_fh :: bytes
  cy_dst_stateid :: stateid4
  cy_src_offset :: nat
  cy_dst_offset :: nat
  cy_count :: nat

section \<open>The batching engine\<close>

definition batch_is_read_only :: "bytes \<Rightarrow> bool" where
  "batch_is_read_only tag \<longleftrightarrow> tag \<in> set [''getattrv'', ''vstatfs_impl'', ''readlinkv'', ''readv'']"

definition batch_resource_progress :: "bytes \<Rightarrow> nat \<Rightarrow> nat \<Rightarrow> nat option \<Rightarrow> nat option" where
  "batch_resource_progress tag per_op status failed_op =
     (if batch_is_read_only tag \<and> (status = NFS4ERR_RESOURCE \<or> status = NFS4ERR_TOO_MANY_OPS)
      then Some (((case failed_op of None \<Rightarrow> 0 | Some i \<Rightarrow> i) - 1) div per_op)
      else None)"

definition caller_index :: "nat \<Rightarrow> nat \<Rightarrow> nat \<Rightarrow> nat \<Rightarrow> nat" where
  "caller_index op_index per_op chunk_start chunk_len =
     (let local = (op_index - 1) div per_op in chunk_start + min local (chunk_len - 1))"

type_synonym 't adder = "Compound \<Rightarrow> 't \<Rightarrow> nat \<Rightarrow> Compound"
type_synonym 'r extractor = "nat \<Rightarrow> CompoundRes \<Rightarrow> nat \<Rightarrow> 'r decoding"

text \<open>\<^verbatim>\<open>for op in chunk { add(&mut c, op, global); global += 1 }\<close> and
  \<^verbatim>\<open>for i in is { out.push(extract(&res, i)?) }\<close>.\<close>

fun add_chunk :: "'t adder \<Rightarrow> Compound \<Rightarrow> 't list \<Rightarrow> nat \<Rightarrow> Compound" where
  "add_chunk add c [] i = c"
| "add_chunk add c (op # ops) i = add_chunk add (add c op i) ops (i + 1)"

fun extract_all :: "'r extractor \<Rightarrow> CompoundRes \<Rightarrow> nat list \<Rightarrow> 'r list \<Rightarrow> 'r list decoding" where
  "extract_all extr res [] out = Some (Inr out)"
| "extract_all extr res (i # is) out =
     (case extr (length out) res i of
        None \<Rightarrow> None
      | Some (Inl e) \<Rightarrow> Some (Inl e)
      | Some (Inr r) \<Rightarrow> extract_all extr res is (out @ [r]))"

definition first_bad :: "CompoundRes \<Rightarrow> nat option" where
  "first_bad res = find (\<lambda>i. rv_op_status (res_view res) i \<noteq> NFS_OK) [0..<res_nops res]"

definition bad_status :: "CompoundRes \<Rightarrow> nat" where
  "bad_status res =
     (case first_bad res of None \<Rightarrow> cr_status res | Some i \<Rightarrow> rv_op_status (res_view res) i)"

text \<open>The loop variables \<open>global\<close>, \<open>max_items\<close> and \<open>out\<close>.\<close>

type_synonym 'r batch_vars = "nat \<times> nat \<times> 'r list"
type_synonym ('w, 'r) batch_step =
  "'w client_state \<Rightarrow> 'w client_state \<times> ('r batch_vars, 'r list outcome) ctl"

definition fail_after :: "('w client_state, unit) eff \<Rightarrow> RpcError \<Rightarrow> ('w, 'r) batch_step" where
  "fail_after hook e = leave_with (try_op hook (\<lambda>_. fail_with e))"

text \<open>The end of an iteration: the reply is not retried.\<close>

definition batch_settle ::
  "nat \<Rightarrow> 'r extractor \<Rightarrow> ('r list \<Rightarrow> ('w client_state, unit) eff) \<Rightarrow> nat \<Rightarrow> nat \<Rightarrow> 'r list
     \<Rightarrow> CompoundRes \<Rightarrow> ('w, 'r) batch_step" where
  "batch_settle per_op extr on_failure chunk_start n out res =
     (case first_bad res of
        Some i \<Rightarrow>
          try_in (of_decoding (extract_all extr res [0..<min ((i - 1) div per_op) n] out)) (\<lambda>out.
            fail_after (on_failure out)
              (rpc_op (caller_index i per_op chunk_start n) (rv_op_status (res_view res) i)))
      | None \<Rightarrow>
          if cr_status res \<noteq> NFS_OK
          then let present = res_nops res - 1
               in try_in (of_decoding (extract_all extr res [0..<min (present div per_op) n] out)) (\<lambda>out.
                    fail_after (on_failure out)
                      (rpc_op (chunk_start + min (present div per_op) (n - 1)) (cr_status res)))
          else try_in (of_decoding (extract_all extr res [0..<n] out)) (\<lambda>out.
                 again (chunk_start + n, usize_max, out)))"

text \<open>Read-only shapes keep the completed items and go on when the server ran out of
  resources.\<close>

definition batch_progress ::
  "bytes \<Rightarrow> nat \<Rightarrow> 'r extractor \<Rightarrow> ('r list \<Rightarrow> ('w client_state, unit) eff) \<Rightarrow> nat \<Rightarrow> nat \<Rightarrow> 'r list
     \<Rightarrow> CompoundRes \<Rightarrow> ('w, 'r) batch_step" where
  "batch_progress tag per_op extr on_failure chunk_start n out res st =
     (case batch_resource_progress tag per_op (bad_status res) (first_bad res) of
        None \<Rightarrow> batch_settle per_op extr on_failure chunk_start n out res st
      | Some completed \<Rightarrow>
          if 1 < n
          then try_in (of_sum (batch_capacity (op_budget_for (fst st) tag (1 + per_op)) per_op)) (\<lambda>next_capacity.
                 if 0 < completed \<or> next_capacity < n
                 then try_in (of_decoding (extract_all extr res [0..<completed] out)) (\<lambda>out.
                        again (chunk_start + completed, usize_max, out))
                 else batch_settle per_op extr on_failure chunk_start n out res) st
          else batch_settle per_op extr on_failure chunk_start n out res st)"

text \<open>A mutating shape is resent only if the reply proves that nothing ran and the
  budget learned from it is smaller.\<close>

definition batch_reply ::
  "bytes \<Rightarrow> nat \<Rightarrow> 'r extractor \<Rightarrow> ('r list \<Rightarrow> ('w client_state, unit) eff) \<Rightarrow> nat \<Rightarrow> nat \<Rightarrow> 'r list
     \<Rightarrow> CompoundRes \<Rightarrow> ('w, 'r) batch_step" where
  "batch_reply tag per_op extr on_failure chunk_start n out res st =
     (if \<not> batch_is_read_only tag \<and> 1 < n \<and> resource_rejected_before_mutation (res_view res)
      then try_in (of_sum (batch_capacity (op_budget_for (fst st) tag (1 + per_op)) per_op)) (\<lambda>smaller.
             if smaller < n then again (chunk_start, usize_max, out)
             else batch_progress tag per_op extr on_failure chunk_start n out res) st
      else batch_progress tag per_op extr on_failure chunk_start n out res st)"

definition batch_send ::
  "'w transport \<Rightarrow> bytes \<Rightarrow> nat \<Rightarrow> 'r extractor \<Rightarrow> ('r list \<Rightarrow> ('w client_state, unit) eff) \<Rightarrow> nat
     \<Rightarrow> nat \<Rightarrow> 'r list \<Rightarrow> Compound \<Rightarrow> ('w, 'r) batch_step" where
  "batch_send tp tag per_op extr on_failure chunk_start n out c st =
     (case call_compound tp c st of
        (st', Done res) \<Rightarrow> batch_reply tag per_op extr on_failure chunk_start n out res st'
      | (st', Fail e) \<Rightarrow>
          fail_after (on_failure out)
            (if rpc_is_transport e then e
             else rpc_with_op_index e (caller_index (re_op_index e) per_op chunk_start n)) st'
      | (st', Stuck) \<Rightarrow> (st', Leave_Loop Stuck))"

definition batch_body ::
  "'w transport \<Rightarrow> bytes \<Rightarrow> nat \<Rightarrow> 't list \<Rightarrow> 't adder \<Rightarrow> 'r extractor
     \<Rightarrow> ('r list \<Rightarrow> ('w client_state, unit) eff) \<Rightarrow> 'r batch_vars \<Rightarrow> ('w, 'r) batch_step" where
  "batch_body tp tag per_op ops add extr on_failure vars st =
     (case vars of (global, max_items, out) \<Rightarrow>
        if \<not> global < length ops then leave_with (ret out) st
        else
          case batch_capacity (op_budget_for (fst st) tag (1 + per_op)) per_op of
            Inl e \<Rightarrow> fail_after (on_failure out) e st
          | Inr chunk_size \<Rightarrow>
              let chunk = slice ops global (min (global + min chunk_size max_items) (length ops))
              in case compound_request_fits tp (fst st) (add_chunk add (tagged tag) chunk global) of
                   None \<Rightarrow> (st, Leave_Loop Stuck)
                 | Some (c, fits) \<Rightarrow>
                     if \<not> fits \<and> 1 < length chunk then again (global, length chunk div 2, out) st
                     else batch_send tp tag per_op extr on_failure global (length chunk) out c st)"

definition batch_ops_fallible_with_failure ::
  "'w transport \<Rightarrow> bytes \<Rightarrow> nat \<Rightarrow> 't list \<Rightarrow> 't adder \<Rightarrow> 'r extractor
     \<Rightarrow> ('r list \<Rightarrow> ('w client_state, unit) eff) \<Rightarrow> ('w client_state, 'r list) eff" where
  "batch_ops_fallible_with_failure tp tag per_op ops add extr on_failure =
     (if ops = [] then ret []
      else loop_op (batch_body tp tag per_op ops add extr on_failure) (0, usize_max, []))"

definition batch_ops_fallible ::
  "'w transport \<Rightarrow> bytes \<Rightarrow> nat \<Rightarrow> 't list \<Rightarrow> 't adder \<Rightarrow> 'r extractor \<Rightarrow> ('w client_state, 'r list) eff" where
  "batch_ops_fallible tp tag per_op ops add extr =
     batch_ops_fallible_with_failure tp tag per_op ops add extr (\<lambda>_. ret ())"

text \<open>An extractor that reads only the reply and can only panic.\<close>

definition batch_ops ::
  "'w transport \<Rightarrow> bytes \<Rightarrow> nat \<Rightarrow> 't list \<Rightarrow> 't adder \<Rightarrow> (CompoundRes \<Rightarrow> nat \<Rightarrow> 'r option)
     \<Rightarrow> ('w client_state, 'r list) eff" where
  "batch_ops tp tag per_op ops add extr =
     batch_ops_fallible tp tag per_op ops add (\<lambda>_ res i. map_option Inr (extr res i))"

section \<open>Operations on many objects\<close>

definition writev :: "'w transport \<Rightarrow> WriteOp4 list \<Rightarrow> ('w client_state, (nat \<times> nat) list) eff" where
  "writev tp ops =
     batch_ops tp ''writev'' 2 ops
       (\<lambda>c op _. c_write (c_putfh c (wr_fh op)) (wr_stateid op) (wr_offset op) FILE_SYNC4 (wr_data op))
       (\<lambda>res i. r_write res (2 + 2 * i))"

definition getattr_many :: "'w transport \<Rightarrow> GetattrOp list \<Rightarrow> ('w client_state, wire list) eff" where
  "getattr_many tp ops =
     batch_ops tp ''getattrv'' 2 ops
       (\<lambda>c op _. c_getattr (c_putfh c (ga_fh op)) (ga_attrs op)) (\<lambda>res i. r_getattr res (2 + 2 * i))"

definition getattr_many_with_bitmap ::
  "'w transport \<Rightarrow> GetattrOp list \<Rightarrow> ('w client_state, (bitmap4 \<times> wire) list) eff" where
  "getattr_many_with_bitmap tp ops =
     batch_ops tp ''vstatfs_impl'' 2 ops
       (\<lambda>c op _. c_getattr (c_putfh c (ga_fh op)) (ga_attrs op))
       (\<lambda>res i. r_getattr_with_bitmap res (2 + 2 * i))"

definition setattr_many :: "'w transport \<Rightarrow> SetattrOp list \<Rightarrow> ('w client_state, unit) eff" where
  "setattr_many tp ops =
     try_op (batch_ops tp ''setattrv'' 2 ops
       (\<lambda>c op _. c_setattr_ownership (c_putfh c (sa_fh op)) (sa_mode op) (sa_size op) (sa_uid op, sa_gid op)
                   (sa_atime op) (sa_mtime op) zero_stateid)
       (\<lambda>_ _. Some ())) (\<lambda>_. ret ())"

definition readlink_many :: "'w transport \<Rightarrow> bytes list \<Rightarrow> ('w client_state, bytes list) eff" where
  "readlink_many tp ops =
     batch_ops tp ''readlinkv'' 2 ops (\<lambda>c fh _. c_readlink (c_putfh c fh)) (\<lambda>res i. r_readlink res (2 + 2 * i))"

definition rename_many :: "'w transport \<Rightarrow> RenameOp list \<Rightarrow> ('w client_state, unit) eff" where
  "rename_many tp ops =
     try_op (batch_ops tp ''renamev'' 4 ops
       (\<lambda>c op _. c_rename (c_putfh (c_savefh (c_putfh c (rn_srcdir op))) (rn_dstdir op))
                   (rn_oldname op) (rn_newname op))
       (\<lambda>_ _. Some ())) (\<lambda>_. ret ())"

definition create_many :: "'w transport \<Rightarrow> CreateOp list \<Rightarrow> ('w client_state, unit) eff" where
  "create_many tp ops =
     try_op (batch_ops tp ''createv'' 2 ops
       (\<lambda>c op _. c_create (c_putfh c (cr_dir op)) (cr_name op) (cr_ftype op) (cr_linkdata op))
       (\<lambda>_ _. Some ())) (\<lambda>_. ret ())"

definition link_many :: "'w transport \<Rightarrow> LinkOp list \<Rightarrow> ('w client_state, unit) eff" where
  "link_many tp ops =
     try_op (batch_ops tp ''linkv'' 4 ops
       (\<lambda>c op _. c_link (c_putfh (c_savefh (c_putfh c (ln_src op))) (ln_dstdir op)) (ln_newname op))
       (\<lambda>_ _. Some ())) (\<lambda>_. ret ())"

definition copy_many :: "'w transport \<Rightarrow> CopyOp list \<Rightarrow> ('w client_state, nat list) eff" where
  "copy_many tp ops =
     batch_ops tp ''copyv'' 4 ops
       (\<lambda>c op _. c_copy (c_putfh (c_savefh (c_putfh c (cy_src_fh op))) (cy_dst_fh op))
                   (cy_src_stateid op) (cy_dst_stateid op) (cy_src_offset op) (cy_dst_offset op) (cy_count op))
       (\<lambda>res i. r_copy res (4 + 4 * i))"

text \<open>\<^verbatim>\<open>copy_many(from_ref(op))?[0]\<close>: the index panics on an empty list.\<close>

definition client_copy :: "'w transport \<Rightarrow> CopyOp \<Rightarrow> ('w client_state, nat) eff" where
  "client_copy tp op =
     try_op (copy_many tp [op]) (\<lambda>counts. of_option (case counts of [] \<Rightarrow> None | n # _ \<Rightarrow> Some n))"

section \<open>Capacities\<close>

lemma limits_observe_shrinks:
  assumes "status = NFS4ERR_RESOURCE \<or> status = NFS4ERR_TOO_MANY_OPS" "1 < n"
  shows "limits_limit (limits_observe l tag n status k) tag < n"
proof -
  have "max (n div 2) (Suc 0) < n" using assms(2) by auto
  then show ?thesis
    using assms
    by (auto simp: limits_limit_def limits_observe_def limits_record_def sizer_resource_rejected_def
        sizer_op_limit_rejected_def sizer_next_def planner_status Let_def min_less_iff_disj)
qed

text \<open>The number of items one compound of a shape may carry; zero if not even one fits.\<close>

definition capacity_of :: "NfsClient \<Rightarrow> bytes \<Rightarrow> nat \<Rightarrow> nat" where
  "capacity_of cl tag per_op = (bg_max_ops (op_budget_for cl tag (1 + per_op)) - 1) div per_op"

lemma batch_capacity_eq:
  "batch_capacity (op_budget_for cl tag (1 + per_op)) per_op =
     (if capacity_of cl tag per_op = 0 then Inl (rpc_op 0 NFS4ERR_TOO_MANY_OPS)
      else Inr (capacity_of cl tag per_op))"
  by (simp add: batch_capacity_def capacity_of_def Let_def)

lemma capacity_of_bounds:
  assumes "client_ok cl" "0 < per_op"
  shows "1 + per_op * capacity_of cl tag per_op \<le> nc_max_ops cl"
    and "capacity_of cl tag per_op = 0 \<longleftrightarrow> nc_max_ops cl < 1 + per_op"
proof -
  let ?b = "bg_max_ops (op_budget_for cl tag (1 + per_op))"
  have b: "?b \<le> nc_max_ops cl" "min (1 + per_op) (nc_max_ops cl) \<le> ?b" "1 \<le> nc_max_ops cl"
    using assms(1) by (auto simp: op_budget_for_def compound_budget_new_def client_ok_def)
  have "per_op * capacity_of cl tag per_op \<le> ?b - 1"
    by (simp add: capacity_of_def)
  then show "1 + per_op * capacity_of cl tag per_op \<le> nc_max_ops cl" using b by linarith
  show "capacity_of cl tag per_op = 0 \<longleftrightarrow> nc_max_ops cl < 1 + per_op"
    using b assms(2) by (auto simp: capacity_of_def div_eq_0_iff)
qed

lemma capacity_after_rejection:
  assumes "cr_status res = NFS4ERR_RESOURCE \<or> cr_status res = NFS4ERR_TOO_MANY_OPS"
    and "0 < per_op" "1 < n"
  shows "capacity_of (observe_reply tag (1 + per_op * n) res cl) tag per_op < n"
proof -
  let ?cl = "observe_reply tag (1 + per_op * n) res cl"
  have "1 < 1 + per_op * n" using assms(2,3) by simp
  from limits_observe_shrinks [OF assms(1) this]
  have "limits_limit (nc_limits ?cl) tag \<le> per_op * n" by (simp add: observe_reply_def less_Suc_eq_le)
  moreover have "1 + per_op \<le> per_op * n"
  proof -
    have "per_op * 2 \<le> per_op * n" using assms(3) by (intro mult_le_mono2) simp
    then show ?thesis using assms(2) by linarith
  qed
  ultimately have "bg_max_ops (op_budget_for ?cl tag (1 + per_op)) \<le> per_op * n"
    by (auto simp: op_budget_for_def compound_budget_new_def)
  then have "bg_max_ops (op_budget_for ?cl tag (1 + per_op)) - 1 < n * per_op"
    using assms(2,3) by (simp add: mult.commute) (metis Suc_pred diff_Suc_1 le_imp_less_Suc less_imp_diff_less mult_is_0 nat_neq_iff not_less_zero order_le_less)
  then show ?thesis by (simp add: capacity_of_def less_mult_imp_div_less)
qed

section \<open>Requests of a batch\<close>

text \<open>An adder that appends the operations of an item, always \<open>per_op\<close> of them.\<close>

definition adds :: "'t adder \<Rightarrow> nat \<Rightarrow> ('t \<Rightarrow> nat \<Rightarrow> nfs_argop4 list) \<Rightarrow> bool" where
  "adds add per_op item \<longleftrightarrow>
     0 < per_op \<and>
     (\<forall>c op i. cp_ops (add c op i) = cp_ops c @ item op i \<and> cp_tag (add c op i) = cp_tag c \<and>
        cp_size_check (add c op i) = None \<and> length (item op i) = per_op)"

fun item_list :: "('t \<Rightarrow> nat \<Rightarrow> nfs_argop4 list) \<Rightarrow> 't list \<Rightarrow> nat \<Rightarrow> nfs_argop4 list list" where
  "item_list item [] i = []"
| "item_list item (op # ops) i = item op i # item_list item ops (i + 1)"

lemma item_list_length [simp]: "length (item_list item ops i) = length ops"
  by (induction ops arbitrary: i) auto

lemma item_list_append:
  "item_list item (xs @ ys) i = item_list item xs i @ item_list item ys (i + length xs)"
  by (induction xs arbitrary: i) auto

lemma item_list_nth: "j < length ops \<Longrightarrow> item_list item ops i ! j = item (ops ! j) (i + j)"
  by (induction ops arbitrary: i j) (auto simp: nth_Cons split: nat.split)

lemma add_chunk_ops:
  assumes "adds add per_op item"
  shows "cp_ops (add_chunk add c ops i) = cp_ops c @ concat (item_list item ops i) \<and>
    cp_tag (add_chunk add c ops i) = cp_tag c \<and>
    (cp_size_check c = None \<longrightarrow> cp_size_check (add_chunk add c ops i) = None) \<and>
    length (concat (item_list item ops i)) = per_op * length ops"
  using assms by (induction ops arbitrary: c i) (auto simp: adds_def)

lemma tagged_simps [simp]: "cp_ops (tagged tag) = []" "cp_tag (tagged tag) = tag" "cp_size_check (tagged tag) = None"
  by (simp_all add: tagged_def compound_tag_def keep_def compound_new_def)

lemma item_list_slice:
  assumes "adds add per_op item" "j < length ops"
  shows "take per_op (drop (1 + per_op * j) (sq # concat (item_list item ops i))) = item (ops ! j) (i + j)"
  using assms(2)
proof (induction ops arbitrary: i j)
  case (Cons op ops)
  have len: "length (item op i) = per_op" using assms(1) by (simp add: adds_def)
  show ?case
  proof (cases j)
    case (Suc k)
    then show ?thesis using Cons.IH [of k "i + 1"] Cons.prems len by (simp add: drop_append)
  qed (simp add: len)
qed simp

section \<open>What a reply leads to\<close>

lemma first_bad_accepts:
  assumes "accepts req res"
  shows "first_bad res = (if cr_status res = NFS_OK \<or> res_nops res = 0 then None else Some (res_nops res - 1))"
    and "bad_status res = cr_status res"
proof -
  have st: "rv_op_status (res_view res) i = (if i + 1 = res_nops res then cr_status res else NFS_OK)"
    if "i < res_nops res" for i
    using accepts_status [OF assms that] by (simp add: res_view_def)
  show bad: "first_bad res = (if cr_status res = NFS_OK \<or> res_nops res = 0 then None else Some (res_nops res - 1))"
  proof (cases "cr_status res = NFS_OK \<or> res_nops res = 0")
    case True
    then show ?thesis using st by (auto simp: first_bad_def find_upt_None)
  next
    case False
    then show ?thesis using st by (auto simp: first_bad_def find_upt_Some)
  qed
  show "bad_status res = cr_status res"
    using st [of "res_nops res - 1"] by (auto simp: bad_status_def bad)
qed

text \<open>The items of a chunk that ran completely when the compound did not.\<close>

definition completed_items :: "nat \<Rightarrow> CompoundRes \<Rightarrow> nat" where
  "completed_items per_op res = (res_nops res - 2) div per_op"

lemma completed_items_less:
  assumes "accepts req res" "length req = 1 + per_op * n" "0 < per_op" "0 < n"
  shows "completed_items per_op res < n"
proof -
  have "res_nops res \<le> 1 + per_op * n" using assms(1,2) by (simp add: accepts_iff res_nops_def)
  moreover have "0 < per_op * n" using assms(3,4) by simp
  ultimately have "res_nops res - 2 < per_op * n" by linarith
  then show ?thesis by (simp add: completed_items_def less_mult_imp_div_less mult.commute)
qed

definition out_of_resources :: "CompoundRes \<Rightarrow> bool" where
  "out_of_resources res \<longleftrightarrow>
     cr_status res = NFS4ERR_RESOURCE \<or> cr_status res = NFS4ERR_TOO_MANY_OPS"

lemma rejected_out_of_resources:
  "resource_rejected_before_mutation (res_view res) \<Longrightarrow> out_of_resources res"
  by (auto simp: resource_rejected_before_mutation_def out_of_resources_def res_view_def split: if_splits)

lemma out_of_resources_status: "out_of_resources res \<Longrightarrow> cr_status res \<noteq> NFS_OK"
  by (auto simp: out_of_resources_def planner_status)

text \<open>The three ways an answered iteration ends.\<close>

lemma batch_settle_failed:
  assumes acc: "accepts req res" "length req = 1 + per_op * n" "0 < per_op" "0 < n" "cr_status res \<noteq> NFS_OK"
  shows "batch_settle per_op extr on_failure start n out res =
     try_in (of_decoding (extract_all extr res [0..<completed_items per_op res] out)) (\<lambda>out.
       fail_after (on_failure out) (rpc_op (start + completed_items per_op res) (cr_status res)))"
proof -
  have less: "completed_items per_op res < n" by (rule completed_items_less [OF acc(1-4)])
  show ?thesis
  proof (cases "res_nops res = 0")
    case True
    then show ?thesis
      using acc(5) less by (simp add: batch_settle_def first_bad_accepts [OF acc(1)] completed_items_def Let_def)
  next
    case False
    then have "rv_op_status (res_view res) (res_nops res - 1) = cr_status res"
      using accepts_status [OF acc(1), of "res_nops res - 1"] by (simp add: res_view_def)
    moreover have "(res_nops res - Suc 0 - Suc 0) div per_op = completed_items per_op res"
      by (simp add: completed_items_def numeral_2_eq_2)
    ultimately show ?thesis
      using acc(5) False less
      by (simp add: batch_settle_def first_bad_accepts [OF acc(1)] caller_index_def Let_def min_absorb1)
  qed
qed

lemma batch_reply_cases:
  assumes acc: "accepts req res" "length req = 1 + per_op * n" "0 < per_op" "0 < n"
    and cap: "out_of_resources res \<and> 1 < n \<longrightarrow> capacity_of (fst st) tag per_op < n"
    and one: "capacity_of (fst st) tag per_op \<noteq> 0"
  shows "batch_reply tag per_op extr on_failure start n out res st =
    (if cr_status res = NFS_OK
     then try_in (of_decoding (extract_all extr res [0..<n] out)) (\<lambda>out. again (start + n, usize_max, out))
     else if 1 < n \<and> (if batch_is_read_only tag then out_of_resources res
                      else resource_rejected_before_mutation (res_view res))
     then let k = (if batch_is_read_only tag then completed_items per_op res else 0)
          in try_in (of_decoding (extract_all extr res [0..<k] out)) (\<lambda>out. again (start + k, usize_max, out))
     else try_in (of_decoding (extract_all extr res [0..<completed_items per_op res] out)) (\<lambda>out.
            fail_after (on_failure out) (rpc_op (start + completed_items per_op res) (cr_status res)))) st"
proof -
  note settle = batch_settle_failed [OF acc]
  have ok: "batch_settle per_op extr on_failure start n out res =
      try_in (of_decoding (extract_all extr res [0..<n] out)) (\<lambda>out. again (start + n, usize_max, out))"
    if "cr_status res = NFS_OK"
    using that by (simp add: batch_settle_def first_bad_accepts [OF acc(1)])
  have progress: "batch_resource_progress tag per_op (bad_status res) (first_bad res) =
      (if batch_is_read_only tag \<and> out_of_resources res then Some (completed_items per_op res) else None)"
    using out_of_resources_status [of res]
    by (auto simp: batch_resource_progress_def first_bad_accepts [OF acc(1)] out_of_resources_def
        completed_items_def numeral_2_eq_2)
  have capi: "try_in (of_sum (batch_capacity (op_budget_for (fst st) tag (1 + per_op)) per_op)) k st =
      k (capacity_of (fst st) tag per_op) st" for k :: "nat \<Rightarrow> ('a, 'b) batch_step"
    using one unfolding batch_capacity_eq by (simp add: try_in_def of_sum_def)
  have nil: "try_in (of_decoding (Some (Inr out))) k st = k out st" for k :: "'b list \<Rightarrow> ('a, 'b) batch_step"
    by (simp add: try_in_def of_decoding_def try_op_def of_option_def of_sum_def)
  show ?thesis
    using cap rejected_out_of_resources [of res] out_of_resources_status [of res]
    by (auto simp: batch_reply_def batch_progress_def progress capi [simplified] nil ok settle Let_def)
qed

section \<open>One iteration\<close>

definition chunk_length :: "NfsClient \<Rightarrow> bytes \<Rightarrow> nat \<Rightarrow> nat \<Rightarrow> nat \<Rightarrow> nat \<Rightarrow> nat" where
  "chunk_length cl tag per_op len global max_items =
     min (min (capacity_of cl tag per_op) max_items) (len - global)"

definition chunk_at :: "'t list \<Rightarrow> nat \<Rightarrow> nat \<Rightarrow> 't list" where
  "chunk_at ops global n = take n (drop global ops)"

lemma chunk_at_slice:
  "slice ops global (min (global + min cap max_items) (length ops)) =
     chunk_at ops global (min (min cap max_items) (length ops - global))"
  by (simp add: slice_def chunk_at_def min_def)

lemma chunk_at_length [simp]: "length (chunk_at ops global n) = min n (length ops - global)"
  by (simp add: chunk_at_def)

lemma chunk_length_fits:
  assumes "adds add per_op item" "client_ok cl" "n = chunk_length cl tag per_op len global max_items"
  shows "1 + per_op * n \<le> nc_max_ops cl"
proof -
  have "per_op * n \<le> per_op * capacity_of cl tag per_op"
    by (intro mult_le_mono2) (simp add: assms(3) chunk_length_def)
  moreover have "0 < per_op" using assms(1) by (simp add: adds_def)
  ultimately show ?thesis using capacity_of_bounds(1) [OF assms(2), of per_op tag] by linarith
qed

text \<open>Sending a compound.\<close>

lemma request_cases:
  assumes ok: "client_ok cl"
  obtains (refused) e where "call_compound tp c (cl, w) = ((cl, w), Fail e)" "local_refusal e"
  | (failed) w' rq e where
      "call_compound tp c (cl, w) = ((cl \<lparr> nc_session := poison (nc_session cl) \<rparr>, w'), Fail e)"
      "cp_ops rq = session_sequence (nc_session cl) # cp_ops c" "compound_call tp rq w = (w', Inl e)"
  | (answered) w' rq res s' where
      "call_compound tp c (cl, w) =
        ((observe_reply (cp_tag c) (1 + length (cp_ops c)) res (cl \<lparr> nc_session := s' \<rparr>), w'), Done res)"
      "cp_ops rq = session_sequence (nc_session cl) # cp_ops c" "cp_tag rq = cp_tag c"
      "compound_call tp rq w = (w', Inr res)" "accepts (cp_ops rq) res" "advance_slot (nc_session cl) res = Some s'"
      "1 + length (cp_ops c) \<le> nc_max_ops cl"
proof -
  have rq: "cp_ops (insert0 (set_minorversion c2 v) sq) = sq # cp_ops c \<and>
      cp_tag (insert0 (set_minorversion c2 v) sq) = cp_tag c"
    if "compound_request_fits tp cl c = Some (c2, b)" for c2 v sq b
    using that compound_request_fits_total [of tp cl c] by (auto simp: insert0_def set_minorversion_def)
  have small: "sat_add (length (cp_ops c)) 1 = 1 + length (cp_ops c)" if "sat_add (length (cp_ops c)) 1 \<le> nc_max_ops cl"
    using that ok by (simp add: sat_add_def client_ok_def MAX_COMPOUND_OPS_def u64_max_def min_def split: if_splits)
  show ?thesis
  proof (cases rule: call_compound_cases [of tp c cl w])
    case (refused e)
    then show ?thesis by (rule that(1))
  next
    case (failed c2 w' e)
    then show ?thesis using rq [OF failed(2)] by (intro that(2)) auto
  next
    case (answered c2 w' res s')
    with small [OF answered(3)] rq [OF answered(2)] compound_call_Inr [OF answered(4)] show ?thesis by (intro that(3)) auto
  qed
qed

text \<open>Sending a compound built from a chunk of items.\<close>

lemma chunk_call_cases:
  assumes adds: "adds add per_op item" and ok: "client_ok cl"
    and n: "n = length chunk"
    and fits: "compound_request_fits tp cl (add_chunk add (tagged tag) chunk g) = Some (c1, fits)"
  obtains (refused) e where "call_compound tp c1 (cl, w) = ((cl, w), Fail e)" "local_refusal e"
  | (failed) w' rq e where
      "call_compound tp c1 (cl, w) = ((cl \<lparr> nc_session := poison (nc_session cl) \<rparr>, w'), Fail e)"
      "cp_ops rq = session_sequence (nc_session cl) # concat (item_list item chunk g)"
      "compound_call tp rq w = (w', Inl e)"
  | (answered) w' rq res s' where
      "call_compound tp c1 (cl, w) = ((observe_reply tag (1 + per_op * n) res (cl \<lparr> nc_session := s' \<rparr>), w'), Done res)"
      "cp_ops rq = session_sequence (nc_session cl) # concat (item_list item chunk g)"
      "cp_tag rq = tag" "compound_call tp rq w = (w', Inr res)" "accepts (cp_ops rq) res"
      "advance_slot (nc_session cl) res = Some s'"
proof -
  note c = add_chunk_ops [OF adds, of "tagged tag" chunk g]
  have c1: "cp_ops c1 = concat (item_list item chunk g)" "cp_tag c1 = tag"
    using compound_request_fits_total [of tp cl "add_chunk add (tagged tag) chunk g"] fits c by auto
  then have len: "length (cp_ops c1) = per_op * n" using c n by simp
  from ok show ?thesis
  proof (cases rule: request_cases [where ?tp = tp and ?c = c1 and ?w = w])
    case (refused e)
    then show ?thesis by (rule that(1))
  next
    case (failed w' rq e)
    then show ?thesis using c1 by (intro that(2)) auto
  next
    case (answered w' rq res s')
    then show ?thesis using c1 len by (intro that(3)) auto
  qed
qed

lemma batch_body_cases:
  assumes adds: "adds add per_op item"
    and ok: "client_ok cl" "global < length ops" "0 < max_items" "capacity_of cl tag per_op \<noteq> 0"
    and n: "n = chunk_length cl tag per_op (length ops) global max_items"
  obtains (shrink) "1 < n"
      "batch_body tp tag per_op ops add extr on_failure (global, max_items, out) (cl, w) =
         ((cl, w), Again (global, n div 2, out))"
  | (refused) e where
      "batch_body tp tag per_op ops add extr on_failure (global, max_items, out) (cl, w) =
         fail_after (on_failure out) e (cl, w)"
      "rpc_is_transport e \<or> re_op_index e = global"
  | (failed) w' rq e where
      "batch_body tp tag per_op ops add extr on_failure (global, max_items, out) (cl, w) =
         fail_after (on_failure out) (if rpc_is_transport e then e
             else rpc_with_op_index e (caller_index (re_op_index e) per_op global n))
           (cl \<lparr> nc_session := poison (nc_session cl) \<rparr>, w')"
      "cp_ops rq = session_sequence (nc_session cl) # concat (item_list item (chunk_at ops global n) global)"
      "compound_call tp rq w = (w', Inl e)"
  | (answered) w' rq res s' where
      "batch_body tp tag per_op ops add extr on_failure (global, max_items, out) (cl, w) =
         batch_reply tag per_op extr on_failure global n out res
           (observe_reply tag (1 + per_op * n) res (cl \<lparr> nc_session := s' \<rparr>), w')"
      "cp_ops rq = session_sequence (nc_session cl) # concat (item_list item (chunk_at ops global n) global)"
      "cp_tag rq = tag" "compound_call tp rq w = (w', Inr res)" "accepts (cp_ops rq) res"
      "advance_slot (nc_session cl) res = Some s'"
proof -
  let ?chunk = "chunk_at ops global n"
  let ?c = "add_chunk add (tagged tag) ?chunk global"
  let ?body = "batch_body tp tag per_op ops add extr on_failure (global, max_items, out) (cl, w)"
  have len: "n = length ?chunk" using n by (simp add: chunk_length_def)
  have slice: "slice ops global (min (global + min (capacity_of cl tag per_op) max_items) (length ops)) = ?chunk"
    using n by (simp add: chunk_at_slice chunk_length_def)
  obtain c1 fits where fits: "compound_request_fits tp cl ?c = Some (c1, fits)"
    using compound_request_fits_total [of tp cl ?c] by blast
  have body: "?body = (if \<not> fits \<and> 1 < n then again (global, n div 2, out) (cl, w)
      else batch_send tp tag per_op extr on_failure global n out c1 (cl, w))"
    unfolding batch_body_def using ok(2,4) fits(1) len [symmetric]
    by (simp add: batch_capacity_eq [of cl tag per_op, simplified] slice Let_def)
  show ?thesis
  proof (cases "\<not> fits \<and> 1 < n")
    case True
    with body show ?thesis by (intro shrink) (auto simp: again_def)
  next
    case False
    then have send: "?body = batch_send tp tag per_op extr on_failure global n out c1 (cl, w)"
      using body by auto
    from adds ok(1) len fits show ?thesis
    proof (cases rule: chunk_call_cases [where ?w = w])
      case (refused e)
      then show ?thesis
        using send local_refusal_index [OF refused(2)]
        by (intro that(2)) (auto simp: batch_send_def caller_index_def rpc_with_op_index_def)
    next
      case (failed w' rq e)
      then show ?thesis using send by (intro that(3)) (auto simp: batch_send_def)
    next
      case (answered w' rq res s')
      then show ?thesis using send by (intro that(4)) (auto simp: batch_send_def)
    qed
  qed
qed

section \<open>Every batch returns\<close>

lemma observed_client:
  assumes "client_ok cl" "cl' = observe_reply tag k res (cl \<lparr> nc_session := s' \<rparr>)"
  shows "client_ok cl'" "nc_max_ops cl' = nc_max_ops cl"
  using assms observe_reply_ok [of "cl \<lparr> nc_session := s' \<rparr>" tag k res] by (auto simp: same_limits_def)

text \<open>An answered chunk either leaves the loop or continues with fewer items to go or
  with a smaller chunk.\<close>

lemma batch_reply_Again:
  assumes acc: "accepts req res" "length req = 1 + per_op * n" "0 < per_op" "0 < n"
    and cl: "client_ok cl" "cl' = observe_reply tag (1 + per_op * n) res (cl \<lparr> nc_session := s' \<rparr>)"
      "capacity_of cl tag per_op \<noteq> 0" "n \<le> capacity_of cl tag per_op"
    and step: "batch_reply tag per_op extr on_failure start n out res (cl', w) = (st', Again (g', m', out'))"
  shows "st' = (cl', w) \<and> m' = usize_max \<and> start \<le> g' \<and> g' \<le> start + n \<and>
    (g' = start \<longrightarrow> capacity_of cl' tag per_op < capacity_of cl tag per_op) \<and>
    extract_all extr res [0..<g' - start] out = Some (Inr out')"
proof -
  have ok': "client_ok cl'" "nc_max_ops cl' = nc_max_ops cl" by (rule observed_client [OF cl(1,2)])+
  then have one: "capacity_of cl' tag per_op \<noteq> 0"
    using capacity_of_bounds(2) [OF cl(1) acc(3), of tag] capacity_of_bounds(2) [OF ok'(1) acc(3), of tag] cl(3) by simp
  have cap: "capacity_of cl' tag per_op < n" if "out_of_resources res" "1 < n"
    using capacity_after_rejection [OF _ acc(3) that(2), of res tag "cl \<lparr> nc_session := s' \<rparr>"] that(1)
    by (simp add: cl(2) out_of_resources_def)
  note less = completed_items_less [OF acc]
  have smaller: "capacity_of cl' tag per_op < capacity_of cl tag per_op" if "out_of_resources res" "1 < n"
    using cap [OF that] cl(4) by simp
  have cap': "out_of_resources res \<and> 1 < n \<longrightarrow> capacity_of (fst (cl', w)) tag per_op < n"
    and one': "capacity_of (fst (cl', w)) tag per_op \<noteq> 0"
    using cap one by simp_all
  show ?thesis
    using step less acc(4) rejected_out_of_resources [of res]
    unfolding batch_reply_cases [OF acc cap' one']
    by (auto simp: again_def fail_after_def Let_def smaller split: if_splits)
qed

lemma batch_step_decreases:
  assumes adds: "adds add per_op item" and ok: "client_ok cl" "0 < m"
    and step: "batch_body tp tag per_op ops add extr on_failure (g, m, out) (cl, w) = ((cl', w'), Again (g', m', out'))"
  shows "client_ok cl' \<and> 0 < m' \<and> g < length ops \<and> g \<le> g' \<and>
    (g = g' \<longrightarrow> capacity_of cl' tag per_op < capacity_of cl tag per_op \<or> cl' = cl \<and> m' < m)"
proof -
  have g: "g < length ops" using step by (auto simp: batch_body_def leave_with_def ret_def split: if_splits)
  have cap: "capacity_of cl tag per_op \<noteq> 0"
    using step g by (cases "capacity_of cl tag per_op = 0")
      (auto simp: batch_body_def batch_capacity_eq [of cl tag per_op, simplified] fail_after_def)
  define n where "n = chunk_length cl tag per_op (length ops) g m"
  have n: "0 < n" "n \<le> m" "n \<le> capacity_of cl tag per_op" "g + n \<le> length ops"
    using ok g cap by (auto simp: n_def chunk_length_def)
  from adds ok(1) g ok(2) cap n_def show ?thesis
  proof (cases rule: batch_body_cases [where ?tp = tp and ?extr = "extr" and ?on_failure = on_failure
      and ?out = "out" and ?w = w])
    case shrink
    with step n ok g show ?thesis by auto
  next
    case (refused e)
    with step show ?thesis by (simp add: fail_after_def)
  next
    case (failed w1 rq e)
    with step show ?thesis by (simp add: fail_after_def)
  next
    case (answered w1 rq res s1)
    let ?cl = "observe_reply tag (1 + per_op * n) res (cl \<lparr> nc_session := s1 \<rparr>)"
    have len: "length (cp_ops rq) = 1 + per_op * n"
      using answered(2) add_chunk_ops [OF adds, of "tagged tag" "chunk_at ops g n" g] n(4) by simp
    have "0 < per_op" using adds by (simp add: adds_def)
    from batch_reply_Again [OF answered(5) len this n(1) ok(1) refl cap n(3), of "extr" on_failure g "out" s1 w1] step answered(1)
      observed_client [OF ok(1), of ?cl] g
    show ?thesis by auto
  qed
qed

lemma batch_terminates:
  assumes adds: "adds add per_op item" and "client_ok cl"
  shows "\<exists>st' r. loop_run (batch_body tp tag per_op ops add extr on_failure) (0, usize_max, []) (cl, w) = Some (st', r)"
proof (rule loop_run_terminates [where I = "\<lambda>(g, m, out) (cl, w). client_ok cl \<and> 0 < m"
    and R = "inv_image (less_than <*lex*> less_than <*lex*> less_than)
      (\<lambda>((g, m, out), (cl, w)). (length ops - g, capacity_of cl tag per_op, m))"])
  fix vars st vars' st'
  assume inv: "(case vars of (g, m, out) \<Rightarrow> \<lambda>(cl, w). client_ok cl \<and> 0 < m) st"
    and step: "batch_body tp tag per_op ops add extr on_failure vars st = (st', Again vars')"
  obtain g m out cl w where v: "vars = (g, m, out)" "st = (cl, w)" by (metis prod.exhaust)
  obtain g' m' out' cl' w' where v': "vars' = (g', m', out')" "st' = (cl', w')" by (metis prod.exhaust)
  from batch_step_decreases [OF adds _ _ step [unfolded v v']] inv
  show "(case vars' of (g, m, out) \<Rightarrow> \<lambda>(cl, w). client_ok cl \<and> 0 < m) st' \<and>
    ((vars', st'), (vars, st)) \<in> inv_image (less_than <*lex*> less_than <*lex*> less_than)
      (\<lambda>((g, m, out), (cl, w)). (length ops - g, capacity_of cl tag per_op, m))"
    by (auto simp: v v')
qed (use assms in auto)

text \<open>An extractor that finds the result of every item whose operations succeeded.\<close>

definition extracts :: "('t \<Rightarrow> nat \<Rightarrow> nfs_argop4 list) \<Rightarrow> nat \<Rightarrow> 'r extractor \<Rightarrow> bool" where
  "extracts item per_op extr \<longleftrightarrow>
     (\<forall>req res k i op g.
        accepts req res \<and> decoded res \<and> 1 + per_op * (i + 1) \<le> res_nops res \<and>
        (\<forall>j < per_op. op_status res (1 + per_op * i + j) = Some NFS_OK) \<and>
        take per_op (drop (1 + per_op * i) req) = item op g \<longrightarrow>
        extr k res i \<noteq> None)"

lemma extractsD:
  assumes "extracts item per_op extr" "accepts req res" "decoded res" "1 + per_op * (i + 1) \<le> res_nops res"
    "\<And>j. j < per_op \<Longrightarrow> op_status res (1 + per_op * i + j) = Some NFS_OK"
    "take per_op (drop (1 + per_op * i) req) = item op g"
  shows "extr k res i \<noteq> None"
  using assms unfolding extracts_def by blast

lemma extract_all_total:
  "(\<And>i k. i \<in> set is \<Longrightarrow> extr k res i \<noteq> None) \<Longrightarrow> extract_all extr res is out \<noteq> None"
  by (induction "is" arbitrary: out) (auto split: option.split sum.split)

text \<open>The first items of a reply that are complete: all their operations are there and
  succeeded.\<close>

lemma completed_item:
  assumes adds: "adds add per_op item"
    and acc: "accepts req res" "req = sq # concat (item_list item ops g)"
    and k: "i < (if cr_status res = NFS_OK then length ops else completed_items per_op res)"
  shows "1 + per_op * (i + 1) \<le> res_nops res"
    and "\<And>j. j < per_op \<Longrightarrow> op_status res (1 + per_op * i + j) = Some NFS_OK"
    and "take per_op (drop (1 + per_op * i) req) = item (ops ! i) (g + i)"
proof -
  have pos: "0 < per_op" using adds by (simp add: adds_def)
  have len: "length req = 1 + per_op * length ops"
    using acc(2) add_chunk_ops [OF adds, of "tagged []" ops g] by simp
  have fits: "1 + per_op * (i + 1) \<le> (if cr_status res = NFS_OK then res_nops res else res_nops res - 1)"
  proof (cases "cr_status res = NFS_OK")
    case True
    then have "res_nops res = 1 + per_op * length ops"
      using acc(1) len by (simp add: accepts_iff res_nops_def)
    moreover have "per_op * (i + 1) \<le> per_op * length ops" using k True by (intro mult_le_mono2) simp
    ultimately show ?thesis using True by simp
  next
    case False
    then have "i + 1 \<le> completed_items per_op res" using k by simp
    then have "per_op * (i + 1) \<le> per_op * completed_items per_op res" by (rule mult_le_mono2)
    also have "\<dots> \<le> res_nops res - 2" by (simp add: completed_items_def)
    finally have "per_op * (i + 1) \<le> res_nops res - 2" .
    moreover have "0 < per_op * (i + 1)" using pos by simp
    ultimately have "1 + per_op * (i + 1) \<le> res_nops res - 1" by linarith
    then show ?thesis using False by simp
  qed
  show "op_status res (1 + per_op * i + j) = Some NFS_OK" if "j < per_op" for j
  proof -
    have j: "1 + per_op * i + j < 1 + per_op * (i + 1)" using that by simp
    then have "1 + per_op * i + j < res_nops res" using fits by (auto split: if_splits)
    from op_status_accepts [OF acc(1) this] accepts_status [OF acc(1) this] j fits
    show ?thesis by (auto split: if_splits)
  qed
  show le: "1 + per_op * (i + 1) \<le> res_nops res" using fits by (auto split: if_splits)
  have "res_nops res \<le> 1 + per_op * length ops" using acc(1) len by (simp add: accepts_iff res_nops_def)
  with le have "per_op * (i + 1) \<le> per_op * length ops" by linarith
  then have "i + 1 \<le> length ops" unfolding nat_mult_le_cancel1 [OF pos] .
  then have "i < length ops" by simp
  then show "take per_op (drop (1 + per_op * i) req) = item (ops ! i) (g + i)"
    unfolding acc(2) by (rule item_list_slice [OF adds])
qed

lemma extract_completed:
  assumes ext: "extracts item per_op extr" and adds: "adds add per_op item"
    and acc: "accepts req res" "decoded res" "req = sq # concat (item_list item ops g)"
    and k: "k \<le> (if cr_status res = NFS_OK then length ops else completed_items per_op res)"
  shows "extract_all extr res [0..<k] out \<noteq> None"
proof (rule extract_all_total)
  fix i q
  assume "i \<in> set [0..<k]"
  then have "i < (if cr_status res = NFS_OK then length ops else completed_items per_op res)" using k by simp
  note item = completed_item [OF adds acc(1,3) this]
  from extractsD [OF ext acc(1,2) item] show "extr q res i \<noteq> None" .
qed

lemma reply_decoded:
  assumes "decoded_transport tp" "compound_call tp rq w = (w', Inr res)"
  shows "decoded res"
  using compound_call_decoded [OF assms] by simp

text \<open>Reasoning about a whole batch: an invariant of the position, the results and the
  client, kept by every further iteration.\<close>

lemma batch_run_rule:
  assumes adds: "adds add per_op item" and ok: "client_ok cl" "I 0 [] cl w"
    and run: "loop_run (batch_body tp tag per_op ops add extr on_failure) (0, usize_max, []) (cl, w) = Some (st', r)"
    and step: "\<And>g m out cl w g' m' out' cl' w'. client_ok cl \<Longrightarrow> 0 < m \<Longrightarrow> I g out cl w \<Longrightarrow>
      batch_body tp tag per_op ops add extr on_failure (g, m, out) (cl, w) = ((cl', w'), Again (g', m', out')) \<Longrightarrow>
      I g' out' cl' w'"
    and leave: "\<And>g m out cl w st' r. client_ok cl \<Longrightarrow> 0 < m \<Longrightarrow> I g out cl w \<Longrightarrow>
      batch_body tp tag per_op ops add extr on_failure (g, m, out) (cl, w) = (st', Leave_Loop r) \<Longrightarrow> Q st' r"
  shows "Q st' r"
proof (rule loop_run_invariant [OF run, where I = "\<lambda>v s. client_ok (fst s) \<and> 0 < fst (snd v) \<and> I (fst v) (snd (snd v)) (fst s) (snd s)"])
  fix v s v' s'
  assume inv: "client_ok (fst s) \<and> 0 < fst (snd v) \<and> I (fst v) (snd (snd v)) (fst s) (snd s)"
    and body: "batch_body tp tag per_op ops add extr on_failure v s = (s', Again v')"
  obtain g m out' cl w where v: "v = (g, m, out')" "s = (cl, w)" by (metis prod.exhaust)
  obtain g1 m1 out1 cl1 w1 where v': "v' = (g1, m1, out1)" "s' = (cl1, w1)" by (metis prod.exhaust)
  from inv have ok: "client_ok cl" "0 < m" and I: "I g out' cl w" by (simp_all add: v)
  from batch_step_decreases [OF adds ok body [unfolded v v']] step [OF ok I body [unfolded v v']]
  show "client_ok (fst s') \<and> 0 < fst (snd v') \<and> I (fst v') (snd (snd v')) (fst s') (snd s')"
    by (simp add: v')
next
  fix v s s' r
  assume inv: "client_ok (fst s) \<and> 0 < fst (snd v) \<and> I (fst v) (snd (snd v)) (fst s) (snd s)"
    and body: "batch_body tp tag per_op ops add extr on_failure v s = (s', Leave_Loop r)"
  obtain g m out' cl w where v: "v = (g, m, out')" "s = (cl, w)" by (metis prod.exhaust)
  from inv have ok: "client_ok cl" "0 < m" and I: "I g out' cl w" by (simp_all add: v)
  from leave [OF ok I body [unfolded v]] show "Q s' r" .
qed (use ok in simp)

lemma decoded_now: "try_in (of_decoding (Some (Inr x))) k st = k x st"
  by (simp add: try_in_def of_decoding_eq)

text \<open>An extractor whose results are good at their position: it finds the result of every
  complete item, and what it accepts is good.\<close>

definition extracts_good ::
  "('t \<Rightarrow> nat \<Rightarrow> nfs_argop4 list) \<Rightarrow> nat \<Rightarrow> nat \<Rightarrow> 'r extractor \<Rightarrow> (nat \<Rightarrow> 'r \<Rightarrow> bool) \<Rightarrow> bool" where
  "extracts_good item per_op len extr good \<longleftrightarrow>
     (\<forall>req res k i op g.
        k < len \<and> accepts req res \<and> decoded res \<and> 1 + per_op * (i + 1) \<le> res_nops res \<and>
        (\<forall>j < per_op. op_status res (1 + per_op * i + j) = Some NFS_OK) \<and>
        take per_op (drop (1 + per_op * i) req) = item op g \<longrightarrow>
        (\<exists>x. extr k res i = Some x \<and> (\<forall>v. x = Inr v \<longrightarrow> good k v)))"

definition good_results :: "(nat \<Rightarrow> 'r \<Rightarrow> bool) \<Rightarrow> nat \<Rightarrow> 'r list \<Rightarrow> bool" where
  "good_results good len vs \<longleftrightarrow> length vs = len \<and> (\<forall>k < len. good k (vs ! k))"

lemma extract_all_good:
  assumes "\<And>i k. i \<in> set is \<Longrightarrow> length out \<le> k \<Longrightarrow> k < length out + length is \<Longrightarrow>
      \<exists>x. extr k res i = Some x \<and> (\<forall>v. x = Inr v \<longrightarrow> good k v)"
    and "good_results good (length out) out"
  shows "\<exists>y. extract_all extr res is out = Some y \<and>
    (\<forall>out'. y = Inr out' \<longrightarrow> good_results good (length out + length is) out')"
  using assms
proof (induction "is" arbitrary: out)
  case (Cons i "is")
  obtain x where x: "extr (length out) res i = Some x" "\<forall>v. x = Inr v \<longrightarrow> good (length out) v"
    using Cons.prems(1) [of i "length out"] by auto
  show ?case
  proof (cases x)
    case (Inr v)
    have "good_results good (length (out @ [v])) (out @ [v])"
      using Cons.prems(2) x(2) Inr by (auto simp: good_results_def nth_append less_Suc_eq)
    from Cons.IH [OF _ this] Cons.prems(1) x(1) Inr show ?thesis by simp
  qed (use x in simp)
qed simp

text \<open>What an iteration does to the results.\<close>

definition batch_good ::
  "(nat \<Rightarrow> 'r \<Rightarrow> bool) \<Rightarrow> nat \<Rightarrow> 'w client_state \<times> ('r batch_vars, 'r list outcome) ctl \<Rightarrow> bool" where
  "batch_good good len step \<longleftrightarrow>
     (case snd step of
        Again (g, m, out) \<Rightarrow> g \<le> len \<and> good_results good g out
      | Leave_Loop r \<Rightarrow> r \<noteq> Stuck \<and> (\<forall>vs. r = Done vs \<longrightarrow> good_results good len vs \<and> client_ok (fst (fst step))))"

lemma batch_good_extract:
  assumes "\<exists>y. x = Some y \<and> (\<forall>out'. y = Inr out' \<longrightarrow> P out')" "\<And>out'. P out' \<Longrightarrow> batch_good good len (f out' st)"
  shows "batch_good good len (try_in (of_decoding x) f st)"
proof -
  obtain y where y: "x = Some y" "\<forall>out'. y = Inr out' \<longrightarrow> P out'" using assms(1) by blast
  show ?thesis
  proof (cases y)
    case (Inr out')
    then show ?thesis using assms(2) y by (simp add: decoded_now)
  qed (use y in \<open>simp add: batch_good_def try_in_def of_decoding_eq\<close>)
qed

lemma batch_reply_good:
  assumes adds: "adds add per_op item" and ext: "extracts_good item per_op len extr good"
    and acc: "accepts req res" "decoded res" "req = sq # concat (item_list item chunk g)" "length chunk = n"
    and n: "0 < n" "g + n \<le> len" "good_results good g out"
    and cap: "out_of_resources res \<and> 1 < n \<longrightarrow> capacity_of (fst st) tag per_op < n" "capacity_of (fst st) tag per_op \<noteq> 0"
    and fail: "\<And>out e. batch_good good len (fail_after (on_failure out) e st)"
  shows "batch_good good len (batch_reply tag per_op extr on_failure g n out res st)"
proof -
  have pos: "0 < per_op" using adds by (simp add: adds_def)
  have req: "length req = 1 + per_op * n"
    using acc(3,4) add_chunk_ops [OF adds, of "tagged tag" chunk g] by simp
  let ?most = "if cr_status res = NFS_OK then n else completed_items per_op res"
  have most: "?most \<le> n" using completed_items_less [OF acc(1) req pos n(1)] by simp
  have got: "\<exists>y. extract_all extr res [0..<k] out = Some y \<and> (\<forall>out'. y = Inr out' \<longrightarrow> good_results good (g + k) out')"
    if "k \<le> ?most" for k
  proof -
    have len: "length out = g" using n(3) by (simp add: good_results_def)
    have "\<exists>x. extr q res i = Some x \<and> (\<forall>v. x = Inr v \<longrightarrow> good q v)"
      if i: "i \<in> set [0..<k]" and q: "q < length out + length [0..<k]" for i q
    proof -
      have "i < (if cr_status res = NFS_OK then length chunk else completed_items per_op res)"
        using i \<open>k \<le> ?most\<close> acc(4) by (simp split: if_splits)
      note item = completed_item [OF adds acc(1,3) this]
      have "q < len" using q len \<open>k \<le> ?most\<close> most n(2) by simp
      with acc(1,2) item ext show ?thesis unfolding extracts_good_def by blast
    qed
    from extract_all_good [of "[0..<k]" "out" "extr" res good, OF this] n(3) len show ?thesis by simp
  qed
  have go: "batch_good good len (try_in (of_decoding (extract_all extr res [0..<k] out)) (\<lambda>out. again (g + k, usize_max, out)) st)"
    if "k \<le> ?most" for k
    by (rule batch_good_extract [OF got [OF that]]) (use that most n(2) in \<open>simp add: batch_good_def again_def split: if_splits\<close>)
  have stop: "batch_good good len (try_in (of_decoding (extract_all extr res [0..<k] out)) (\<lambda>out. fail_after (on_failure out) e) st)"
    if "k \<le> ?most" for k e
    by (rule batch_good_extract [OF got [OF that]]) (rule fail)
  show ?thesis
    unfolding batch_reply_cases [OF acc(1) req pos n(1) cap]
    using go [of n] go [of "completed_items per_op res"] go [of 0] stop [of "completed_items per_op res"]
    by (simp add: Let_def)
qed

lemma batch_body_good:
  assumes adds: "adds add per_op item" and ext: "extracts_good item per_op (length ops) extr good"
    and dec: "decoded_transport tp" and ok: "client_ok cl" "0 < m" "g \<le> length ops" "good_results good g out"
    and hook: "\<And>out st. client_ok (fst st) \<Longrightarrow> snd (on_failure out st) \<noteq> Stuck"
  shows "batch_good good (length ops) (batch_body tp tag per_op ops add extr on_failure (g, m, out) (cl, w))"
proof -
  have pos: "0 < per_op" using adds by (simp add: adds_def)
  have fail: "batch_good good (length ops) (fail_after (on_failure out) e st)" if "client_ok (fst st)" for out e st
    using hook [OF that, of "out"]
    by (auto simp: batch_good_def fail_after_def leave_with_def try_op_def fail_with_def split: prod.splits outcome.splits)
  show ?thesis
  proof (cases "g < length ops \<and> capacity_of cl tag per_op \<noteq> 0")
    case True
    define n where "n = chunk_length cl tag per_op (length ops) g m"
    have n: "0 < n" "g + n \<le> length ops" using ok True by (auto simp: n_def chunk_length_def)
    from adds ok(1) True [THEN conjunct1] ok(2) True [THEN conjunct2] n_def show ?thesis
    proof (cases rule: batch_body_cases [where ?tp = tp and ?extr = "extr" and ?on_failure = on_failure
        and ?out = "out" and ?w = w])
      case shrink
      then show ?thesis using ok by (simp add: batch_good_def)
    next
      case (refused e)
      then show ?thesis using fail ok(1) by simp
    next
      case (failed w' rq e)
      then show ?thesis using fail [of "(cl \<lparr> nc_session := poison (nc_session cl) \<rparr>, w')"] ok(1) by simp
    next
      case (answered w1 rq res s1)
      define cl1 where "cl1 = observe_reply tag (1 + per_op * n) res (cl \<lparr> nc_session := s1 \<rparr>)"
      note obs = observed_client [OF ok(1) cl1_def]
      have cap: "out_of_resources res \<and> 1 < n \<longrightarrow> capacity_of (fst (cl1, w1)) tag per_op < n"
        using capacity_after_rejection [OF _ pos, of res n tag "cl \<lparr> nc_session := s1 \<rparr>"]
        by (auto simp: out_of_resources_def cl1_def)
      have one: "capacity_of (fst (cl1, w1)) tag per_op \<noteq> 0"
        using capacity_of_bounds(2) [OF ok(1) pos] capacity_of_bounds(2) [OF obs(1) pos] obs(2) True by simp
      have len: "length (chunk_at ops g n) = n" using n(2) by simp
      have hook1: "batch_good good (length ops) (fail_after (on_failure out') e (cl1, w1))" for out' e
        using fail obs(1) by simp
      show ?thesis
        unfolding answered(1) [folded cl1_def]
        by (rule batch_reply_good [OF adds ext answered(5) reply_decoded [OF dec answered(4)] answered(2) len n ok(4) cap one hook1])
    qed
  next
    case False
    show ?thesis
    proof (cases "g < length ops")
      case True
      then have "batch_body tp tag per_op ops add extr on_failure (g, m, out) (cl, w) =
          fail_after (on_failure out) (rpc_op 0 NFS4ERR_TOO_MANY_OPS) (cl, w)"
        using False by (simp add: batch_body_def batch_capacity_eq [of cl tag per_op, simplified])
      then show ?thesis using fail [of "(cl, w)"] ok(1) by simp
    next
      case False
      then show ?thesis using ok by (simp add: batch_body_def leave_with_def ret_def batch_good_def)
    qed
  qed
qed

text \<open>A batch always returns; if it succeeds it has a good result for every item.\<close>

theorem batch_results:
  assumes adds: "adds add per_op item" and ext: "extracts_good item per_op (length ops) extr good"
    and dec: "decoded_transport tp" and ok: "client_ok cl"
    and hook: "\<And>out st. client_ok (fst st) \<Longrightarrow> snd (on_failure out st) \<noteq> Stuck"
    and run: "batch_ops_fallible_with_failure tp tag per_op ops add extr on_failure (cl, w) = (st', r)"
  shows "r \<noteq> Stuck \<and> (\<forall>vs. r = Done vs \<longrightarrow> good_results good (length ops) vs \<and> client_ok (fst st'))"
proof (cases "ops = []")
  case False
  let ?body = "batch_body tp tag per_op ops add extr on_failure"
  let ?Q = "\<lambda>st r. r \<noteq> Stuck \<and> (\<forall>vs. r = Done vs \<longrightarrow> good_results good (length ops) vs \<and> client_ok (fst st))"
  have body: "batch_good good (length ops) (?body (g, m, out) (cl, w))"
    if "client_ok cl" "0 < m" "g \<le> length ops" "good_results good g out" for cl m g out w
    by (rule batch_body_good [OF adds ext dec that hook])
  obtain st1 r1 where loop: "loop_run ?body (0, usize_max, []) (cl, w) = Some (st1, r1)"
    using batch_terminates [OF adds ok, of tp tag ops "extr" on_failure w] by blast
  have "?Q st1 r1"
  proof (rule batch_run_rule [OF adds ok _ loop, where I = "\<lambda>g out _ _. g \<le> length ops \<and> good_results good g out"])
    show "g' \<le> length ops \<and> good_results good g' out''"
      if "client_ok cl" "0 < m" "g \<le> length ops \<and> good_results good g out'"
        "?body (g, m, out') (cl, w) = ((cl', w'), Again (g', m', out''))" for g m out' cl w g' m' out'' cl' w'
      using body [OF that(1,2), of g out' w] that(3,4) by (simp add: batch_good_def)
    show "?Q st r"
      if "client_ok cl" "0 < m" "g \<le> length ops \<and> good_results good g out'"
        "?body (g, m, out') (cl, w) = (st, Leave_Loop r)" for g m out' cl w st r
      using body [OF that(1,2), of g out' w] that(3,4) by (simp add: batch_good_def)
  qed (simp add: good_results_def)
  moreover have "st1 = st'" "r1 = r" using run loop False by (auto simp: batch_ops_fallible_with_failure_def loop_op_def)
  ultimately show ?thesis by simp
qed (use run ok in \<open>auto simp: batch_ops_fallible_with_failure_def ret_def good_results_def\<close>)

lemma extracts_any: "extracts item per_op extr \<Longrightarrow> extracts_good item per_op len extr (\<lambda>_ _. True)"
  unfolding extracts_def extracts_good_def by blast

lemma batch_not_Stuck:
  assumes "adds add per_op item" "extracts item per_op extr" "decoded_transport tp" "client_ok cl"
    and "\<And>out st. client_ok (fst st) \<Longrightarrow> snd (on_failure out st) \<noteq> Stuck"
  shows "snd (batch_ops_fallible_with_failure tp tag per_op ops add extr on_failure (cl, w)) \<noteq> Stuck"
proof -
  obtain st' r where run: "batch_ops_fallible_with_failure tp tag per_op ops add extr on_failure (cl, w) = (st', r)"
    by fastforce
  from batch_results [OF assms(1) extracts_any [OF assms(2)] assms(3-5) run] show ?thesis by (simp add: run)
qed

section \<open>The vectored operations as batches\<close>

text \<open>The operations of one item of each shape.\<close>

definition write_item :: "WriteOp4 \<Rightarrow> nfs_argop4 list" where
  "write_item op = [A_PutFh (wr_fh op), A_Write (wr_stateid op) (wr_offset op) FILE_SYNC4 (wr_data op)]"

definition getattr_item :: "GetattrOp \<Rightarrow> nfs_argop4 list" where
  "getattr_item op = [A_PutFh (ga_fh op), A_Getattr (bitmap (ga_attrs op))]"

definition setattr_item :: "SetattrOp \<Rightarrow> nfs_argop4 list" where
  "setattr_item op = [A_PutFh (sa_fh op), A_Setattr zero_stateid
     (setattr_fattr (sa_mode op) (sa_size op) (sa_uid op, sa_gid op) (sa_atime op) (sa_mtime op))]"

definition readlink_item :: "bytes \<Rightarrow> nfs_argop4 list" where
  "readlink_item fh = [A_PutFh fh, A_Readlink]"

definition rename_item :: "RenameOp \<Rightarrow> nfs_argop4 list" where
  "rename_item op = [A_PutFh (rn_srcdir op), A_SaveFh, A_PutFh (rn_dstdir op),
     A_Rename (rn_oldname op) (rn_newname op)]"

definition link_item :: "LinkOp \<Rightarrow> nfs_argop4 list" where
  "link_item op = [A_PutFh (ln_src op), A_SaveFh, A_PutFh (ln_dstdir op), A_Link (ln_newname op)]"

definition copy_item :: "CopyOp \<Rightarrow> nfs_argop4 list" where
  "copy_item op = [A_PutFh (cy_src_fh op), A_SaveFh, A_PutFh (cy_dst_fh op),
     A_Copy (cy_src_stateid op) (cy_dst_stateid op) (cy_src_offset op) (cy_dst_offset op) (cy_count op)]"

definition create_item :: "CreateOp \<Rightarrow> nfs_argop4 list" where
  "create_item op = [A_PutFh (cr_dir op), last (cp_ops (c_create compound_new (cr_name op) (cr_ftype op) (cr_linkdata op)))]"

lemmas item_defs = write_item_def getattr_item_def setattr_item_def readlink_item_def rename_item_def
  link_item_def copy_item_def create_item_def

lemmas builder_defs = c_putfh_def c_write_def c_getattr_def c_setattr_ownership_def c_readlink_def
  c_savefh_def c_rename_def c_link_def c_copy_def push_def keep_def

lemma batch_items:
  "adds (\<lambda>c op _. c_write (c_putfh c (wr_fh op)) (wr_stateid op) (wr_offset op) FILE_SYNC4 (wr_data op)) 2 (\<lambda>op _. write_item op)"
  "adds (\<lambda>c op _. c_getattr (c_putfh c (ga_fh op)) (ga_attrs op)) 2 (\<lambda>op _. getattr_item op)"
  "adds (\<lambda>c op _. c_setattr_ownership (c_putfh c (sa_fh op)) (sa_mode op) (sa_size op) (sa_uid op, sa_gid op)
     (sa_atime op) (sa_mtime op) zero_stateid) 2 (\<lambda>op _. setattr_item op)"
  "adds (\<lambda>c fh _. c_readlink (c_putfh c fh)) 2 (\<lambda>fh _. readlink_item fh)"
  "adds (\<lambda>c op _. c_rename (c_putfh (c_savefh (c_putfh c (rn_srcdir op))) (rn_dstdir op)) (rn_oldname op) (rn_newname op)) 4
     (\<lambda>op _. rename_item op)"
  "adds (\<lambda>c op _. c_link (c_putfh (c_savefh (c_putfh c (ln_src op))) (ln_dstdir op)) (ln_newname op)) 4 (\<lambda>op _. link_item op)"
  "adds (\<lambda>c op _. c_copy (c_putfh (c_savefh (c_putfh c (cy_src_fh op))) (cy_dst_fh op)) (cy_src_stateid op)
     (cy_dst_stateid op) (cy_src_offset op) (cy_dst_offset op) (cy_count op)) 4 (\<lambda>op _. copy_item op)"
  by (simp_all add: adds_def item_defs builder_defs Let_def)

lemma create_items:
  "adds (\<lambda>c op _. c_create (c_putfh c (cr_dir op)) (cr_name op) (cr_ftype op) (cr_linkdata op)) 2 (\<lambda>op _. create_item op)"
  by (auto simp: adds_def create_item_def c_create_def c_putfh_def push_def keep_def Let_def split: option.split)

lemma nth_of_slice: "take p (drop q xs) = ys \<Longrightarrow> j < length ys \<Longrightarrow> xs ! (q + j) = ys ! j"
proof -
  assume "take p (drop q xs) = ys" "j < length ys"
  then have "ys ! j = drop q xs ! j" "q + j < length xs" by auto
  then show ?thesis by simp
qed

text \<open>An accessor that succeeds on the j-th operation of every item.\<close>

lemma extracts_accessor:
  assumes "\<And>req res i. accepts req res \<Longrightarrow> decoded res \<Longrightarrow> op_status res i = Some NFS_OK \<Longrightarrow>
      argop (req ! i) = kind \<Longrightarrow> accessor res i \<noteq> None"
    and "\<And>op g. argop (item op g ! j) = kind \<and> length (item op g) = per_op" "j < per_op"
  shows "extracts item per_op (\<lambda>_ res i. map_option Inr (accessor res (1 + per_op * i + j)))"
  unfolding extracts_def
proof (intro allI impI, elim conjE)
  fix req res k i op g
  assume "accepts req res" "decoded res" "\<forall>j < per_op. op_status res (1 + per_op * i + j) = Some NFS_OK"
    and item: "take per_op (drop (1 + per_op * i) req) = item op g"
  moreover have "argop (req ! (1 + per_op * i + j)) = kind"
    using nth_of_slice [OF item, of j] assms(2,3) by simp
  ultimately show "map_option Inr (accessor res (1 + per_op * i + j)) \<noteq> None" using assms(1,3) by blast
qed

lemma extracts_unit: "extracts item per_op (\<lambda>_ _ _. Some (Inr ()))"
  by (simp add: extracts_def)

lemma accessor_total:
  assumes "accepts req res" "decoded res" "op_status res i = Some NFS_OK"
  shows "argop (req ! i) = NFS4_OP_WRITE \<Longrightarrow> r_write res i \<noteq> None"
    "argop (req ! i) = NFS4_OP_COPY \<Longrightarrow> r_copy res i \<noteq> None"
    "argop (req ! i) = NFS4_OP_READLINK \<Longrightarrow> r_readlink res i \<noteq> None"
    "argop (req ! i) = NFS4_OP_GETATTR \<Longrightarrow> r_getattr res i \<noteq> None"
    "argop (req ! i) = NFS4_OP_READDIR \<Longrightarrow> r_readdir res i \<noteq> None"
    "argop (req ! i) = NFS4_OP_OPEN \<Longrightarrow> r_open res i \<noteq> None"
    "argop (req ! i) = NFS4_OP_GETFH \<Longrightarrow> r_getfh res i \<noteq> None"
    "argop (req ! i) = NFS4_OP_READ \<Longrightarrow>
       \<exists>eof data. r_read res i = Some (eof, length data) \<and> r_read_data res i = Some data"
  using accessors_total [OF assms] by blast+

lemma getattr_with_bitmap_total: "r_getattr res i \<noteq> None \<Longrightarrow> r_getattr_with_bitmap res i \<noteq> None"
  by (cases "expect_op res i NFS4_OP_GETATTR")
     (simp_all add: r_getattr_def r_getattr_with_bitmap_def split: resbody.split_asm)

lemma write_extracts: "extracts (\<lambda>op _. write_item op) 2 (\<lambda>_ res i. map_option Inr (r_write res (2 + 2 * i)))"
  using extracts_accessor [of NFS4_OP_WRITE r_write "\<lambda>op _. write_item op" 1 2] accessor_total(1)
  by (simp add: write_item_def)

lemma copy_extracts: "extracts (\<lambda>op _. copy_item op) 4 (\<lambda>_ res i. map_option Inr (r_copy res (4 + 4 * i)))"
  using extracts_accessor [of NFS4_OP_COPY r_copy "\<lambda>op _. copy_item op" 3 4] accessor_total(2)
  by (simp add: copy_item_def)

lemma readlink_extracts: "extracts (\<lambda>fh _. readlink_item fh) 2 (\<lambda>_ res i. map_option Inr (r_readlink res (2 + 2 * i)))"
  using extracts_accessor [of NFS4_OP_READLINK r_readlink "\<lambda>fh _. readlink_item fh" 1 2] accessor_total(3)
  by (simp add: readlink_item_def)

lemma getattr_extracts: "extracts (\<lambda>op _. getattr_item op) 2 (\<lambda>_ res i. map_option Inr (r_getattr res (2 + 2 * i)))"
  using extracts_accessor [of NFS4_OP_GETATTR r_getattr "\<lambda>op _. getattr_item op" 1 2] accessor_total(4)
  by (simp add: getattr_item_def)

lemma getattr_bitmap_extracts:
  "extracts (\<lambda>op _. getattr_item op) 2 (\<lambda>_ res i. map_option Inr (r_getattr_with_bitmap res (2 + 2 * i)))"
  using extracts_accessor [of NFS4_OP_GETATTR r_getattr_with_bitmap "\<lambda>op _. getattr_item op" 1 2]
    accessor_total(4) getattr_with_bitmap_total
  by (simp add: getattr_item_def)

end
