(* ===== verification/Nfs_Batch_Spec.thy ===== *)
theory Nfs_Batch_Spec
  imports Nfs_Batch
begin

text \<open>
  What a vectored mutation promises, and that \<^verbatim>\<open>batch_ops\<close> keeps it: its effect on the
  server is that of sending the items one after the other and stopping at the
  first that fails, however the items were packed into compounds, rejected for
  lack of resources and packed again.
\<close>

section \<open>Items executed one after the other\<close>

text \<open>A server executes the operations of an item in order and stops at the first that
  fails; a first operation that fails (PUTFH) changes nothing.\<close>

type_synonym 'st item_exec = "'st \<Rightarrow> nfs_argop4 list \<Rightarrow> 'st \<times> nfs_resop4 list"

definition result_ok :: "nfs_resop4 \<Rightarrow> bool" where
  "result_ok r \<longleftrightarrow> response_op_status r = NFS_OK"

definition stops_at_failure :: "'st item_exec \<Rightarrow> bool" where
  "stops_at_failure exec \<longleftrightarrow>
     (\<forall>st it st' rs. exec st it = (st', rs) \<and> it \<noteq> [] \<longrightarrow>
        rs \<noteq> [] \<and> length rs \<le> length it \<and> list_all result_ok (butlast rs) \<and>
        (length rs < length it \<longrightarrow> \<not> result_ok (last rs)) \<and>
        (length rs = 1 \<and> \<not> result_ok (hd rs) \<longrightarrow> st' = st))"

fun run_items :: "'st item_exec \<Rightarrow> 'st \<Rightarrow> nfs_argop4 list list \<Rightarrow> 'st \<times> nfs_resop4 list list" where
  "run_items exec st [] = (st, [])"
| "run_items exec st (it # its) =
     (case exec st it of
        (st1, rs) \<Rightarrow>
          if list_all result_ok rs
          then case run_items exec st1 its of (st2, rss) \<Rightarrow> (st2, rs # rss)
          else (st1, [rs]))"

text \<open>A transport to such a server: a compound made of SEQUENCE and items is lost, or
  rejected before the items, or executed.  \<open>obs\<close> is the part of the world that the
  items act on.\<close>

definition item_server :: "('w \<Rightarrow> 'st) \<Rightarrow> 'st item_exec \<Rightarrow> (nfs_argop4 list \<Rightarrow> bool) \<Rightarrow> 'w transport \<Rightarrow> bool" where
  "item_server obs exec shape tp \<longleftrightarrow>
     (\<forall>c w sq its w' r.
        cp_ops c = sq # concat its \<and> list_all shape its \<and> tp_rpc tp c w = (w', r) \<longrightarrow>
        (case r of
           Inl e \<Rightarrow> rpc_is_transport e
         | Inr res \<Rightarrow>
             (obs w' = obs w \<and> cr_status res \<noteq> NFS_OK \<and> res_nops res \<le> 1) \<or>
             (case run_items exec (obs w) its of
                (st, rss) \<Rightarrow> obs w' = st \<and> cr_len res = 1 + length (concat rss) \<and>
                  (\<exists>sr. cr_ops res = Some (sr # concat rss)))))"

text \<open>The outcome of a whole batch as its caller sees it.\<close>

definition sequential_outcome ::
  "'st item_exec \<Rightarrow> (nfs_resop4 list \<Rightarrow> 'r) \<Rightarrow> nfs_argop4 list list \<Rightarrow> 'st \<Rightarrow> 'st \<Rightarrow> 'r list outcome \<Rightarrow> bool" where
  "sequential_outcome exec ex its st st' r \<longleftrightarrow>
     (case r of
        Done results \<Rightarrow>
          (\<exists>rss. run_items exec st its = (st', rss) \<and> length rss = length its \<and>
             list_all (list_all result_ok) rss \<and> results = map ex rss)
      | Fail e \<Rightarrow>
          rpc_is_transport e \<or>
          (\<exists>k rss stk. k < length its \<and> re_op_index e = k \<and>
             run_items exec st (take k its) = (stk, rss) \<and> length rss = k \<and>
             list_all (list_all result_ok) rss \<and>
             (st' = stk \<or>
              (\<exists>bad. exec stk (its ! k) = (st', bad) \<and> \<not> list_all result_ok bad \<and>
                 re_status e = response_op_status (last bad))))
      | Stuck \<Rightarrow> False)"

section \<open>Runs of items\<close>

text \<open>A run of items either completes or stops at an item \<open>k\<close>.\<close>

definition complete_run :: "nat \<Rightarrow> nat \<Rightarrow> nfs_resop4 list list \<Rightarrow> bool" where
  "complete_run per_op n rss \<longleftrightarrow>
     length rss = n \<and> list_all (list_all result_ok) rss \<and> list_all (\<lambda>rs. length rs = per_op) rss"

definition failed_run ::
  "'st item_exec \<Rightarrow> nat \<Rightarrow> 'st \<Rightarrow> nfs_argop4 list list \<Rightarrow> 'st \<Rightarrow> nfs_resop4 list list \<Rightarrow> nat \<Rightarrow> bool" where
  "failed_run exec per_op st its st' rss k \<longleftrightarrow>
     k < length its \<and>
     (\<exists>stk good bad. rss = good @ [bad] \<and> complete_run per_op k good \<and>
        run_items exec st (take k its) = (stk, good) \<and> exec stk (its ! k) = (st', bad) \<and>
        \<not> result_ok (last bad) \<and> 0 < length bad \<and> length bad \<le> per_op \<and>
        (length bad = 1 \<longrightarrow> st' = stk))"

lemma run_items_cases:
  assumes exec: "stops_at_failure exec" and its: "list_all (\<lambda>it. length it = per_op) its" "0 < per_op"
    and run: "run_items exec st its = (st', rss)"
  shows "complete_run per_op (length its) rss \<or> (\<exists>k. failed_run exec per_op st its st' rss k)"
  using its(1) run
proof (induction its arbitrary: st rss)
  case (Cons it its)
  obtain st1 rs where x: "exec st it = (st1, rs)" by fastforce
  have it: "it \<noteq> []" "length it = per_op" using Cons.prems(1) its(2) by auto
  then have rs: "rs \<noteq> []" "length rs \<le> per_op" "list_all result_ok (butlast rs)"
    "length rs < per_op \<longrightarrow> \<not> result_ok (last rs)" "length rs = 1 \<and> \<not> result_ok (hd rs) \<longrightarrow> st1 = st"
    using exec x unfolding stops_at_failure_def by blast+
  have split: "list_all result_ok rs \<longleftrightarrow> result_ok (last rs)"
  proof -
    have "list_all result_ok (butlast rs @ [last rs]) \<longleftrightarrow> result_ok (last rs)" using rs(3) by simp
    then show ?thesis using rs(1) by simp
  qed
  show ?case
  proof (cases "list_all result_ok rs")
    case True
    then have len: "length rs = per_op" using rs(2,4) split by auto
    obtain st2 rss' where r: "run_items exec st1 its = (st2, rss')" by fastforce
    then have eq: "rss = rs # rss'" "st' = st2" using Cons.prems(2) x True by auto
    have "complete_run per_op (length its) rss' \<or> (\<exists>k. failed_run exec per_op st1 its st' rss' k)"
      using Cons.IH [OF _ r [folded eq(2)]] Cons.prems(1) by simp
    then show ?thesis
    proof
      assume "\<exists>k. failed_run exec per_op st1 its st' rss' k"
      then obtain k stk good bad where k: "k < length its" "rss' = good @ [bad]" "complete_run per_op k good"
        "run_items exec st1 (take k its) = (stk, good)" "exec stk (its ! k) = (st', bad)"
        "\<not> result_ok (last bad)" "0 < length bad" "length bad \<le> per_op" "length bad = 1 \<longrightarrow> st' = stk"
        unfolding failed_run_def by blast
      have "failed_run exec per_op st (it # its) st' rss (Suc k)"
        unfolding failed_run_def
        using k eq True len x
        by (intro conjI exI [of _ stk] exI [of _ "rs # good"] exI [of _ bad]) (simp_all add: complete_run_def)
      then show ?thesis by blast
    qed (use eq True len in \<open>simp add: complete_run_def\<close>)
  next
    case False
    then have "rss = [rs]" "st' = st1" using Cons.prems(2) x by auto
    moreover have "hd rs = last rs" if "length rs = 1" using that by (cases rs) auto
    ultimately have "failed_run exec per_op st (it # its) st' rss 0"
      unfolding failed_run_def using False rs x split
      by (intro conjI exI [of _ st] exI [of _ "[]"] exI [of _ rs]) (auto simp: complete_run_def)
    then show ?thesis by blast
  qed
qed (simp add: complete_run_def)

lemma run_items_nth:
  assumes "run_items exec st its = (st', rss)" "i < length rss"
  shows "\<exists>sti sti'. exec sti (its ! i) = (sti', rss ! i)"
  using assms
proof (induction its arbitrary: st rss i)
  case (Cons it its)
  obtain sta rs where x: "exec st it = (sta, rs)" by fastforce
  show ?case
  proof (cases "list_all result_ok rs \<and> i \<noteq> 0")
    case True
    obtain stb rest where r: "run_items exec sta its = (stb, rest)" by fastforce
    then have "rss = rs # rest" "stb = st'" using Cons.prems(1) x True by auto
    with Cons.IH [of sta rest "i - 1"] Cons.prems(2) r True show ?thesis by (auto simp: nth_Cons')
  next
    case False
    with Cons.prems x have "i = 0" "rss ! 0 = rs" by (auto split: if_splits prod.splits)
    with x show ?thesis by auto
  qed
qed simp

lemma run_items_append:
  assumes "run_items exec st xs = (st1, rss)" "length rss = length xs" "list_all (list_all result_ok) rss"
    and "run_items exec st1 ys = (st2, rss')"
  shows "run_items exec st (xs @ ys) = (st2, rss @ rss')"
  using assms(1-3)
proof (induction xs arbitrary: st rss)
  case (Cons it xs)
  obtain sta rs where x: "exec st it = (sta, rs)" by fastforce
  show ?case
  proof (cases "list_all result_ok rs")
    case True
    obtain stb rest where r: "run_items exec sta xs = (stb, rest)" by fastforce
    then have "rss = rs # rest" "stb = st1" using Cons.prems(1) x True by auto
    with Cons.IH [of sta rest] Cons.prems(2,3) r x True show ?thesis by simp
  next
    case False
    with Cons.prems x show ?thesis by auto
  qed
qed (use assms(4) in simp)

text \<open>Reading the results of the items out of the reply.\<close>

lemma length_concat_same: "list_all (\<lambda>xs. length xs = p) xss \<Longrightarrow> length (concat xss) = p * length xss"
  by (induction xss) auto

lemma concat_slice:
  assumes "list_all (\<lambda>xs. length xs = p) xss" "i < length xss"
  shows "take p (drop (p * i) (concat xss @ ys)) = xss ! i"
  using assms
proof (induction xss arbitrary: i)
  case (Cons xs xss)
  show ?case
  proof (cases i)
    case (Suc j)
    then show ?thesis using Cons.IH [of j] Cons.prems by (simp add: drop_append)
  qed (use Cons.prems in simp)
qed simp

definition extracts_value ::
  "('t \<Rightarrow> nat \<Rightarrow> nfs_argop4 list) \<Rightarrow> nat \<Rightarrow> 'r extractor \<Rightarrow> (nfs_resop4 list \<Rightarrow> 'r) \<Rightarrow> bool" where
  "extracts_value item per_op extr ex \<longleftrightarrow>
     (\<forall>req res k i op g.
        accepts req res \<and> decoded res \<and> 1 + per_op * (i + 1) \<le> res_nops res \<and>
        (\<forall>j < per_op. op_status res (1 + per_op * i + j) = Some NFS_OK) \<and>
        take per_op (drop (1 + per_op * i) req) = item op g \<and> cr_len res = length (the (cr_ops res)) \<longrightarrow>
        extr k res i = Some (Inr (ex (take per_op (drop (1 + per_op * i) (the (cr_ops res)))))))"

lemma extracts_valueD:
  assumes "extracts_value item per_op extr ex" "accepts req res" "decoded res" "1 + per_op * (i + 1) \<le> res_nops res"
    "\<And>j. j < per_op \<Longrightarrow> op_status res (1 + per_op * i + j) = Some NFS_OK"
    "take per_op (drop (1 + per_op * i) req) = item op g" "cr_len res = length (the (cr_ops res))"
  shows "extr k res i = Some (Inr (ex (take per_op (drop (1 + per_op * i) (the (cr_ops res))))))"
  using assms unfolding extracts_value_def by blast

lemma extract_all_values:
  "(\<And>i k. i \<in> set is \<Longrightarrow> extr k res i = Some (Inr (f i))) \<Longrightarrow>
     extract_all extr res is out = Some (Inr (out @ map f is))"
  by (induction "is" arbitrary: out) auto

lemma extract_item_value:
  assumes ext: "extracts_value item per_op extr ex" and adds: "adds add per_op item"
    and acc: "accepts req res" "decoded res" "req = sq # concat (item_list item ops g)"
    and good: "cr_ops res = Some (sr # concat good @ ys)" "complete_run per_op k good" "cr_len res = length (the (cr_ops res))"
    and i: "i < k" "i < (if cr_status res = NFS_OK then length ops else completed_items per_op res)"
  shows "extr q res i = Some (Inr (ex (good ! i)))"
proof -
  note item = completed_item [OF adds acc(1,3) i(2)]
  have "take per_op (drop (1 + per_op * i) (the (cr_ops res))) = good ! i"
    using concat_slice [of per_op good i ys] i(1) good(1,2) by (simp add: complete_run_def)
  with extracts_valueD [OF ext acc(1,2) item good(3), of q] show ?thesis by simp
qed

lemma extract_good:
  assumes ext: "extracts_value item per_op extr ex" and adds: "adds add per_op item"
    and acc: "accepts req res" "decoded res" "req = sq # concat (item_list item ops g)"
    and good: "cr_ops res = Some (sr # concat good @ ys)" "complete_run per_op k good" "cr_len res = length (the (cr_ops res))"
    and k: "k \<le> (if cr_status res = NFS_OK then length ops else completed_items per_op res)"
  shows "extract_all extr res [0..<k] out = Some (Inr (out @ map ex good))"
proof -
  have "extr q res i = Some (Inr (ex (good ! i)))" if "i \<in> set [0..<k]" for i q
    using that k by (intro extract_item_value [OF ext adds acc good]) auto
  from extract_all_values [of "[0..<k]" "extr" res "\<lambda>i. ex (good ! i)", OF this]
  have "extract_all extr res [0..<k] out = Some (Inr (out @ map (\<lambda>i. ex (good ! i)) [0..<k]))" .
  moreover have "map (\<lambda>i. ex (good ! i)) [0..<k] = map ex good"
    using good(2) by (intro nth_equalityI) (simp_all add: complete_run_def)
  ultimately show ?thesis by simp
qed

text \<open>A validated reply of a server that ran the items.\<close>

lemma executed_reply:
  assumes exec: "stops_at_failure exec"
    and its: "list_all (\<lambda>it. length it = per_op) its" "0 < per_op" "its \<noteq> []"
    and run: "run_items exec st its = (st', rss)"
    and res: "cr_len res = 1 + length (concat rss)" "cr_ops res = Some (sr # concat rss)" "accepts req res"
  shows "(cr_status res = NFS_OK \<and> complete_run per_op (length its) rss) \<or>
    (cr_status res \<noteq> NFS_OK \<and> (res_nops res \<le> 2 \<longrightarrow> st' = st) \<and>
     failed_run exec per_op st its st' rss (completed_items per_op res) \<and>
     response_op_status (last (last rss)) = cr_status res)"
proof -
  have last: "response_op_status (last (sr # concat rss)) = cr_status res"
  proof -
    have "last (sr # concat rss) = (sr # concat rss) ! (cr_len res - 1)"
      unfolding res(1) by (subst last_conv_nth) simp_all
    then show ?thesis
      using accepts_status [OF res(3), of "cr_len res - 1"] res(1,2) by (simp add: res_nops_def nth_op_def)
  qed
  from run_items_cases [OF exec its(1,2) run] show ?thesis
  proof
    assume c: "complete_run per_op (length its) rss"
    then have "length (concat rss) = per_op * length its"
      using length_concat_same [of per_op rss] by (simp add: complete_run_def)
    moreover have "0 < per_op * length its" using its(2,3) by simp
    ultimately have "0 < length (concat rss)" by linarith
    then have ne: "concat rss \<noteq> []" by (metis length_greater_0_conv)
    have "result_ok (last (concat rss))"
      using c last_in_set [OF ne(1)] by (auto simp: complete_run_def list_all_iff)
    moreover have "last (sr # concat rss) = last (concat rss)" using ne by (rule last_ConsR)
    ultimately have "cr_status res = NFS_OK" using last by (simp only: result_ok_def)
    then show ?thesis using c by (intro disjI1 conjI)
  next
    assume "\<exists>k. failed_run exec per_op st its st' rss k"
    then obtain k stk good bad where f: "failed_run exec per_op st its st' rss k"
      and g: "rss = good @ [bad]" "complete_run per_op k good" "run_items exec st (take k its) = (stk, good)"
        "\<not> result_ok (last bad)" "0 < length bad" "length bad \<le> per_op" "length bad = 1 \<longrightarrow> st' = stk"
      unfolding failed_run_def by blast
    have n: "res_nops res = 1 + (per_op * k + length bad)"
      using res(1) g(1,2) length_concat_same [of per_op good] by (simp add: res_nops_def complete_run_def)
    have "res_nops res - 2 = length bad - 1 + per_op * k" using n g(5) by linarith
    then have "completed_items per_op res = (length bad - 1 + per_op * k) div per_op"
      by (simp only: completed_items_def)
    also have "\<dots> = k" using g(5,6) its(2) by (simp add: div_mult_self2)
    finally have k: "completed_items per_op res = k" .
    have "st' = st" if "res_nops res \<le> 2"
    proof -
      have "per_op * k = 0 \<and> length bad = 1" using that n g(5) by linarith
      then show ?thesis using g(3,7) its(2) by simp
    qed
    moreover have "last (sr # concat rss) = last bad" using g(1,5) by auto
    then have "response_op_status (last bad) = cr_status res" using last by simp
    moreover from this have "cr_status res \<noteq> NFS_OK" using g(4) by (simp add: result_ok_def)
    ultimately show ?thesis using f k g(1) by simp
  qed
qed

section \<open>Batches refine sequential execution\<close>

text \<open>After the first \<open>g\<close> items: they all ran, once and in order, and \<open>out\<close> holds their results.\<close>

definition ran ::
  "'st item_exec \<Rightarrow> (nfs_resop4 list \<Rightarrow> 'r) \<Rightarrow> nat \<Rightarrow> nfs_argop4 list list \<Rightarrow> 'st \<Rightarrow> nat \<Rightarrow> 'r list \<Rightarrow> NfsClient
     \<Rightarrow> 'st \<Rightarrow> bool" where
  "ran exec ex per_op its st0 g out cl st \<longleftrightarrow>
     g \<le> length its \<and> (g = 0 \<or> 1 + per_op \<le> nc_max_ops cl) \<and>
     (\<exists>rss. run_items exec st0 (take g its) = (st, rss) \<and> complete_run per_op g rss \<and> out = map ex rss)"

lemma item_list_take: "take n (item_list item ops i) = item_list item (take n ops) i"
  by (induction ops arbitrary: n i) (auto simp: take_Cons split: nat.split)

lemma item_list_drop: "drop n (item_list item ops i) = item_list item (drop n ops) (i + n)"
  by (induction ops arbitrary: n i) (auto simp: drop_Cons split: nat.split)

lemma chunk_items: "item_list item (chunk_at ops g n) g = take n (drop g (item_list item ops 0))"
  by (simp add: chunk_at_def item_list_take item_list_drop)

lemma ran_extend:
  assumes ran: "ran exec ex per_op its st0 g out cl st" and n: "g + n \<le> length its" "1 + per_op \<le> nc_max_ops cl'"
    and run: "run_items exec st (take n (drop g its)) = (st', good)" "complete_run per_op n good"
  shows "ran exec ex per_op its st0 (g + n) (out @ map ex good) cl' st'"
proof -
  obtain rss where r: "run_items exec st0 (take g its) = (st, rss)" "complete_run per_op g rss" "out = map ex rss"
    using ran unfolding ran_def by blast
  have "run_items exec st0 (take (g + n) its) = (st', rss @ good)"
    unfolding take_add using r n(1) run by (intro run_items_append) (auto simp: complete_run_def)
  then show ?thesis unfolding ran_def using r run(2) n by (auto simp: complete_run_def)
qed

lemma ran_stop:
  assumes ran: "ran exec ex per_op its st0 g out cl st" and e: "g < length its" "re_op_index e = g"
  shows "sequential_outcome exec ex its st0 st (Fail e)"
proof -
  obtain rss where r: "run_items exec st0 (take g its) = (st, rss)" "complete_run per_op g rss"
    using ran unfolding ran_def by blast
  then show ?thesis
    unfolding sequential_outcome_def using e
    by (auto intro!: exI [of _ g] exI [of _ rss] simp: complete_run_def)
qed

lemma failed_run_Fail:
  assumes ran: "ran exec ex per_op its st0 g out cl st" and n: "g + n \<le> length its"
    and f: "failed_run exec per_op st (take n (drop g its)) st' rss k"
    and e: "re_op_index e = g + k" "re_status e = response_op_status (last (last rss))"
  shows "sequential_outcome exec ex its st0 st' (Fail e)"
proof -
  have kn: "k < n" using f by (simp add: failed_run_def)
  then have at_k: "take k (take n (drop g its)) = take k (drop g its)" "take n (drop g its) ! k = its ! (g + k)"
    using n by simp_all
  obtain stk good bad where k: "rss = good @ [bad]" "complete_run per_op k good"
    "run_items exec st (take k (drop g its)) = (stk, good)" "exec stk (its ! (g + k)) = (st', bad)"
    "\<not> result_ok (last bad)" "0 < length bad"
    using f unfolding failed_run_def at_k by blast
  obtain rss0 where r: "run_items exec st0 (take g its) = (st, rss0)" "complete_run per_op g rss0"
    using ran unfolding ran_def by blast
  have "run_items exec st0 (take (g + k) its) = (stk, rss0 @ good)"
    unfolding take_add using r k n kn by (intro run_items_append) (auto simp: complete_run_def)
  moreover have "\<not> list_all result_ok bad" using k(5,6) last_in_set [of bad] by (auto simp: list_all_iff)
  ultimately show ?thesis
    unfolding sequential_outcome_def using e k r(2) n kn
    by (auto intro!: exI [of _ "g + k"] exI [of _ "rss0 @ good"] exI [of _ stk] simp: complete_run_def)
qed

text \<open>An iteration keeps the invariant or ends with the promised outcome.\<close>

definition keeps_sequential ::
  "(nat \<Rightarrow> 'r list \<Rightarrow> 's \<Rightarrow> bool) \<Rightarrow> ('s \<Rightarrow> 'r list outcome \<Rightarrow> bool) \<Rightarrow> 's \<times> ('r batch_vars, 'r list outcome) ctl \<Rightarrow> bool" where
  "keeps_sequential held post step \<longleftrightarrow>
     (case snd step of Again (g, m, out) \<Rightarrow> held g out (fst step) | Leave_Loop r \<Rightarrow> post (fst step) r)"

lemma fail_after_ret: "fail_after (ret ()) e st = (st, Leave_Loop (Fail e))"
  by (simp add: fail_after_def leave_with_def try_op_def ret_def fail_with_def)

lemma malformed_transport: "validate_response_ops req res = Inl e \<Longrightarrow> rpc_is_transport e"
proof -
  have op: "validate_op req res i = Inl e \<Longrightarrow> rpc_is_transport e" for i
    by (auto simp: validate_op_def malformed_def rpc_transport_with_kind_def rpc_is_transport_def Let_def split: if_splits)
  have "validate_from req res is = Inl e \<Longrightarrow> rpc_is_transport e" for "is"
    by (induction "is") (auto intro: op split: sum.splits)
  then show "validate_response_ops req res = Inl e \<Longrightarrow> rpc_is_transport e"
    by (auto simp: validate_response_ops_def malformed_def rpc_transport_with_kind_def rpc_is_transport_def Let_def
        split: if_splits)
qed

lemma rejected_nops: "resource_rejected_before_mutation (res_view res) \<Longrightarrow> res_nops res \<le> 2"
  by (auto simp: resource_rejected_before_mutation_def res_view_def split: if_splits)

text \<open>What the server did with a chunk it answered.\<close>

definition chunk_effect ::
  "'st item_exec \<Rightarrow> nfs_argop4 list list \<Rightarrow> 'st \<Rightarrow> 'st \<Rightarrow> CompoundRes \<Rightarrow> bool" where
  "chunk_effect exec its st st' res \<longleftrightarrow>
     (st' = st \<and> cr_status res \<noteq> NFS_OK \<and> res_nops res \<le> 1) \<or>
     (\<exists>rss sr. run_items exec st its = (st', rss) \<and> cr_len res = 1 + length (concat rss) \<and>
        cr_ops res = Some (sr # concat rss))"

lemma chunk_effect_cases:
  assumes exec: "stops_at_failure exec"
    and its: "list_all (\<lambda>it. length it = per_op) its" "0 < per_op" "its \<noteq> []"
    and eff: "chunk_effect exec its st st' res" and acc: "accepts req res"
  obtains (all) rss sr where "cr_status res = NFS_OK" "run_items exec st its = (st', rss)"
      "complete_run per_op (length its) rss" "cr_ops res = Some (sr # concat rss)" "cr_len res = length (the (cr_ops res))"
  | (none) "cr_status res \<noteq> NFS_OK" "st' = st" "completed_items per_op res = 0" "res_nops res \<le> 1"
  | (some) rss sr where "cr_status res \<noteq> NFS_OK" "res_nops res \<le> 2 \<longrightarrow> st' = st"
      "failed_run exec per_op st its st' rss (completed_items per_op res)"
      "response_op_status (last (last rss)) = cr_status res" "cr_ops res = Some (sr # concat rss)"
      "cr_len res = length (the (cr_ops res))"
proof -
  from eff consider (early) "st' = st" "cr_status res \<noteq> NFS_OK" "res_nops res \<le> 1"
    | (ran) rss sr where "run_items exec st its = (st', rss)" "cr_len res = 1 + length (concat rss)"
        "cr_ops res = Some (sr # concat rss)"
    unfolding chunk_effect_def by blast
  then show ?thesis
  proof cases
    case early
    then show ?thesis by (intro none) (auto simp: completed_items_def)
  next
    case (ran rss sr)
    then have "cr_len res = length (the (cr_ops res))" by simp
    with executed_reply [OF exec its ran acc] ran show ?thesis using all some by blast
  qed
qed

lemma reply_sequential:
  assumes adds: "adds add per_op item" and ext: "extracts_value item per_op extr ex"
    and exec: "stops_at_failure exec" and tag: "\<not> batch_is_read_only tag"
    and its: "its = item_list item ops 0" "0 < n" "g + n \<le> length ops"
    and ran: "ran exec ex per_op its st0 g out cl st"
    and acc: "accepts req res" "decoded res" "req = sq # concat (take n (drop g its))"
    and eff: "chunk_effect exec (take n (drop g its)) st (obs w') res"
    and cap: "out_of_resources res \<and> 1 < n \<longrightarrow> capacity_of (fst (cl', w')) tag per_op < n"
      "capacity_of (fst (cl', w')) tag per_op \<noteq> 0" "1 + per_op \<le> nc_max_ops cl'"
  shows "keeps_sequential (\<lambda>g out st. ran exec ex per_op its st0 g out (fst st) (obs (snd st)))
     (\<lambda>st. sequential_outcome exec ex its st0 (obs (snd st)))
     (batch_reply tag per_op extr (\<lambda>_. ret ()) g n out res (cl', w'))"
proof -
  have pos: "0 < per_op" using adds by (simp add: adds_def)
  let ?its = "take n (drop g its)"
  let ?step = "batch_reply tag per_op extr (\<lambda>_. ret ()) g n out res (cl', w')"
  have chunk: "?its = item_list item (chunk_at ops g n) g" by (simp add: its(1) chunk_items)
  have lens: "list_all (\<lambda>it. length it = per_op) ?its" "?its \<noteq> []" "length ?its = n"
    using adds its by (auto simp: list_all_iff in_set_conv_nth item_list_nth adds_def)
  have len: "length req = 1 + per_op * n" using acc(3) length_concat_same [OF lens(1)] lens(3) by simp
  note reply = batch_reply_cases [OF acc(1) len pos its(2) cap(1,2), of "extr" "\<lambda>_. ret ()" g "out"]
  note got = extract_good [OF ext adds acc(1,2) acc(3) [unfolded chunk]]
  from exec lens(1) pos lens(2) eff acc(1) show ?thesis
  proof (cases rule: chunk_effect_cases)
    case (all rss sr)
    have "extract_all extr res [0..<n] out = Some (Inr (out @ map ex rss))"
      using all lens(3) its by (intro got [where ?ys = "[]" and ?sr = sr]) auto
    then have "?step = again (g + n, usize_max, out @ map ex rss) (cl', w')"
      using reply all(1) by (simp add: decoded_now)
    moreover have "ran exec ex per_op its st0 (g + n) (out @ map ex rss) cl' (obs w')"
      using all(2,3) lens(3) its by (intro ran_extend [OF ran]) (simp_all add: cap(3) [simplified])
    ultimately show ?thesis by (simp add: keeps_sequential_def again_def)
  next
    case none
    from ran none(2) cap(3) have "ran exec ex per_op its st0 g out cl' (obs w')" by (auto simp: ran_def)
    moreover have "sequential_outcome exec ex its st0 (obs w') (Fail (rpc_op g (cr_status res)))"
      using ran_stop [OF ran] none(2) its by (simp add: rpc_op_def)
    ultimately show ?thesis
      using reply none tag by (auto simp: keeps_sequential_def again_def decoded_now fail_after_ret Let_def)
  next
    case (some rss sr)
    let ?k = "completed_items per_op res"
    obtain good bad where good: "rss = good @ [bad]" "complete_run per_op ?k good"
      using some(3) unfolding failed_run_def by blast
    have "extract_all extr res [0..<?k] out = Some (Inr (out @ map ex good))"
      using some(1,5,6) good by (intro got [where ?ys = bad and ?sr = sr]) auto
    moreover have "sequential_outcome exec ex its st0 (obs w') (Fail (rpc_op (g + ?k) (cr_status res)))"
      using some(4) its by (intro failed_run_Fail [OF ran _ some(3)]) (simp_all add: rpc_op_def)
    moreover have "ran exec ex per_op its st0 g out cl' (obs w')" if "resource_rejected_before_mutation (res_view res)"
      using ran some(2) rejected_nops [OF that] cap(3) by (auto simp: ran_def)
    ultimately show ?thesis
      using reply some(1) tag by (auto simp: keeps_sequential_def again_def decoded_now fail_after_ret Let_def)
  qed
qed

lemma server_effect:
  assumes server: "item_server obs exec shape tp" and its: "cp_ops rq = sq # concat its" "list_all shape its"
  shows "compound_call tp rq w = (w', Inl e) \<Longrightarrow> rpc_is_transport e"
    and "compound_call tp rq w = (w', Inr res) \<Longrightarrow> chunk_effect exec its (obs w) (obs w') res"
proof -
  obtain w1 r where rpc: "tp_rpc tp rq w = (w1, r)" by fastforce
  have srv: "case r of
       Inl e \<Rightarrow> rpc_is_transport e
     | Inr res \<Rightarrow>
         (obs w1 = obs w \<and> cr_status res \<noteq> NFS_OK \<and> res_nops res \<le> 1) \<or>
         (case run_items exec (obs w) its of
            (st, rss) \<Rightarrow> obs w1 = st \<and> cr_len res = 1 + length (concat rss) \<and>
              (\<exists>sr. cr_ops res = Some (sr # concat rss)))"
    using server its rpc unfolding item_server_def by blast
  show "compound_call tp rq w = (w', Inl e) \<Longrightarrow> rpc_is_transport e"
    using srv rpc malformed_transport by (auto simp: compound_call_def split: sum.splits)
  show "compound_call tp rq w = (w', Inr res) \<Longrightarrow> chunk_effect exec its (obs w) (obs w') res"
    using srv rpc by (auto simp: compound_call_def chunk_effect_def split: sum.splits prod.splits)
qed

lemma batch_step_sequential:
  assumes adds: "adds add per_op item" and ext: "extracts_value item per_op extr ex"
    and exec: "stops_at_failure exec" and tag: "\<not> batch_is_read_only tag"
    and server: "item_server obs exec shape tp" "\<And>op i. shape (item op i)" "decoded_transport tp"
    and its: "its = item_list item ops 0"
    and ok: "client_ok cl" "0 < m" and ran: "ran exec ex per_op its st0 g out cl (obs w)"
  shows "keeps_sequential (\<lambda>g out st. ran exec ex per_op its st0 g out (fst st) (obs (snd st)))
     (\<lambda>st. sequential_outcome exec ex its st0 (obs (snd st)))
     (batch_body tp tag per_op ops add extr (\<lambda>_. ret ()) (g, m, out) (cl, w))"
proof -
  have pos: "0 < per_op" using adds by (simp add: adds_def)
  have stop: "sequential_outcome exec ex its st0 (obs w) (Fail e)" if "g < length ops" "re_op_index e = g" for e
    using ran_stop [OF ran] that its by simp
  have "g \<le> length ops" using ran its by (simp add: ran_def)
  then consider (finished) "g = length ops" | (full) "g < length ops" "capacity_of cl tag per_op = 0"
    | (go) "g < length ops" "capacity_of cl tag per_op \<noteq> 0"
    by linarith
  then show ?thesis
  proof cases
    case finished
    then have "sequential_outcome exec ex its st0 (obs w) (Done out)"
      using ran its by (auto simp: ran_def sequential_outcome_def complete_run_def)
    then show ?thesis using finished by (simp add: batch_body_def keeps_sequential_def leave_with_def ret_def)
  next
    case full
    then have "g = 0" using ran capacity_of_bounds(2) [OF ok(1) pos, of tag] by (auto simp: ran_def)
    then show ?thesis using full stop [of "rpc_op 0 NFS4ERR_TOO_MANY_OPS"]
      by (simp add: batch_body_def keeps_sequential_def batch_capacity_eq [of cl tag per_op, simplified]
          fail_after_ret rpc_op_def)
  next
    case go
    define n where "n = chunk_length cl tag per_op (length ops) g m"
    have n: "0 < n" "g + n \<le> length ops" using ok go by (auto simp: n_def chunk_length_def)
    have shape: "list_all shape (take n (drop g its))"
      using server(2) its n(2) by (auto simp: list_all_iff in_set_conv_nth item_list_nth)
    have items: "item_list item (chunk_at ops g n) g = take n (drop g its)" by (simp add: its chunk_items)
    from adds ok(1) go(1) ok(2) go(2) n_def show ?thesis
    proof (cases rule: batch_body_cases [where ?tp = tp and ?extr = "extr" and ?on_failure = "\<lambda>_. ret ()"
        and ?out = "out" and ?w = w])
      case shrink
      then show ?thesis using ran by (simp add: keeps_sequential_def)
    next
      case (refused e)
      then show ?thesis
        using stop [OF go(1), of e] by (auto simp: keeps_sequential_def fail_after_ret sequential_outcome_def)
    next
      case (failed w' rq e)
      then show ?thesis
        using server_effect(1) [OF server(1) failed(2) [unfolded items] shape failed(3)]
        by (simp add: keeps_sequential_def fail_after_ret sequential_outcome_def)
    next
      case (answered w' rq res s')
      define cl1 where "cl1 = observe_reply tag (1 + per_op * n) res (cl \<lparr> nc_session := s' \<rparr>)"
      note obs1 = observed_client [OF ok(1) cl1_def]
      have cap: "out_of_resources res \<and> 1 < n \<longrightarrow> capacity_of (fst (cl1, w')) tag per_op < n"
        using capacity_after_rejection [OF _ pos, of res n tag "cl \<lparr> nc_session := s' \<rparr>"]
        by (auto simp: out_of_resources_def cl1_def)
      have one: "capacity_of (fst (cl1, w')) tag per_op \<noteq> 0" "1 + per_op \<le> nc_max_ops cl1"
        using capacity_of_bounds(2) [OF ok(1) pos] capacity_of_bounds(2) [OF obs1(1) pos] obs1(2) go(2) by (auto simp: not_less)
      show ?thesis
        unfolding answered(1) [folded cl1_def]
        by (rule reply_sequential [where ?obs = obs and ?w' = w', OF adds ext exec tag its n ran answered(5) reply_decoded [OF server(3) answered(4)]
            answered(2) [unfolded items] server_effect(2) [OF server(1) answered(2) [unfolded items] shape answered(4)]
            cap one])
    qed
  qed
qed

theorem batch_refines:
  assumes adds: "adds add per_op item" and ext: "extracts_value item per_op extr ex"
    and exec: "stops_at_failure exec" and tag: "\<not> batch_is_read_only tag"
    and server: "item_server obs exec shape tp" "\<And>op i. shape (item op i)" "decoded_transport tp"
    and ok: "client_ok cl"
    and run: "batch_ops_fallible tp tag per_op ops add extr (cl, w) = ((cl', w'), r)"
  shows "sequential_outcome exec ex (item_list item ops 0) (obs w) (obs w') r"
proof (cases "ops = []")
  case False
  let ?body = "batch_body tp tag per_op ops add extr (\<lambda>_. ret ())"
  let ?its = "item_list item ops 0"
  have start: "ran exec ex per_op ?its (obs w) 0 [] cl (obs w)" by (simp add: ran_def complete_run_def)
  obtain st' r' where loop: "loop_run ?body (0, usize_max, []) (cl, w) = Some (st', r')"
    using batch_terminates [OF adds ok, of tp tag ops "extr" "\<lambda>_. ret ()" w] by blast
  with run False have eq: "st' = (cl', w')" "r' = r"
    by (auto simp: batch_ops_fallible_def batch_ops_fallible_with_failure_def loop_op_def)
  note step = batch_step_sequential [OF adds ext exec tag server refl]
  have "sequential_outcome exec ex ?its (obs w) (obs (snd st')) r'"
  proof (rule batch_run_rule [OF adds ok _ loop,
      where I = "\<lambda>g out cl w1. ran exec ex per_op ?its (obs w) g out cl (obs w1)"
        and Q = "\<lambda>st r. sequential_outcome exec ex ?its (obs w) (obs (snd st)) r"])
    fix g m out' cl w1 g' m' out'' cl' w'
    assume c: "client_ok cl" "0 < m" "ran exec ex per_op ?its (obs w) g out' cl (obs w1)"
      and body: "?body (g, m, out') (cl, w1) = ((cl', w'), Again (g', m', out''))"
    from step [OF c] body show "ran exec ex per_op ?its (obs w) g' out'' cl' (obs w')"
      by (simp add: keeps_sequential_def)
  next
    fix g m out' cl w1 st' r
    assume c: "client_ok cl" "0 < m" "ran exec ex per_op ?its (obs w) g out' cl (obs w1)"
      and body: "?body (g, m, out') (cl, w1) = (st', Leave_Loop r)"
    from step [OF c] body show "sequential_outcome exec ex ?its (obs w) (obs (snd st')) r"
      by (simp add: keeps_sequential_def)
  qed (rule start)
  then show ?thesis by (simp add: eq)
qed (use run in \<open>auto simp: batch_ops_fallible_def batch_ops_fallible_with_failure_def ret_def sequential_outcome_def\<close>)

section \<open>The vectored mutations\<close>

text \<open>The value of an item: what the accessor reads from its results alone.\<close>

definition reply_of :: "nfs_resop4 list \<Rightarrow> CompoundRes" where
  "reply_of rs = \<lparr> cr_status = NFS_OK, cr_len = length rs, cr_ops = Some rs \<rparr>"

definition write_result :: "nfs_resop4 list \<Rightarrow> nat \<times> nat" where
  "write_result rs = the (r_write (reply_of rs) 1)"

definition copy_result :: "nfs_resop4 list \<Rightarrow> nat" where
  "copy_result rs = the (r_copy (reply_of rs) 3)"

lemma resop_slice:
  assumes "1 + per_op * (i + 1) \<le> res_nops res" "j < per_op" "cr_len res = length (the (cr_ops res))"
    "op_status res (1 + per_op * i + j) \<noteq> None"
  shows "resop res (1 + per_op * i + j) = resop (reply_of (take per_op (drop (1 + per_op * i) (the (cr_ops res))))) j"
proof -
  have "1 + per_op * i + j < res_nops res" using assms(1,2) by simp
  moreover have "cr_ops res \<noteq> None" using assms(4) by (auto simp: op_status_def resop_def split: if_splits)
  ultimately show ?thesis
    using assms(2,3) by (auto simp: resop_def reply_of_def res_nops_def)
qed

lemma extracts_value_accessor:
  assumes loc: "\<And>res res' i j. resop res i = resop res' j \<Longrightarrow> accessor res i = accessor res' j"
    and ext: "extracts item per_op (\<lambda>_ res i. map_option Inr (accessor res (1 + per_op * i + j)))" and j: "j < per_op"
  shows "extracts_value item per_op (\<lambda>_ res i. map_option Inr (accessor res (1 + per_op * i + j)))
     (\<lambda>rs. the (accessor (reply_of rs) j))"
  unfolding extracts_value_def
proof (intro allI impI, elim conjE)
  fix req res k i op g
  assume a: "accepts req res" "decoded res" "1 + per_op * (i + 1) \<le> res_nops res"
    "\<forall>j < per_op. op_status res (1 + per_op * i + j) = Some NFS_OK"
    "take per_op (drop (1 + per_op * i) req) = item op g" "cr_len res = length (the (cr_ops res))"
  have "map_option Inr (accessor res (1 + per_op * i + j)) \<noteq> None"
    using extractsD [OF ext a(1-3) a(4) [rule_format] a(5)] by simp
  moreover have "accessor res (1 + per_op * i + j) =
      accessor (reply_of (take per_op (drop (1 + per_op * i) (the (cr_ops res))))) j"
    using a(4) j by (intro loc resop_slice [OF a(3) j a(6)]) simp
  ultimately show "map_option Inr (accessor res (1 + per_op * i + j)) =
      Some (Inr (the (accessor (reply_of (take per_op (drop (1 + per_op * i) (the (cr_ops res))))) j)))"
    by (cases "accessor res (1 + per_op * i + j)") auto
qed

lemma accessor_local:
  "resop res i = resop res' j \<Longrightarrow> r_write res i = r_write res' j"
  "resop res i = resop res' j \<Longrightarrow> r_copy res i = r_copy res' j"
  by (simp_all add: r_write_def r_copy_def expect_op_def)

lemma write_values:
  "extracts_value (\<lambda>op _. write_item op) 2 (\<lambda>_ res i. map_option Inr (r_write res (2 + 2 * i))) write_result"
  using extracts_value_accessor [of r_write "\<lambda>op _. write_item op" 2 1, OF accessor_local(1)] write_extracts
  by (simp add: write_result_def [abs_def])

lemma copy_values:
  "extracts_value (\<lambda>op _. copy_item op) 4 (\<lambda>_ res i. map_option Inr (r_copy res (4 + 4 * i))) copy_result"
  using extracts_value_accessor [of r_copy "\<lambda>op _. copy_item op" 4 3, OF accessor_local(2)] copy_extracts
  by (simp add: copy_result_def [abs_def])

lemma unit_values: "extracts_value item per_op (\<lambda>_ _ _. Some (Inr ())) (\<lambda>_. ())"
  by (simp add: extracts_value_def)

lemma item_list_map: "item_list (\<lambda>op _. f op) ops i = map f ops"
  by (induction ops arbitrary: i) auto

text \<open>The requests that change the server's files.\<close>

inductive mutation_item :: "nfs_argop4 list \<Rightarrow> bool" where
  "mutation_item (write_item wr)"
| "mutation_item (setattr_item sa)"
| "mutation_item (rename_item rn)"
| "mutation_item (create_item cr)"
| "mutation_item (link_item ln)"
| "mutation_item (copy_item cy)"

definition in_order ::
  "('w \<Rightarrow> 'st) \<Rightarrow> 'st item_exec \<Rightarrow> (nfs_resop4 list \<Rightarrow> 'r) \<Rightarrow> nfs_argop4 list list \<Rightarrow> ('w client_state, 'r list) eff
     \<Rightarrow> 'w client_state \<Rightarrow> bool" where
  "in_order obs exec ex its m st \<longleftrightarrow>
     sequential_outcome exec ex its (obs (snd st)) (obs (snd (fst (m st)))) (snd (m st))"

definition in_order_unit ::
  "('w \<Rightarrow> 'st) \<Rightarrow> 'st item_exec \<Rightarrow> nfs_argop4 list list \<Rightarrow> ('w client_state, unit) eff \<Rightarrow> 'w client_state \<Rightarrow> bool" where
  "in_order_unit obs exec its m st \<longleftrightarrow>
     (\<exists>r. sequential_outcome exec (\<lambda>_. ()) its (obs (snd st)) (obs (snd (fst (m st)))) r \<and>
        snd (m st) = map_outcome (\<lambda>_. ()) r)"

lemma batch_in_order:
  assumes "adds add per_op (\<lambda>op _. item op)"
    and "extracts_value (\<lambda>op _. item op) per_op (\<lambda>_ res i. map_option Inr (extr res i)) ex"
    and "stops_at_failure exec" "\<not> batch_is_read_only tag" "item_server obs exec mutation_item tp"
    and "\<And>op. mutation_item (item op)" "decoded_transport tp" "client_ok cl"
  shows "in_order obs exec ex (map item ops) (batch_ops tp tag per_op ops add extr) (cl, w)"
proof -
  obtain cl' w' r where run: "batch_ops_fallible tp tag per_op ops add (\<lambda>_ res i. map_option Inr (extr res i)) (cl, w) =
      ((cl', w'), r)" by (metis prod.exhaust)
  from batch_refines [OF assms(1-5) assms(6-8) run] show ?thesis
    using run by (simp add: in_order_def batch_ops_def item_list_map)
qed

lemma in_order_unitI:
  assumes "in_order obs exec (\<lambda>_. ()) its m st"
  shows "in_order_unit obs exec its (try_op m (\<lambda>_. ret ())) st"
proof -
  obtain st' r where m: "m st = (st', r)" by fastforce
  then have "try_op m (\<lambda>_. ret ()) st = (st', map_outcome (\<lambda>_. ()) r)"
    by (cases r) (simp_all add: try_op_def ret_def)
  then show ?thesis using assms m by (auto simp: in_order_unit_def in_order_def)
qed

section \<open>Properties\<close>

text \<open>C1 (vectored mutations run in order).  Let a server execute each item of a request as a
  unit, stop at the first that fails, and either lose a request, reject it before
  its items or execute it.  However a vectored write, copy, setattr, rename, create
  or link is split into compounds, shrunk to fit, rejected for lack of resources
  and sent again, its effect on the server is that of the items one by one in the
  caller's order, each at most once, and the results returned are theirs; on an
  error that is not a transport failure exactly the items before the reported
  index took effect, possibly with the operations of the failed one.\<close>

theorem vectored_mutations_in_order:
  assumes "stops_at_failure exec" "item_server obs exec mutation_item tp" "decoded_transport tp" "client_ok cl"
  shows "in_order obs exec write_result (map write_item writes) (writev tp writes) (cl, w) \<and>
    in_order obs exec copy_result (map copy_item copies) (copy_many tp copies) (cl, w) \<and>
    in_order_unit obs exec (map setattr_item setattrs) (setattr_many tp setattrs) (cl, w) \<and>
    in_order_unit obs exec (map rename_item renames) (rename_many tp renames) (cl, w) \<and>
    in_order_unit obs exec (map create_item creates) (create_many tp creates) (cl, w) \<and>
    in_order_unit obs exec (map link_item links) (link_many tp links) (cl, w)"
proof -
  note order = batch_in_order [OF _ _ assms(1) _ assms(2) _ assms(3,4)]
  have "\<not> batch_is_read_only tag" if "tag \<in> {''writev'', ''copyv'', ''setattrv'', ''renamev'', ''createv'', ''linkv''}" for tag
    using that by (auto simp: batch_is_read_only_def)
  note mut = this mutation_item.intros
  have unit: "extracts_value (\<lambda>op _. item op) per_op (\<lambda>_ res i. map_option Inr (Some ())) (\<lambda>_. ())"
    for item :: "'t \<Rightarrow> nfs_argop4 list" and per_op
    using unit_values by simp
  show ?thesis
    unfolding writev_def copy_many_def setattr_many_def rename_many_def create_many_def link_many_def
    by (intro conjI in_order_unitI order batch_items create_items write_values copy_values unit mut) simp_all
qed

text \<open>A server that grants every request and the operations it has granted so far.\<close>

definition granted :: "unit \<times> (Compound \<times> unit) list \<Rightarrow> nfs_argop4 list" where
  "granted w = concat (map (\<lambda>(c, _). tl (cp_ops c)) (snd w))"

definition grant_item :: "nfs_argop4 list item_exec" where
  "grant_item st it = (st @ it, map (\<lambda>op. \<lparr> ro_op = argop op, ro_status = 0, ro_body = granting_body op \<rparr>) it)"

lemma argop_supported: "argop op \<in> set supported_ops"
  by (cases op) (simp_all add: supported_ops_def)

lemma granted_ok [simp]: "result_ok \<lparr> ro_op = argop op, ro_status = 0, ro_body = body \<rparr>"
  by (simp add: result_ok_def response_op_status_def NFS_OK_def argop_supported)

lemma grant_items:
  "run_items grant_item st its =
     (st @ concat its, map (map (\<lambda>op. \<lparr> ro_op = argop op, ro_status = 0, ro_body = granting_body op \<rparr>)) its)"
  by (induction its arbitrary: st) (simp_all add: grant_item_def list_all_iff)

lemma grant_item_stops: "stops_at_failure grant_item"
  by (auto simp: stops_at_failure_def grant_item_def list_all_iff hd_map map_butlast [symmetric])

lemma granting_item_server: "item_server granted grant_item shape (logging granting_server)"
  by (auto simp: item_server_def grant_items logging_def granting_server_def granted_def map_concat [symmetric])

theorem vectored_mutations_in_order_witness:
  "in_order granted grant_item write_result
     (map write_item [\<lparr> wr_fh = ''f'', wr_stateid = zero_stateid, wr_offset = 0, wr_data = ''ab'' \<rparr>])
     (writev (logging granting_server) [\<lparr> wr_fh = ''f'', wr_stateid = zero_stateid, wr_offset = 0, wr_data = ''ab'' \<rparr>])
     (fresh_client, ((), []))"
proof -
  have "decoded_transport (logging granting_server)"
    using granting_server_decoded by (auto simp: decoded_transport_def logging_def split: prod.splits)
  from vectored_mutations_in_order [OF grant_item_stops granting_item_server this fresh_client_ok]
  show ?thesis by blast
qed

end
