(* ===== verification/Nfs_Lookup.thy ===== *)
theory Nfs_Lookup
  imports Nfs_Batch_Spec
begin

text \<open>
  Tolerant lookups of many names, \<^verbatim>\<open>lookup_many\<close> and \<^verbatim>\<open>lookup_getattr_many\<close> of
  \<^verbatim>\<open>crates/vfsi-nfs/src/client.rs\<close>: a name that cannot be found gives a result of
  its own, only a failure of a whole compound aborts the call.  The two functions
  differ in the operations of an item and in what they read from its results, so
  they are two instances of one loop.  The lemmas show that the loop ends, what it
  returns, and what a failure means.
\<close>

section \<open>Tolerant lookups\<close>

fun show_malformed :: "MalformedReply \<Rightarrow> string" where
  "show_malformed MissingSequence = ''response omitted SEQUENCE''"
| "show_malformed (TruncatedItem caller expected_end actual) =
     ''response truncated caller item '' @ decimal caller @ '': expected through op '' @
     decimal expected_end @ '', got '' @ decimal actual @ '' ops''"
| "show_malformed (OperationsAfterFailure failed_op actual) =
     ''response contains operations after failed op '' @ decimal failed_op @ '' ('' @ decimal actual @
     '' total ops)''"
| "show_malformed (StatusMismatch compound operation) =
     ''compound status '' @ decimal compound @ '' does not match failing operation status '' @
     decimal operation"

definition resource_status :: "nat \<Rightarrow> bool" where
  "resource_status status \<longleftrightarrow> status = NFS4ERR_TOO_MANY_OPS \<or> status = NFS4ERR_RESOURCE"

text \<open>The slots of the results, one per caller item; \<open>Inl\<close> is the status of a failed item.\<close>

type_synonym 'r slots = "(nat + 'r) option list"

fun store_completed ::
  "(CompoundRes \<Rightarrow> nat \<Rightarrow> 'r option) \<Rightarrow> CompoundRes \<Rightarrow> item_range list \<Rightarrow> 'r slots \<Rightarrow> 'r slots option" where
  "store_completed read res [] out = Some out"
| "store_completed read res ((caller, start, _) # ranges) out =
     (case read res start of
        None \<Rightarrow> None
      | Some v \<Rightarrow>
          if caller < length out then store_completed read res ranges (out[caller := Some (Inr v)]) else None)"

fun collect_slots :: "bytes \<Rightarrow> nat \<Rightarrow> 'r slots \<Rightarrow> RpcError + (nat + 'r) list" where
  "collect_slots tag caller [] = Inr []"
| "collect_slots tag caller (slot # slots) =
     (case slot of
        None \<Rightarrow> Inl (rpc_transport (tag @ '' planner omitted caller item '' @ decimal caller))
      | Some v \<Rightarrow> map_sum id (Cons v) (collect_slots tag (caller + 1) slots))"

definition lookup_map :: "nat \<Rightarrow> nat \<Rightarrow> nat \<Rightarrow> ExecutionMap" where
  "lookup_map per_op cursor n = build_map (map (\<lambda>caller. (cursor + caller, per_op)) [0..<n])"

text \<open>The loop variables \<open>cursor\<close>, \<open>max_items\<close> and \<open>out\<close>.\<close>

type_synonym 'r lookup_vars = "nat \<times> nat \<times> 'r slots"
type_synonym ('w, 'r) lookup_step =
  "'w client_state \<Rightarrow> 'w client_state \<times> ('r lookup_vars, (nat + 'r) list outcome) ctl"

definition lookup_failure :: "nat \<Rightarrow> nat \<Rightarrow> 'r slots \<Rightarrow> ItemFailure option \<Rightarrow> ('w, 'r) lookup_step" where
  "lookup_failure e n out failure =
     (case failure of
        Some f \<Rightarrow>
          if resource_status (if_status f) \<and> 1 < n then again (if_caller f, usize_max, out)
          else if if_caller f < length out
          then again (if_caller f + 1, usize_max, out[if_caller f := Some (Inl (if_status f))])
          else leave_with (of_option None)
      | None \<Rightarrow> again (e, usize_max, out))"

definition lookup_settle ::
  "(CompoundRes \<Rightarrow> nat \<Rightarrow> 'r option) \<Rightarrow> ExecutionMap \<Rightarrow> nat \<Rightarrow> nat \<Rightarrow> 'r slots \<Rightarrow> CompoundRes
     \<Rightarrow> ExecutionReport \<Rightarrow> ('w, 'r) lookup_step" where
  "lookup_settle read m cursor n out res report =
     (case er_compound_failure report of
        Some status \<Rightarrow>
          if resource_status status \<and> 1 < n then again (cursor, usize_max, out)
          else leave_with (fail_with (rpc_op cursor status))
      | None \<Rightarrow>
          try_in (of_option (store_completed read res (completed_ranges m report) out)) (\<lambda>out.
            lookup_failure (cursor + n) n out (er_failure report)))"

definition lookup_send ::
  "'w transport \<Rightarrow> bytes \<Rightarrow> nat \<Rightarrow> (CompoundRes \<Rightarrow> nat \<Rightarrow> 'r option) \<Rightarrow> nat \<Rightarrow> nat \<Rightarrow> 'r slots
     \<Rightarrow> Compound \<Rightarrow> ('w, 'r) lookup_step" where
  "lookup_send tp tag per_op read cursor n out c =
     try_in (call_compound_with_safety tp c ReadOnly) (\<lambda>res.
       case analyze (lookup_map per_op cursor n) (res_view res) of
         Inl e \<Rightarrow> leave_with (fail_with (rpc_transport_with_kind InvalidReply
                   (''malformed '' @ tag @ '' COMPOUND reply: '' @ show_malformed e)))
       | Inr report \<Rightarrow> lookup_settle read (lookup_map per_op cursor n) cursor n out res report)"

definition lookup_body ::
  "'w transport \<Rightarrow> bytes \<Rightarrow> nat \<Rightarrow> 't list \<Rightarrow> 't adder \<Rightarrow> (CompoundRes \<Rightarrow> nat \<Rightarrow> 'r option)
     \<Rightarrow> 'r lookup_vars \<Rightarrow> ('w, 'r) lookup_step" where
  "lookup_body tp tag per_op ops add read vars st =
     (case vars of (cursor, max_items, out) \<Rightarrow>
        if \<not> cursor < length ops then leave_with (of_sum (collect_slots tag 0 out)) st
        else
          try_in (of_sum (batch_capacity (op_budget_for (fst st) tag (1 + per_op)) per_op)) (\<lambda>capacity.
            let e = min (cursor + min capacity max_items) (length ops);
                n = e - cursor
            in try_in (of_option (compound_request_fits tp (fst st)
                        (add_chunk add (tagged tag) (slice ops cursor e) cursor))) (\<lambda>(c, fits).
                 if \<not> fits \<and> 1 < n then again (cursor, n div 2, out)
                 else lookup_send tp tag per_op read cursor n out c)) st)"

definition tolerant_lookup ::
  "'w transport \<Rightarrow> bytes \<Rightarrow> nat \<Rightarrow> 't list \<Rightarrow> 't adder \<Rightarrow> (CompoundRes \<Rightarrow> nat \<Rightarrow> 'r option)
     \<Rightarrow> ('w client_state, (nat + 'r) list) eff" where
  "tolerant_lookup tp tag per_op ops add read =
     (if ops = [] then ret []
      else loop_op (lookup_body tp tag per_op ops add read) (0, usize_max, replicate (length ops) None))"

definition lookup_many ::
  "'w transport \<Rightarrow> (bytes \<times> bytes) list \<Rightarrow> ('w client_state, (nat + bytes) list) eff" where
  "lookup_many tp ops =
     tolerant_lookup tp ''lookupv'' 3 ops
       (\<lambda>c (dir, name) _. c_getfh (c_lookup (c_putfh c dir) name))
       (\<lambda>res start. r_getfh res (start + 2))"

definition lookup_getattr_many ::
  "'w transport \<Rightarrow> (bytes \<times> bytes) list \<Rightarrow> ('w client_state, (nat + bytes \<times> nat) list) eff" where
  "lookup_getattr_many tp ops =
     tolerant_lookup tp ''lookup_typev'' 4 ops
       (\<lambda>c (dir, name) _. c_getattr (c_getfh (c_lookup (c_putfh c dir) name)) [FATTR4_TYPE])
       (\<lambda>res start.
          case r_getfh res (start + 2) of
            None \<Rightarrow> None
          | Some fh \<Rightarrow> map_option (\<lambda>t. (fh, type_of_bytes t)) (r_getattr res (start + 3)))"

section \<open>The report on a chunk of equal items\<close>

lemma layout_uniform:
  "layout s (map (\<lambda>c. (c, p)) cs) = map (\<lambda>i. (cs ! i, s + p * i, s + p * (i + 1))) [0..<length cs]"
proof (induction cs arbitrary: s)
  case (Cons c cs)
  have split: "map f [0..<length (c # cs)] = f 0 # map (\<lambda>i. f (Suc i)) [0..<length cs]" for f :: "nat \<Rightarrow> item_range"
    by (simp add: upt_conv_Cons map_Suc_upt [symmetric] del: upt_Suc)
  show ?case unfolding split using Cons [of "s + p"] by (simp add: algebra_simps)
qed simp

lemma analyze_items_ok:
  assumes st: "\<And>i. i < rv_nops r \<Longrightarrow> rv_op_status r i = NFS_OK" and n: "s + p * length cs \<le> rv_nops r" "0 < p"
  shows "analyze_items r (layout s (map (\<lambda>c. (c, p)) cs)) acc = Inr (acc @ cs, None, [])"
  using n(1)
proof (induction cs arbitrary: s acc)
  case (Cons c cs)
  have "find (\<lambda>i. rv_op_status r i \<noteq> NFS_OK) [s..<min (s + p) (rv_nops r)] = None"
    using st by (auto simp: find_None_iff)
  moreover have "s + p \<le> rv_nops r" using Cons.prems by simp
  ultimately show ?case using Cons.IH [of "s + p"] Cons.prems n(2) by simp
qed simp

lemma analyze_items_hit:
  assumes "s < rv_nops r" "find (\<lambda>i. rv_op_status r i \<noteq> NFS_OK) [s..<min e (rv_nops r)] = Some i" "rv_nops r = i + 1"
    "rv_op_status r i = rv_status r"
  shows "analyze_items r ((c, s, e) # rest) acc =
    Inr (acc, Some \<lparr> if_caller = c, if_op_index = i, if_status = rv_status r \<rparr>, map fst rest)"
  using assms(1,4) unfolding analyze_items.simps assms(2) unfolding assms(3) by simp

lemma analyze_items_skip:
  assumes "s < rv_nops r" "find (\<lambda>i. rv_op_status r i \<noteq> NFS_OK) [s..<min e (rv_nops r)] = None" "e \<le> rv_nops r"
  shows "analyze_items r ((c, s, e) # rest) acc = analyze_items r rest (acc @ [c])"
  using assms(1,3) unfolding analyze_items.simps assms(2) by simp

lemma analyze_items_bad:
  assumes st: "\<And>i. i < rv_nops r \<Longrightarrow> rv_op_status r i = (if i + 1 = rv_nops r then rv_status r else NFS_OK)"
    and bad: "rv_status r \<noteq> NFS_OK" "0 < p" and n: "s < rv_nops r" "rv_nops r \<le> s + p * length cs"
    and k: "k = (rv_nops r - 1 - s) div p"
  shows "analyze_items r (layout s (map (\<lambda>c. (c, p)) cs)) acc =
    Inr (acc @ take k cs, Some \<lparr> if_caller = cs ! k, if_op_index = rv_nops r - 1, if_status = rv_status r \<rparr>,
         drop (k + 1) cs)"
  using n k
proof (induction cs arbitrary: s acc k)
  case (Cons c cs)
  show ?case
  proof (cases "rv_nops r \<le> s + p")
    case True
    then have k: "k = 0" using Cons.prems bad(2) by simp
    have last: "rv_op_status r (rv_nops r - 1) = rv_status r"
      using st [of "rv_nops r - 1"] Cons.prems(1) by simp
    have hit: "find (\<lambda>i. rv_op_status r i \<noteq> NFS_OK) [s..<min (s + p) (rv_nops r)] = Some (rv_nops r - 1)"
    proof -
      have "\<not> rv_op_status r j \<noteq> NFS_OK" if "s \<le> j \<and> j < rv_nops r - 1" for j
        using st [of j] that by (auto split: if_splits)
      moreover have "s \<le> rv_nops r - 1 \<and> rv_nops r - 1 < min (s + p) (rv_nops r)"
        using True Cons.prems(1) by linarith
      ultimately show ?thesis unfolding find_upt_Some last using bad(1) by blast
    qed
    have "rv_nops r = rv_nops r - 1 + 1" using Cons.prems(1) by linarith
    note step = analyze_items_hit [OF Cons.prems(1) hit this last]
    show ?thesis unfolding k list.map layout.simps step by (simp add: o_def)
  next
    case False
    have none: "find (\<lambda>i. rv_op_status r i \<noteq> NFS_OK) [s..<min (s + p) (rv_nops r)] = None"
      unfolding find_upt_None
    proof (intro allI impI)
      fix j assume "s \<le> j \<and> j < min (s + p) (rv_nops r)"
      then have "j < rv_nops r" "j + 1 \<noteq> rv_nops r" using False by auto
      then show "\<not> rv_op_status r j \<noteq> NFS_OK" using st [of j] by simp
    qed
    have rest: "rv_nops r - 1 - s = (rv_nops r - 1 - (s + p)) + p" using False by simp
    have k: "k = Suc ((rv_nops r - 1 - (s + p)) div p)" 
      unfolding Cons.prems(3) rest using bad(2) by (metis Suc_eq_plus1 add.commute add.right_neutral div_add_self2 not_gr_zero)
    have less: "s + p < rv_nops r" "rv_nops r \<le> (s + p) + p * length cs" using False Cons.prems(2) by auto
    note step = analyze_items_skip [OF Cons.prems(1) none less_imp_le [OF less(1)]]
    show ?thesis unfolding k list.map layout.simps step Cons.IH [OF less refl] by simp
  qed
qed simp

lemma lookup_map_ranges:
  assumes "1 + per_op * n \<le> usize_max"
  shows "em_ranges (lookup_map per_op cursor n) =
    map (\<lambda>i. (cursor + i, 1 + per_op * i, 1 + per_op * (i + 1))) [0..<n]"
proof -
  let ?items = "map (\<lambda>caller. (cursor + caller, per_op)) [0..<n]"
  have eq: "?items = map (\<lambda>c. (c, per_op)) (map (\<lambda>i. cursor + i) [0..<n])" by simp
  have "sum_list (map snd ?items) = per_op * n" by (simp add: o_def sum_list_triv mult.commute)
  then have "em_ranges (lookup_map per_op cursor n) = layout 1 ?items"
    using build_map_layout [of ?items] assms by (simp add: lookup_map_def)
  then show ?thesis unfolding eq layout_uniform by simp
qed

text \<open>The report of a validated reply.\<close>

lemma lookup_report:
  assumes acc: "accepts req res" "length req = 1 + per_op * n" "0 < per_op" "0 < n" "1 + per_op * n \<le> usize_max"
  obtains (ok) report where "cr_status res = NFS_OK" "analyze (lookup_map per_op cursor n) (res_view res) = Inr report"
      "er_compound_failure report = None" "er_failure report = None" "length (er_completed report) = n"
  | (rejected) report where "cr_status res \<noteq> NFS_OK" "analyze (lookup_map per_op cursor n) (res_view res) = Inr report"
      "er_compound_failure report = Some (cr_status res)" "res_nops res \<le> 1"
  | (failed) report i where "cr_status res \<noteq> NFS_OK" "2 \<le> res_nops res"
      "analyze (lookup_map per_op cursor n) (res_view res) = Inr report"
      "er_compound_failure report = None" "length (er_completed report) = completed_items per_op res"
      "er_failure report = Some \<lparr> if_caller = cursor + completed_items per_op res, if_op_index = i, if_status = cr_status res \<rparr>"
proof -
  let ?r = "res_view res" and ?m = "lookup_map per_op cursor n"
  let ?cs = "map (\<lambda>i. cursor + i) [0..<n]"
  have view: "rv_nops ?r = res_nops res" "rv_status ?r = cr_status res" by (simp_all add: res_view_def)
  have st: "rv_op_status ?r i = (if i + 1 = rv_nops ?r then rv_status ?r else NFS_OK)" if "i < rv_nops ?r" for i
    using accepts_status [OF acc(1), of i] that by (simp add: res_view_def)
  have nops: "res_nops res \<le> 1 + per_op * n" "cr_status res = NFS_OK \<Longrightarrow> res_nops res = 1 + per_op * n"
    using acc(1,2) by (simp_all add: accepts_iff res_nops_def)
  have ranges: "em_ranges ?m = layout 1 (map (\<lambda>c. (c, per_op)) ?cs)"
    unfolding layout_uniform lookup_map_ranges [OF acc(5), of cursor] by simp
  show ?thesis
  proof (cases "cr_status res = NFS_OK")
    case True
    have "analyze_items ?r (em_ranges ?m) [] = Inr (?cs, None, [])"
      unfolding ranges using st nops(2) [OF True] True acc(3) view by (subst analyze_items_ok) auto
    with True st [of 0] nops(2) [OF True] view
    have "\<exists>report. analyze ?m ?r = Inr report \<and> er_compound_failure report = None \<and> er_failure report = None \<and>
        length (er_completed report) = n"
      by (auto simp: analyze_def)
    then show ?thesis using True ok by blast
  next
    case bad: False
    show ?thesis
    proof (cases "res_nops res \<le> 1")
      case True
      then have "res_nops res = 0 \<or> res_nops res = 1" by linarith
      then have "\<exists>report. analyze ?m ?r = Inr report \<and> er_compound_failure report = Some (cr_status res)"
        using bad st [of 0] view by (auto simp: analyze_def)
      then show ?thesis using bad rejected True by blast
    next
      case False
      let ?k = "completed_items per_op res"
      have "?k < n" by (rule completed_items_less [OF acc(1-4)])
      moreover have "?k = (rv_nops ?r - 1 - 1) div per_op" by (simp add: completed_items_def view numeral_2_eq_2)
      then have "analyze_items ?r (em_ranges ?m) [] = Inr (take ?k ?cs,
          Some \<lparr> if_caller = ?cs ! ?k, if_op_index = rv_nops ?r - 1, if_status = rv_status ?r \<rparr>, drop (?k + 1) ?cs)"
        unfolding ranges using st bad acc(3) nops(1) False view by (subst analyze_items_bad [where ?k = ?k]) auto
      moreover have "rv_op_status ?r 0 = NFS_OK" using st [of 0] False view by simp
      ultimately have "\<exists>report i. analyze ?m ?r = Inr report \<and> er_compound_failure report = None \<and>
          length (er_completed report) = ?k \<and>
          er_failure report = Some \<lparr> if_caller = cursor + ?k, if_op_index = i, if_status = cr_status res \<rparr>"
        using False view by (auto simp: analyze_def)
      moreover have "2 \<le> res_nops res" using False by simp
      ultimately show ?thesis using bad failed by blast
    qed
  qed
qed

section \<open>One iteration of a tolerant lookup\<close>

lemma read_only_call [simp]: "call_compound_with_safety tp c ReadOnly = call_compound tp c"
proof -
  have "ambiguous_message ReadOnly e = e" for e by (simp add: ambiguous_message_def)
  then show ?thesis
    by (intro ext) (auto simp: call_compound_with_safety_def map_err_def split: prod.split outcome.split)
qed

lemma store_completed_append:
  "store_completed read res (xs @ ys) out =
     (case store_completed read res xs out of None \<Rightarrow> None | Some out' \<Rightarrow> store_completed read res ys out')"
  by (induction xs arbitrary: out) (auto split: option.splits if_splits)

text \<open>Storing the results of the first \<open>k\<close> items of a chunk.\<close>

lemma store_completed_prefix:
  assumes read: "\<And>i. i < k \<Longrightarrow> read res (1 + per_op * i) \<noteq> None" and "cursor + k \<le> length out"
  shows "store_completed read res (map (\<lambda>i. (cursor + i, 1 + per_op * i, e i)) [0..<k]) out =
    Some (take cursor out @ map (\<lambda>i. Some (Inr (the (read res (1 + per_op * i))))) [0..<k] @ drop (cursor + k) out)"
  using assms
proof (induction k)
  case (Suc k)
  let ?f = "\<lambda>i. Some (Inr (the (read res (1 + per_op * i))))"
  let ?out = "take cursor out @ map ?f [0..<k] @ drop (cursor + k) out"
  obtain v where v: "read res (1 + per_op * k) = Some v" using Suc.prems(1) [of k] by auto
  have len: "length ?out = length out" "length (take cursor out) = cursor" using Suc.prems(2) by auto
  have drop: "drop (cursor + k) out = out ! (cursor + k) # drop (cursor + Suc k) out"
    using Suc.prems(2) by (simp add: Cons_nth_drop_Suc)
  have "?out[cursor + k := Some (Inr v)] =
      take cursor out @ map ?f [0..<Suc k] @ drop (cursor + Suc k) out"
    unfolding drop using len(2) v by (simp add: list_update_append)
  then show ?case using Suc v len by (simp add: store_completed_append)
qed simp

text \<open>What an answered chunk may store: results the reply holds and the status of the item
  it stopped at, unless the server ran out of resources on a chunk of several items:
  that chunk is split and sent again.\<close>

definition lookup_answers ::
  "(nat \<Rightarrow> nat + 'r \<Rightarrow> bool) \<Rightarrow> nat \<Rightarrow> (CompoundRes \<Rightarrow> nat \<Rightarrow> 'r option) \<Rightarrow> nat \<Rightarrow> nat \<Rightarrow> CompoundRes \<Rightarrow> bool" where
  "lookup_answers good per_op read g n res \<longleftrightarrow>
     (\<forall>i < (if cr_status res = NFS_OK then n else completed_items per_op res).
        \<forall>v. read res (1 + per_op * i) = Some v \<longrightarrow> good (g + i) (Inr v)) \<and>
     (cr_status res \<noteq> NFS_OK \<and> 2 \<le> res_nops res \<and> (resource_status (cr_status res) \<longrightarrow> n = 1) \<longrightarrow>
        good (g + completed_items per_op res) (Inl (cr_status res)))"

definition filled :: "(nat \<Rightarrow> nat + 'r \<Rightarrow> bool) \<Rightarrow> nat \<Rightarrow> nat \<Rightarrow> 'r slots \<Rightarrow> bool" where
  "filled good count cursor out \<longleftrightarrow>
     length out = count \<and> cursor \<le> count \<and> (\<forall>i < cursor. \<exists>v. out ! i = Some v \<and> good i v)"

lemma filled_extend:
  assumes "filled good count g out" "g + k \<le> count" "\<And>i. i < k \<Longrightarrow> good (g + i) (f i)"
  shows "filled good count (g + k) (take g out @ map (\<lambda>i. Some (f i)) [0..<k] @ drop (g + k) out)"
  unfolding filled_def
proof (intro conjI allI impI)
  fix i assume "i < g + k"
  show "\<exists>v. (take g out @ map (\<lambda>i. Some (f i)) [0..<k] @ drop (g + k) out) ! i = Some v \<and> good i v"
  proof (cases "i < g")
    case True
    then show ?thesis using assms(1) by (auto simp: filled_def nth_append)
  next
    case False
    then have "good i (f (i - g))" using assms(3) [of "i - g"] \<open>i < g + k\<close> by simp
    moreover have "i - g < k" using False \<open>i < g + k\<close> by simp
    ultimately show ?thesis using False assms(1,2) \<open>i < g + k\<close> by (simp add: filled_def nth_append)
  qed
qed (use assms in \<open>auto simp: filled_def\<close>)

lemma filled_update:
  assumes "filled good count g out" "g < count" "good g v"
  shows "filled good count (g + 1) (out[g := Some v])"
  using assms by (auto simp: filled_def nth_list_update less_Suc_eq)

lemma collect_slots_filled:
  assumes "\<forall>i < length out. \<exists>v. out ! i = Some v"
  shows "collect_slots tag caller out = Inr (map the out)"
  using assms
proof (induction out arbitrary: caller)
  case (Cons slot slots)
  from Cons.prems have "\<forall>i < length slots. \<exists>v. slots ! i = Some v" by (metis Suc_mono length_Cons nth_Cons_Suc)
  moreover from Cons.prems obtain v where "slot = Some v" by (metis length_greater_0_conv list.distinct(1) nth_Cons_0)
  ultimately show ?case using Cons.IH by simp
qed simp

text \<open>An answered chunk stores acceptable results and moves the cursor, stays for lack of
  resources, or ends the lookup with an error.\<close>

definition lookup_moves ::
  "(RpcError \<Rightarrow> bool) \<Rightarrow> (nat \<Rightarrow> 'r slots \<Rightarrow> bool) \<Rightarrow> nat \<Rightarrow> bool \<Rightarrow> ('r lookup_vars, (nat + 'r) list outcome) ctl \<Rightarrow> bool" where
  "lookup_moves final held g stay ctl \<longleftrightarrow>
     (case ctl of
        Again (g', m', out') \<Rightarrow> m' = usize_max \<and> g \<le> g' \<and> held g' out' \<and> (g' = g \<longrightarrow> stay)
      | Leave_Loop r \<Rightarrow> \<exists>e. r = Fail e \<and> final e)"

lemma lookup_settle_step:
  assumes adds: "adds add per_op item"
    and ext: "extracts item per_op (\<lambda>_ res i. map_option Inr (read res (1 + per_op * i)))"
    and acc: "accepts req res" "decoded res" "req = sq # concat (item_list item (chunk_at ops g n) g)"
    and n: "0 < n" "g + n \<le> length ops" "1 + per_op * n \<le> usize_max"
    and filled: "filled good (length ops) g out" and good: "lookup_answers good per_op read g n res"
  obtains report ctl where "analyze (lookup_map per_op g n) (res_view res) = Inr report"
    "lookup_settle read (lookup_map per_op g n) g n out res report st = (st, ctl)"
    "lookup_moves (\<lambda>e. res_nops res \<le> 1 \<and> (resource_status (cr_status res) \<longrightarrow> n = 1) \<and> e = rpc_op g (cr_status res)) (filled good (length ops)) g (out_of_resources res \<and> 1 < n) ctl"
proof -
  let ?m = "lookup_map per_op g n"
  let ?k = "if cr_status res = NFS_OK then n else completed_items per_op res"
  have pos: "0 < per_op" using adds by (simp add: adds_def)
  have chunk: "length (chunk_at ops g n) = n" using n(2) by simp
  have len: "length req = 1 + per_op * n"
    using acc(3) add_chunk_ops [OF adds, of "tagged []" "chunk_at ops g n" g] chunk by simp
  have k: "?k \<le> n" using completed_items_less [OF acc(1) len pos n(1)] by simp
  have read: "read res (1 + per_op * i) \<noteq> None" if "i < ?k" for i
  proof -
    from that have "i < (if cr_status res = NFS_OK then length (chunk_at ops g n) else completed_items per_op res)"
      unfolding chunk .
    note item = completed_item [OF adds acc(1,3) this]
    from extractsD [OF ext acc(1,2) item] show ?thesis by simp
  qed
  let ?stored = "take g out @ map (\<lambda>i. Some (Inr (the (read res (1 + per_op * i))))) [0..<?k] @ drop (g + ?k) out"
  have stored: "store_completed read res (completed_ranges ?m report) out = Some ?stored"
    if "length (er_completed report) = ?k" for report
  proof -
    have "completed_ranges ?m report = map (\<lambda>i. (g + i, 1 + per_op * i, 1 + per_op * (i + 1))) [0..<?k]"
      unfolding completed_ranges_def that lookup_map_ranges [OF n(3)] using k by (simp add: take_map)
    moreover have "g + ?k \<le> length out" using k n(2) filled by (simp add: filled_def)
    ultimately show ?thesis using store_completed_prefix [of ?k read res per_op g out "\<lambda>i. 1 + per_op * (i + 1)"] read
      by simp
  qed
  have held: "filled good (length ops) (g + ?k) ?stored"
  proof (rule filled_extend [OF filled])
    fix i assume "i < ?k"
    then obtain v where "read res (1 + per_op * i) = Some v" using read [of i] by blast
    then show "good (g + i) (Inr (the (read res (1 + per_op * i))))"
      using good \<open>i < ?k\<close> unfolding lookup_answers_def by (metis option.sel)
  qed (use k n(2) in simp)
  from acc(1) len pos n(1) n(3) show ?thesis
  proof (cases rule: lookup_report [where ?cursor = g])
    case (ok report)
    then have "lookup_settle read ?m g n out res report st = (st, Again (g + n, usize_max, ?stored))"
      using stored [of report] by (simp add: lookup_settle_def lookup_failure_def try_in_def of_option_def again_def)
    then show ?thesis using ok held n(1) by (intro that [OF ok(2)]) (auto simp: lookup_moves_def)
  next
    case (rejected report)
    then show ?thesis using filled
      by (intro that [OF rejected(2), of "if resource_status (cr_status res) \<and> 1 < n then Again (g, usize_max, out)
          else Leave_Loop (Fail (rpc_op g (cr_status res)))"])
        (use n(1) in \<open>auto simp: lookup_moves_def lookup_settle_def again_def leave_with_def fail_with_def
            resource_status_def out_of_resources_def\<close>)
  next
    case (failed report i)
    let ?kc = "completed_items per_op res"
    have k: "?k = ?kc" using failed(1) by simp
    have good': "good (g + ?kc) (Inl (cr_status res))" if "\<not> (resource_status (cr_status res) \<and> 1 < n)"
      using good failed(1,2) that n(1) by (auto simp: lookup_answers_def)
    have less: "g + ?kc < length ops" using completed_items_less [OF acc(1) len pos n(1)] n(2) by simp
    have "lookup_settle read ?m g n out res report st =
        (st, if resource_status (cr_status res) \<and> 1 < n then Again (g + ?kc, usize_max, ?stored)
             else Again (g + ?kc + 1, usize_max, ?stored[g + ?kc := Some (Inl (cr_status res))]))"
      using stored [of report] failed(4-6) k held less
      by (simp add: lookup_settle_def lookup_failure_def try_in_def of_option_def again_def filled_def)
    moreover have "filled good (length ops) (g + ?kc + 1) (?stored[g + ?kc := Some (Inl (cr_status res))])"
      if "\<not> (resource_status (cr_status res) \<and> 1 < n)"
      using filled_update [OF held [unfolded k] less good' [OF that]] k by simp
    ultimately show ?thesis
      using held k by (intro that [OF failed(3)]) (auto simp: lookup_moves_def resource_status_def out_of_resources_def)
  qed
qed

text \<open>The replies a transport may give to the chunks of a lookup.  What an acceptable
  result and an acceptable error are may depend on what was sent so far, but further
  requests do not change it.\<close>

definition lookup_replies ::
  "'w transport \<Rightarrow> ('t \<Rightarrow> nat \<Rightarrow> nfs_argop4 list) \<Rightarrow> 't list \<Rightarrow> ('w \<Rightarrow> nat \<Rightarrow> nat + 'r \<Rightarrow> bool)
     \<Rightarrow> ('w \<Rightarrow> RpcError \<Rightarrow> bool) \<Rightarrow> nat \<Rightarrow> (CompoundRes \<Rightarrow> nat \<Rightarrow> 'r option) \<Rightarrow> bool" where
  "lookup_replies tp item ops good final per_op read \<longleftrightarrow>
     (\<forall>rq w w' r i v. compound_call tp rq w = (w', r) \<and> good w i v \<longrightarrow> good w' i v) \<and>
     (\<forall>w e. local_refusal e \<longrightarrow> final w e) \<and>
     (\<forall>g n rq sq w w' r. 0 < n \<and> g + n \<le> length ops \<and>
        cp_ops rq = sq # concat (item_list item (chunk_at ops g n) g) \<and> compound_call tp rq w = (w', r) \<longrightarrow>
        (case r of
           Inl e \<Rightarrow> final w' e
         | Inr res \<Rightarrow>
             lookup_answers (good w') per_op read g n res \<and>
             (res_nops res \<le> 1 \<and> (resource_status (cr_status res) \<longrightarrow> n = 1) \<longrightarrow>
                final w' (rpc_op g (cr_status res)))))"

lemma lookup_repliesD:
  assumes "lookup_replies tp item ops good final per_op read" "0 < n" "g + n \<le> length ops"
    and "cp_ops rq = sq # concat (item_list item (chunk_at ops g n) g)"
  shows "compound_call tp rq w = (w', Inl e) \<Longrightarrow> final w' e"
    and "compound_call tp rq w = (w', Inr res) \<Longrightarrow> lookup_answers (good w') per_op read g n res"
    and "\<lbrakk>compound_call tp rq w = (w', Inr res); res_nops res \<le> 1; resource_status (cr_status res) \<longrightarrow> n = 1\<rbrakk>
      \<Longrightarrow> final w' (rpc_op g (cr_status res))"
  using assms unfolding lookup_replies_def by (fastforce split: sum.splits)+

lemma filled_later:
  assumes "lookup_replies tp item ops good final per_op read" "compound_call tp rq w = (w', r)"
    and "filled (good w) count g out"
  shows "filled (good w') count g out"
  using assms unfolding lookup_replies_def filled_def by blast

definition lookup_result :: "(nat \<Rightarrow> nat + 'r \<Rightarrow> bool) \<Rightarrow> (RpcError \<Rightarrow> bool) \<Rightarrow> nat \<Rightarrow> (nat + 'r) list outcome \<Rightarrow> bool" where
  "lookup_result good final len r \<longleftrightarrow>
     (case r of
        Done vs \<Rightarrow> length vs = len \<and> (\<forall>i < len. good i (vs ! i))
      | Fail e \<Rightarrow> final e
      | Stuck \<Rightarrow> False)"

definition lookup_progress ::
  "('w \<Rightarrow> nat \<Rightarrow> nat + 'r \<Rightarrow> bool) \<Rightarrow> ('w \<Rightarrow> RpcError \<Rightarrow> bool) \<Rightarrow> nat \<Rightarrow> bytes \<Rightarrow> nat \<Rightarrow> NfsClient \<Rightarrow> nat \<Rightarrow> nat
     \<Rightarrow> 'w client_state \<times> ('r lookup_vars, (nat + 'r) list outcome) ctl \<Rightarrow> bool" where
  "lookup_progress good final count tag per_op cl g m step \<longleftrightarrow>
     (case step of
        ((cl', w'), Again (g', m', out')) \<Rightarrow>
          client_ok cl' \<and> 0 < m' \<and> filled (good w') count g' out' \<and> g < count \<and> g \<le> g' \<and>
          (g = g' \<longrightarrow> capacity_of cl' tag per_op < capacity_of cl tag per_op \<or> cl' = cl \<and> m' < m)
      | ((cl', w'), Leave_Loop r) \<Rightarrow> lookup_result (good w') (final w') count r)"

lemma lookup_send_step:
  assumes adds: "adds add per_op item"
    and ext: "extracts item per_op (\<lambda>_ res i. map_option Inr (read res (1 + per_op * i)))"
    and dec: "decoded_transport tp" and replies: "lookup_replies tp item ops good final per_op read"
    and ok: "client_ok cl" and filled: "filled (good w) (length ops) g out"
    and n: "0 < n" "g + n \<le> length ops" "n \<le> capacity_of cl tag per_op" "1 + per_op * n \<le> nc_max_ops cl"
    and fits: "compound_request_fits tp cl (add_chunk add (tagged tag) (chunk_at ops g n) g) = Some (c1, fits)"
  shows "lookup_progress good final (length ops) tag per_op cl g m (lookup_send tp tag per_op read g n out c1 (cl, w))"
proof -
  have pos: "0 < per_op" using adds by (simp add: adds_def)
  have len: "n = length (chunk_at ops g n)" using n(2) by simp
  have small: "1 + per_op * n \<le> usize_max"
    using ok n(4) by (simp add: client_ok_def MAX_COMPOUND_OPS_def u64_max_def)
  from adds ok len fits show ?thesis
  proof (cases rule: chunk_call_cases [where ?w = w])
    case (refused e)
    moreover have "final w e" using replies refused(2) by (simp add: lookup_replies_def)
    ultimately show ?thesis by (simp add: lookup_send_def try_in_def lookup_progress_def lookup_result_def)
  next
    case (failed w' rq e)
    moreover have "final w' e" by (rule lookup_repliesD(1) [OF replies n(1,2) failed(2,3)])
    ultimately show ?thesis by (simp add: lookup_send_def try_in_def lookup_progress_def lookup_result_def)
  next
    case (answered w' rq res s')
    define cl1 where "cl1 = observe_reply tag (1 + per_op * n) res (cl \<lparr> nc_session := s' \<rparr>)"
    have smaller: "capacity_of cl1 tag per_op < capacity_of cl tag per_op" if "out_of_resources res \<and> 1 < n"
      using capacity_after_rejection [OF _ pos, of res n tag "cl \<lparr> nc_session := s' \<rparr>"] that n(3)
      by (auto simp: out_of_resources_def cl1_def)
    note good = lookup_repliesD(2) [OF replies n(1,2) answered(2,4)]
    have final: "final w' (rpc_op g (cr_status res))"
      if "res_nops res \<le> 1 \<and> (resource_status (cr_status res) \<longrightarrow> n = 1)"
      using lookup_repliesD(3) [OF replies n(1,2) answered(2,4)] that by blast
    from lookup_settle_step [OF adds ext answered(5) reply_decoded [OF dec answered(4)] answered(2) n(1,2) small
        filled_later [OF replies answered(4) filled] good, of "(cl1, w')"]
    obtain report ctl where step: "analyze (lookup_map per_op g n) (res_view res) = Inr report"
      "lookup_settle read (lookup_map per_op g n) g n out res report (cl1, w') = ((cl1, w'), ctl)"
      "lookup_moves (\<lambda>e. res_nops res \<le> 1 \<and> (resource_status (cr_status res) \<longrightarrow> n = 1) \<and> e = rpc_op g (cr_status res)) (filled (good w') (length ops)) g (out_of_resources res \<and> 1 < n) ctl" .
    then have "lookup_send tp tag per_op read g n out c1 (cl, w) = ((cl1, w'), ctl)"
      using answered(1) [folded cl1_def] by (simp add: lookup_send_def try_in_def)
    then show ?thesis
      using step(3) observed_client(1) [OF ok cl1_def] smaller n(1,2) final
      by (auto simp: lookup_progress_def lookup_moves_def lookup_result_def u64_max_def split: ctl.splits)
  qed
qed

lemma lookup_body_step:
  assumes adds: "adds add per_op item"
    and ext: "extracts item per_op (\<lambda>_ res i. map_option Inr (read res (1 + per_op * i)))"
    and dec: "decoded_transport tp" and replies: "lookup_replies tp item ops good final per_op read"
    and ok: "client_ok cl" "0 < m" and filled: "filled (good w) (length ops) g out"
  shows "lookup_progress good final (length ops) tag per_op cl g m (lookup_body tp tag per_op ops add read (g, m, out) (cl, w))"
proof -
  have pos: "0 < per_op" using adds by (simp add: adds_def)
  let ?body = "lookup_body tp tag per_op ops add read (g, m, out) (cl, w)"
  have "g \<le> length ops" using filled by (simp add: filled_def)
  then consider (finished) "g = length ops" | (full) "g < length ops" "capacity_of cl tag per_op = 0"
    | (go) "g < length ops" "capacity_of cl tag per_op \<noteq> 0"
    by linarith
  then show ?thesis
  proof cases
    case finished
    then have all: "\<forall>i < length out. \<exists>v. out ! i = Some v \<and> good w i v" and len: "length out = length ops"
      using filled by (auto simp: filled_def)
    then have "collect_slots tag 0 out = Inr (map the out)" by (intro collect_slots_filled) blast
    then have "?body = ((cl, w), Leave_Loop (Done (map the out)))"
      using finished by (simp add: lookup_body_def leave_with_def of_sum_def)
    then show ?thesis using all len by (fastforce simp: lookup_progress_def lookup_result_def)
  next
    case full
    moreover have "final w (rpc_op 0 NFS4ERR_TOO_MANY_OPS)"
      using replies by (simp add: lookup_replies_def local_refusal_def)
    ultimately show ?thesis
      by (simp add: lookup_body_def lookup_progress_def lookup_result_def try_in_def of_sum_def
          batch_capacity_eq [of cl tag per_op, simplified])
  next
    case go
    define n where "n = chunk_length cl tag per_op (length ops) g m"
    have n: "0 < n" "g + n \<le> length ops" "n \<le> m" "n \<le> capacity_of cl tag per_op"
      using ok go by (auto simp: n_def chunk_length_def)
    have fits_ops: "1 + per_op * n \<le> nc_max_ops cl" by (rule chunk_length_fits [OF adds ok(1) n_def])
    let ?chunk = "chunk_at ops g n"
    obtain c1 fits where fits: "compound_request_fits tp cl (add_chunk add (tagged tag) ?chunk g) = Some (c1, fits)"
      using compound_request_fits_total [of tp cl "add_chunk add (tagged tag) ?chunk g"] by blast
    have e: "min (g + min (capacity_of cl tag per_op) m) (length ops) - g = n"
      using go by (auto simp: n_def chunk_length_def)
    have slice: "slice ops g (min (g + min (capacity_of cl tag per_op) m) (length ops)) = ?chunk"
      by (simp add: chunk_at_slice n_def chunk_length_def)
    have body: "?body = (if \<not> fits \<and> 1 < n then again (g, n div 2, out) (cl, w)
        else lookup_send tp tag per_op read g n out c1 (cl, w))"
      using go fits by (simp add: lookup_body_def batch_capacity_eq [of cl tag per_op, simplified] try_in_def
          of_sum_def of_option_def slice e Let_def)
    have "n div 2 < m" using n(1,3) by linarith
    with body filled n ok go lookup_send_step [OF adds ext dec replies ok(1) filled n(1,2,4) fits_ops fits]
    show ?thesis by (auto simp: lookup_progress_def again_def)
  qed
qed

text \<open>A tolerant lookup always ends; if it succeeds there is an acceptable result for
  every item, in order.\<close>

lemma tolerant_lookup_result:
  assumes adds: "adds add per_op item"
    and ext: "extracts item per_op (\<lambda>_ res i. map_option Inr (read res (1 + per_op * i)))"
    and dec: "decoded_transport tp" and replies: "lookup_replies tp item ops good final per_op read" and ok: "client_ok cl"
    and run: "tolerant_lookup tp tag per_op ops add read (cl, w) = ((cl', w'), r)"
  shows "lookup_result (good w') (final w') (length ops) r"
proof (cases "ops = []")
  case False
  let ?body = "lookup_body tp tag per_op ops add read"
  let ?I = "\<lambda>(g, m, out) (cl, w). client_ok cl \<and> 0 < m \<and> filled (good w) (length ops) g out"
  let ?R = "inv_image (less_than <*lex*> less_than <*lex*> less_than)
      (\<lambda>((g, m, out), (cl, w)). (length ops - g, capacity_of cl tag per_op, m))"
  let ?Q = "\<lambda>s r. lookup_result (good (snd s)) (final (snd s)) (length ops) r"
  let ?start = "(0, usize_max, replicate (length ops) None)"
  have start: "?I ?start (cl, w)" using ok by (simp add: filled_def u64_max_def)
  have step: "lookup_progress good final (length ops) tag per_op cl g m (?body (g, m, out) (cl, w))"
    if "client_ok cl" "0 < m" "filled (good w) (length ops) g out" for g m out cl w
    by (rule lookup_body_step [OF adds ext dec replies that])
  have more: "?I l' s' \<and> ((l', s'), (l, s)) \<in> ?R" if "?I l s" "?body l s = (s', Again l')" for l s l' s'
    using that step [of "fst s" "fst (snd l)" "snd s" "fst l" "snd (snd l)"]
    by (cases l; cases s; cases l'; cases s') (auto simp: lookup_progress_def)
  have leave: "?Q s' r" if "?I l s" "?body l s = (s', Leave_Loop r)" for l s s' r
    using that step [of "fst s" "fst (snd l)" "snd s" "fst l" "snd (snd l)"]
    by (cases l; cases s; cases s') (auto simp: lookup_progress_def)
  have "?Q (fst (loop_op ?body ?start (cl, w))) (snd (loop_op ?body ?start (cl, w)))"
    by (rule loop_op_rule [where I = ?I and R = ?R and Q = ?Q, OF start more leave]) auto
  then show ?thesis using False run by (simp add: tolerant_lookup_def)
qed (use run in \<open>auto simp: tolerant_lookup_def ret_def lookup_result_def\<close>)

section \<open>Lookups against a server whose names do not change\<close>

definition lookup_item :: "bytes \<times> bytes \<Rightarrow> nfs_argop4 list" where
  "lookup_item = (\<lambda>(dir, name). [A_PutFh dir, A_Lookup name, A_GetFh])"

definition typed_lookup_item :: "bytes \<times> bytes \<Rightarrow> nfs_argop4 list" where
  "typed_lookup_item = (\<lambda>(dir, name). [A_PutFh dir, A_Lookup name, A_GetFh, A_Getattr (bitmap [FATTR4_TYPE])])"

text \<open>The server answers an item the same way whenever it is asked, except that it may run
  out of resources.\<close>

definition steady :: "'st item_exec \<Rightarrow> (nfs_resop4 list \<Rightarrow> 'r) \<Rightarrow> (nfs_argop4 list \<Rightarrow> nat + 'r) \<Rightarrow> bool" where
  "steady exec ex answer \<longleftrightarrow>
     (\<forall>st it st' rs. exec st it = (st', rs) \<longrightarrow>
        (if list_all result_ok rs then answer it = Inr (ex rs)
         else answer it = Inl (response_op_status (last rs)) \<or> resource_status (response_op_status (last rs))))"

text \<open>A request of the log that looks up \<open>n\<close> of the names from the one at \<open>g\<close> on, and
  nothing else.\<close>

definition asked ::
  "(Compound \<times> 'w) list \<Rightarrow> ('t \<Rightarrow> nfs_argop4 list) \<Rightarrow> 't list \<Rightarrow> nat \<Rightarrow> nat \<Rightarrow> Compound \<Rightarrow> 'w \<Rightarrow> bool" where
  "asked log item ops g n rq w \<longleftrightarrow>
     (rq, w) \<in> set log \<and> 0 < n \<and> g + n \<le> length ops \<and>
     tl (cp_ops rq) = concat (map item (chunk_at ops g n))"

text \<open>The result for a name is the server's own answer.  It is a lack of resources only
  where the server reported that to a request for this name alone.\<close>

definition answered_by ::
  "'w transport \<Rightarrow> (Compound \<times> 'w) list \<Rightarrow> ('t \<Rightarrow> nfs_argop4 list) \<Rightarrow> (nfs_argop4 list \<Rightarrow> nat + 'r) \<Rightarrow> 't list
     \<Rightarrow> nat \<Rightarrow> nat + 'r \<Rightarrow> bool" where
  "answered_by tp log item answer ops i v \<longleftrightarrow>
     v = answer (item (ops ! i)) \<or>
     (\<exists>rq w w' res. asked log item ops i 1 rq w \<and> compound_call tp rq w = (w', Inr res) \<and>
        resource_status (cr_status res) \<and> v = Inl (cr_status res))"

text \<open>What fails a whole lookup: a request the client refuses, a request of this lookup
  that was lost, or a reply that rejects one of its requests before the items.  A
  rejection for lack of resources is final only when the request held one name.\<close>

definition whole_failure ::
  "'w transport \<Rightarrow> (Compound \<times> 'w) list \<Rightarrow> ('t \<Rightarrow> nfs_argop4 list) \<Rightarrow> 't list \<Rightarrow> RpcError \<Rightarrow> bool" where
  "whole_failure tp log item ops e \<longleftrightarrow>
     local_refusal e \<or>
     (\<exists>g n rq w w' r. asked log item ops g n rq w \<and> compound_call tp rq w = (w', r) \<and>
        (case r of
           Inl e' \<Rightarrow> e' = e
         | Inr res \<Rightarrow>
             res_nops res \<le> 1 \<and> cr_status res \<noteq> NFS_OK \<and> (resource_status (cr_status res) \<longrightarrow> n = 1) \<and>
             e = rpc_op g (cr_status res)))"

text \<open>What a reply to a chunk says of its items.\<close>

lemma steady_answers:
  assumes adds: "adds add per_op (\<lambda>op _. item op)"
    and ext: "extracts_value (\<lambda>op _. item op) per_op (\<lambda>_ res i. map_option Inr (read res (1 + per_op * i))) ex"
    and exec: "stops_at_failure exec" and steady: "steady exec ex answer"
    and server: "item_server obs exec shape tp" "\<And>op. shape (item op)" "decoded_transport tp"
    and n: "0 < n" "g + n \<le> length ops"
    and rq: "cp_ops rq = sq # concat (item_list (\<lambda>op _. item op) (chunk_at ops g n) g)"
    and call: "compound_call tp rq w = (w', Inr res)"
  shows "(\<forall>i < (if cr_status res = NFS_OK then n else completed_items per_op res).
        \<forall>v. read res (1 + per_op * i) = Some v \<longrightarrow> answer (item (ops ! (g + i))) = Inr v) \<and>
     (cr_status res \<noteq> NFS_OK \<and> 2 \<le> res_nops res \<longrightarrow>
        answer (item (ops ! (g + completed_items per_op res))) = Inl (cr_status res) \<or> resource_status (cr_status res))"
proof -
  let ?its = "map item (chunk_at ops g n)"
  have len: "length (chunk_at ops g n) = n" using n(2) by simp
  have pos: "0 < per_op" using adds by (simp add: adds_def)
  have its: "list_all (\<lambda>it. length it = per_op) ?its" "?its \<noteq> []" "list_all shape ?its"
    using adds server(2) n by (auto simp: adds_def list_all_iff chunk_at_def)
  have at: "?its ! i = item (ops ! (g + i))" if "i < n" for i
    using that n(2) by (simp add: chunk_at_def)
  have acc: "accepts (cp_ops rq) res" "decoded res" using compound_call_decoded [OF server(3) call] by auto
  have eff: "chunk_effect exec ?its (obs w) (obs w') res"
    by (rule server_effect(2) [OF server(1) rq [unfolded item_list_map] its(3) call])
  have right: "answer (item (ops ! (g + i))) = Inr (ex rs)"
    if "exec st (?its ! i) = (st', rs)" "list_all result_ok rs" "i < n" for st st' rs i
    using steady that at [OF that(3)] unfolding steady_def by metis
  note value_at = extract_item_value [OF ext adds acc rq]
  from exec its(1) pos its(2) eff acc(1) show ?thesis
  proof (cases rule: chunk_effect_cases)
    case (all rss sr)
    have rss: "complete_run per_op n rss" using all(3) len by simp
    have "answer (item (ops ! (g + i))) = Inr v" if i: "i < n" "read res (1 + per_op * i) = Some v" for i v
    proof -
      have "v = ex (rss ! i)" using value_at [of sr rss "[]" n i] all(1,4,5) rss i len by simp
      moreover obtain st st' where "exec st (?its ! i) = (st', rss ! i)"
        using run_items_nth [OF all(2), of i] rss i(1) by (auto simp: complete_run_def)
      ultimately show ?thesis using right rss i(1) by (auto simp: complete_run_def list_all_length)
    qed
    then show ?thesis using all(1) by simp
  next
    case none
    then show ?thesis by simp
  next
    case (some rss sr)
    let ?k = "completed_items per_op res"
    obtain stk good bad where f: "?k < n" "rss = good @ [bad]" "complete_run per_op ?k good"
      "exec stk (?its ! ?k) = (obs w', bad)" "\<not> result_ok (last bad)" "0 < length bad"
      "run_items exec (obs w) (take ?k ?its) = (stk, good)"
      using some(3) len unfolding failed_run_def by auto
    have "answer (item (ops ! (g + i))) = Inr v" if i: "i < ?k" "read res (1 + per_op * i) = Some v" for i v
    proof -
      have "v = ex (good ! i)" using value_at [of sr good bad ?k i] some(1,5,6) f(2,3) i by simp
      moreover obtain sti sti' where "exec sti (?its ! i) = (sti', good ! i)"
        using run_items_nth [OF f(7), of i] f(3) i(1) by (auto simp: complete_run_def)
      ultimately show ?thesis using right f(1,3) i(1) by (auto simp: complete_run_def list_all_length)
    qed
    moreover have "answer (item (ops ! (g + ?k))) = Inl (cr_status res) \<or> resource_status (cr_status res)"
      using steady f(4-6) some(4) at [OF f(1)] last_in_set [of bad] unfolding steady_def f(2)
      by (metis last_snoc length_greater_0_conv list_all_iff)
    ultimately show ?thesis using some(1) by simp
  qed
qed

lemma asked_later: "asked log item ops g n rq w \<Longrightarrow> asked (log @ more_log) item ops g n rq w"
  by (simp add: asked_def)

lemma steady_replies:
  fixes tp :: "'w transport"
  assumes adds: "adds add per_op (\<lambda>op _. item op)"
    and ext: "extracts_value (\<lambda>op _. item op) per_op (\<lambda>_ res i. map_option Inr (read res (1 + per_op * i))) ex"
    and exec: "stops_at_failure exec" and steady: "steady exec ex answer"
    and server: "item_server obs exec shape tp" "\<And>op. shape (item op)" "decoded_transport tp"
  shows "lookup_replies (logging tp) (\<lambda>op _. item op) ops (\<lambda>wl. answered_by tp (snd wl) item answer ops)
    (\<lambda>wl. whole_failure tp (snd wl) item ops) per_op read"
  unfolding lookup_replies_def
proof (intro conjI allI impI; (elim conjE)?)
  fix rq i v and wl wl' :: "'w \<times> (Compound \<times> 'w) list" and r
  assume "compound_call (logging tp) rq wl = (wl', r)" and good: "answered_by tp (snd wl) item answer ops i v"
  then have "snd wl' = snd wl @ [(rq, fst wl)]" by (cases wl) (auto simp: logging_call split: prod.splits)
  with good show "answered_by tp (snd wl') item answer ops i v"
    unfolding answered_by_def using asked_later [of "snd wl"] by metis
next
  fix wl :: "'w \<times> (Compound \<times> 'w) list" and e
  assume "local_refusal e"
  then show "whole_failure tp (snd wl) item ops e" by (simp add: whole_failure_def)
next
  fix g n rq sq and wl wl' :: "'w \<times> (Compound \<times> 'w) list" and r
  assume n: "0 < n" "g + n \<le> length ops"
    and rq: "cp_ops rq = sq # concat (item_list (\<lambda>op _. item op) (chunk_at ops g n) g)"
    and call: "compound_call (logging tp) rq wl = (wl', r)"
  obtain w log where wl: "wl = (w, log)" by fastforce
  obtain w1 where sent: "compound_call tp rq w = (w1, r)" "wl' = (w1, log @ [(rq, w)])"
    using call by (auto simp: wl logging_call split: prod.splits)
  have here: "asked (snd wl') item ops g n rq w"
    using n rq sent(2) by (simp add: asked_def item_list_map)
  show "case r of
      Inl e \<Rightarrow> whole_failure tp (snd wl') item ops e
    | Inr res \<Rightarrow>
        lookup_answers (answered_by tp (snd wl') item answer ops) per_op read g n res \<and>
        (res_nops res \<le> 1 \<and> (resource_status (cr_status res) \<longrightarrow> n = 1) \<longrightarrow>
           whole_failure tp (snd wl') item ops (rpc_op g (cr_status res)))"
  proof (cases r)
    case (Inl e)
    have "whole_failure tp (snd wl') item ops e"
      unfolding whole_failure_def using here sent(1) Inl by (intro disjI2 exI conjI) auto
    then show ?thesis using Inl by simp
  next
    case (Inr res)
    note reply = sent(1) [unfolded Inr]
    note answers = steady_answers [OF adds ext exec steady server n rq reply]
    have pos: "0 < per_op" using adds by (simp add: adds_def)
    have len: "length (cp_ops rq) = 1 + per_op * n"
      using add_chunk_ops [OF adds, of "tagged []" "chunk_at ops g n" g] n(2) rq by simp
    have acc: "accepts (cp_ops rq) res" using compound_call_Inr [OF reply] by simp
    have "answered_by tp (snd wl') item answer ops (g + completed_items per_op res) (Inl (cr_status res))"
      if stopped: "cr_status res \<noteq> NFS_OK" "2 \<le> res_nops res" "resource_status (cr_status res) \<longrightarrow> n = 1"
    proof (cases "resource_status (cr_status res)")
      case True
      then have "n = 1" using stopped(3) by simp
      then have "completed_items per_op res = 0" using completed_items_less [OF acc len pos n(1)] by simp
      then show ?thesis
        unfolding answered_by_def using here reply True \<open>n = 1\<close> by (intro disjI2 exI conjI) auto
    next
      case False
      then show ?thesis using answers stopped by (simp add: answered_by_def)
    qed
    then have "lookup_answers (answered_by tp (snd wl') item answer ops) per_op read g n res"
      using answers by (auto simp: lookup_answers_def answered_by_def)
    moreover have "whole_failure tp (snd wl') item ops (rpc_op g (cr_status res))"
      if few: "res_nops res \<le> 1" "resource_status (cr_status res) \<longrightarrow> n = 1"
    proof -
      have "cr_status res \<noteq> NFS_OK"
        using acc few(1) len pos n(1) by (auto simp: accepts_iff res_nops_def)
      then show ?thesis
        unfolding whole_failure_def using here reply few by (intro disjI2 exI conjI) auto
    qed
    ultimately show ?thesis using Inr by simp
  qed
qed

lemma extracts_pair:
  assumes "extracts item p (\<lambda>_ res i. map_option Inr (f res i))" "extracts item p (\<lambda>_ res i. map_option Inr (g res i))"
  shows "extracts item p (\<lambda>_ res i. map_option Inr
    (case f res i of None \<Rightarrow> None | Some x \<Rightarrow> map_option (h x) (g res i)))"
  unfolding extracts_def
proof (intro allI impI)
  fix req res k i op q
  assume prem: "accepts req res \<and> decoded res \<and> 1 + p * (i + 1) \<le> res_nops res \<and>
    (\<forall>j < p. op_status res (1 + p * i + j) = Some NFS_OK) \<and> take p (drop (1 + p * i) req) = item op q"
  have "f res i \<noteq> None" using assms(1) prem unfolding extracts_def by fast
  moreover have "g res i \<noteq> None" using assms(2) prem unfolding extracts_def by fast
  ultimately show "map_option Inr (case f res i of None \<Rightarrow> None | Some x \<Rightarrow> map_option (h x) (g res i)) \<noteq> None" by auto
qed

lemma extracts_value_pair:
  assumes "extracts_value item p (\<lambda>_ res i. map_option Inr (f res i)) ef"
    "extracts_value item p (\<lambda>_ res i. map_option Inr (g res i)) eg"
  shows "extracts_value item p (\<lambda>_ res i. map_option Inr
    (case f res i of None \<Rightarrow> None | Some x \<Rightarrow> map_option (h x) (g res i))) (\<lambda>rs. h (ef rs) (eg rs))"
  unfolding extracts_value_def
proof (intro allI impI)
  fix req and res :: CompoundRes and k i op q
  let ?slice = "take p (drop (1 + p * i) (the (cr_ops res)))"
  assume prem: "accepts req res \<and> decoded res \<and> 1 + p * (i + 1) \<le> res_nops res \<and>
    (\<forall>j < p. op_status res (1 + p * i + j) = Some NFS_OK) \<and> take p (drop (1 + p * i) req) = item op q \<and>
    cr_len res = length (the (cr_ops res))"
  have "map_option Inr (f res i) = Some (Inr (ef ?slice) :: RpcError + _)"
    using assms(1) prem unfolding extracts_value_def by fast
  moreover have "map_option Inr (g res i) = Some (Inr (eg ?slice) :: RpcError + _)"
    using assms(2) prem unfolding extracts_value_def by fast
  ultimately show "map_option Inr (case f res i of None \<Rightarrow> None | Some x \<Rightarrow> map_option (h x) (g res i)) =
      Some (Inr (h (ef ?slice) (eg ?slice)))"
    by auto
qed

definition found_fh :: "nfs_resop4 list \<Rightarrow> bytes" where
  "found_fh rs = the (r_getfh (reply_of rs) 2)"

definition found_type :: "nfs_resop4 list \<Rightarrow> nat" where
  "found_type rs = type_of_bytes (the (r_getattr (reply_of rs) 3))"

lemma handle_local:
  "resop res i = resop res' j \<Longrightarrow> r_getfh res i = r_getfh res' j"
  "resop res i = resop res' j \<Longrightarrow> r_getattr res i = r_getattr res' j"
  by (simp_all add: r_getfh_def r_getattr_def expect_op_def)

lemma lookup_items:
  "adds (\<lambda>c (dir, name) _. c_getfh (c_lookup (c_putfh c dir) name)) 3 (\<lambda>op _. lookup_item op)"
  "adds (\<lambda>c (dir, name) _. c_getattr (c_getfh (c_lookup (c_putfh c dir) name)) [FATTR4_TYPE]) 4 (\<lambda>op _. typed_lookup_item op)"
  by (auto simp: adds_def lookup_item_def typed_lookup_item_def c_getfh_def c_lookup_def c_putfh_def c_getattr_def
      push_def keep_def Let_def)

lemma lookup_extracts:
  "extracts (\<lambda>op _. lookup_item op) 3 (\<lambda>_ res i. map_option Inr (r_getfh res (1 + 3 * i + 2)))"
  "extracts (\<lambda>op _. typed_lookup_item op) 4 (\<lambda>_ res i. map_option Inr (r_getfh res (1 + 4 * i + 2)))"
  "extracts (\<lambda>op _. typed_lookup_item op) 4 (\<lambda>_ res i. map_option Inr (r_getattr res (1 + 4 * i + 3)))"
proof -
  show "extracts (\<lambda>op _. lookup_item op) 3 (\<lambda>_ res i. map_option Inr (r_getfh res (1 + 3 * i + 2)))"
    by (rule extracts_accessor [OF accessor_total(7)]) (auto simp: lookup_item_def)
  show "extracts (\<lambda>op _. typed_lookup_item op) 4 (\<lambda>_ res i. map_option Inr (r_getfh res (1 + 4 * i + 2)))"
    by (rule extracts_accessor [OF accessor_total(7)]) (auto simp: typed_lookup_item_def)
  show "extracts (\<lambda>op _. typed_lookup_item op) 4 (\<lambda>_ res i. map_option Inr (r_getattr res (1 + 4 * i + 3)))"
    by (rule extracts_accessor [OF accessor_total(4)]) (auto simp: typed_lookup_item_def)
qed

lemma lookup_values:
  "extracts_value (\<lambda>op _. lookup_item op) 3 (\<lambda>_ res i. map_option Inr (r_getfh res (1 + 3 * i + 2))) found_fh"
  unfolding found_fh_def [abs_def] by (rule extracts_value_accessor [OF handle_local(1) lookup_extracts(1)]) simp_all

lemma typed_lookup_values:
  "extracts_value (\<lambda>op _. typed_lookup_item op) 4 (\<lambda>_ res i. map_option Inr
     (case r_getfh res (1 + 4 * i + 2) of None \<Rightarrow> None
      | Some fh \<Rightarrow> map_option (\<lambda>t. (fh, type_of_bytes t)) (r_getattr res (1 + 4 * i + 3))))
     (\<lambda>rs. (found_fh rs, found_type rs))"
proof -
  have "extracts_value (\<lambda>op _. typed_lookup_item op) 4 (\<lambda>_ res i. map_option Inr (r_getfh res (1 + 4 * i + 2))) found_fh"
    unfolding found_fh_def [abs_def] by (rule extracts_value_accessor [OF handle_local(1) lookup_extracts(2)]) simp_all
  moreover have "extracts_value (\<lambda>op _. typed_lookup_item op) 4 (\<lambda>_ res i. map_option Inr (r_getattr res (1 + 4 * i + 3)))
      (\<lambda>rs. the (r_getattr (reply_of rs) 3))"
    by (rule extracts_value_accessor [OF handle_local(2) lookup_extracts(3)]) simp_all
  ultimately show ?thesis unfolding found_type_def [abs_def] by (rule extracts_value_pair)
qed

lemma logging_decoded: "decoded_transport tp \<Longrightarrow> decoded_transport (logging tp)"
  by (auto simp: decoded_transport_def logging_def split: prod.splits)

section \<open>Properties\<close>

text \<open>C2 (tolerant lookups).  Against a server whose answers do not change during the call, a
  vectored lookup always ends; if it succeeds, it returns for every name, in the
  caller's order, exactly the server's own answer, a name that cannot be found
  included.  A lack of resources is the result of a name only if the server
  reported it to a request that the call sent for this name alone: a request for
  several names that meets it is split and sent again.  The call fails only when
  the client refuses a request, when a request of this call is lost, or when a
  reply rejects one of its requests before the items, for lack of resources only
  if that request held a single name; never with the status of a single name.\<close>

theorem lookups_faithful:
  assumes "stops_at_failure exec" "item_server obs exec shape tp" "decoded_transport tp" "client_ok cl"
    and "\<And>op. shape (lookup_item op)" "steady exec found_fh answer"
    and "\<And>op. shape (typed_lookup_item op)" "steady exec (\<lambda>rs. (found_fh rs, found_type rs)) typed_answer"
    and "lookup_many (logging tp) ops (cl, (w, [])) = ((cl1, (w1, log1)), r1)"
    and "lookup_getattr_many (logging tp) ops (cl, (w, [])) = ((cl2, (w2, log2)), r2)"
  shows "lookup_result (answered_by tp log1 lookup_item answer ops) (whole_failure tp log1 lookup_item ops)
      (length ops) r1 \<and>
    lookup_result (answered_by tp log2 typed_lookup_item typed_answer ops) (whole_failure tp log2 typed_lookup_item ops)
      (length ops) r2"
proof
  note dec = logging_decoded [OF assms(3)]
  note replies = steady_replies [OF lookup_items(1) lookup_values assms(1,6,2,5,3)]
  from tolerant_lookup_result [OF lookup_items(1) lookup_extracts(1) dec replies assms(4) assms(9) [unfolded lookup_many_def]]
  show "lookup_result (answered_by tp log1 lookup_item answer ops) (whole_failure tp log1 lookup_item ops)
      (length ops) r1" by simp
next
  note dec = logging_decoded [OF assms(3)]
  note replies = steady_replies [OF lookup_items(2) typed_lookup_values assms(1,8,2,7,3)]
  from tolerant_lookup_result [OF lookup_items(2) extracts_pair [OF lookup_extracts(2,3)] dec replies assms(4)
      assms(10) [unfolded lookup_getattr_many_def]]
  show "lookup_result (answered_by tp log2 typed_lookup_item typed_answer ops) (whole_failure tp log2 typed_lookup_item ops)
      (length ops) r2" by simp
qed

definition grant_answer :: "(nfs_resop4 list \<Rightarrow> 'r) \<Rightarrow> nfs_argop4 list \<Rightarrow> nat + 'r" where
  "grant_answer ex it = Inr (ex (snd (grant_item [] it)))"

lemma grant_item_steady: "steady grant_item ex (grant_answer ex)"
  by (auto simp: steady_def grant_item_def grant_answer_def list_all_iff)

theorem lookups_faithful_witness:
  "\<exists>cl1 w1 log1 r1. lookup_many (logging (logging granting_server)) [(''d'', ''a''), (''d'', ''b'')]
      (fresh_client, (((), []), [])) =
      ((cl1, (w1, log1)), r1) \<and>
    lookup_result (answered_by (logging granting_server) log1 lookup_item (grant_answer found_fh) [(''d'', ''a''), (''d'', ''b'')])
      (whole_failure (logging granting_server) log1 lookup_item [(''d'', ''a''), (''d'', ''b'')]) 2 r1"
proof -
  let ?ops = "[(''d'', ''a''), (''d'', ''b'')]"
  obtain cl1 w1 log1 r1 where one: "lookup_many (logging (logging granting_server)) ?ops (fresh_client, (((), []), [])) =
      ((cl1, (w1, log1)), r1)" by (metis prod.exhaust)
  obtain cl2 w2 log2 r2 where two: "lookup_getattr_many (logging (logging granting_server)) ?ops (fresh_client, (((), []), [])) =
      ((cl2, (w2, log2)), r2)" by (metis prod.exhaust)
  have "length ?ops = 2" by simp
  with lookups_faithful [OF grant_item_stops granting_item_server [of "\<lambda>_. True"]
      logging_decoded [OF granting_server_decoded] fresh_client_ok _
      grant_item_steady _ grant_item_steady one two]
  have "lookup_result (answered_by (logging granting_server) log1 lookup_item (grant_answer found_fh) ?ops)
      (whole_failure (logging granting_server) log1 lookup_item ?ops) 2 r1" by metis
  with one show ?thesis by blast
qed

end
