(* ===== verification/Nfs_Vector.thy ===== *)
theory Nfs_Vector
  imports Nfs_Lookup Vfs_Path
begin

text \<open>
  The remaining loops of \<^verbatim>\<open>crates/vfsi-nfs/src/client.rs\<close> over many objects: resolution of a
  path by chained LOOKUPs (\<^verbatim>\<open>resolve\<close>), removal of many names (\<^verbatim>\<open>remove_many\<close>), vectored
  reads (\<^verbatim>\<open>readv\<close>, \<^verbatim>\<open>readv_into\<close>) and directory pages (\<^verbatim>\<open>readdir_children\<close>,
  \<^verbatim>\<open>readdir_pages\<close>).
\<close>

section \<open>Resolving a path\<close>

definition path_components :: "bytes \<Rightarrow> bytes list" where
  "path_components path = filter (\<lambda>component. component \<noteq> []) (split_on slash path)"

definition add_lookups :: "Compound \<Rightarrow> bytes list \<Rightarrow> Compound" where
  "add_lookups c components = foldl c_lookup c components"

definition resolve_capacity :: "NfsClient \<Rightarrow> nat" where
  "resolve_capacity cl = bg_max_ops (op_budget_for cl ''resolve'' 4) - 3"

text \<open>The loop variables \<open>current\<close>, \<open>cursor\<close> and \<open>max_components\<close>.\<close>

definition resolve_send ::
  "'w transport \<Rightarrow> nat \<Rightarrow> nat \<Rightarrow> bytes \<Rightarrow> Compound
     \<Rightarrow> 'w client_state \<Rightarrow> 'w client_state \<times> (bytes \<times> nat \<times> nat, bytes outcome) ctl" where
  "resolve_send tp cursor n current c =
     try_in (call_compound tp c) (\<lambda>res st.
       if 1 < n \<and> resource_status (cr_status res) \<and> resolve_capacity (fst st) < n
       then again (current, cursor, usize_max) st
       else try_in (expect_all_ok res) (\<lambda>_.
            try_in (of_option (r_getfh res (2 + n))) (\<lambda>fh.
            again (fh, cursor + n, usize_max))) st)"

definition resolve_body ::
  "'w transport \<Rightarrow> bytes list \<Rightarrow> bytes \<times> nat \<times> nat
     \<Rightarrow> 'w client_state \<Rightarrow> 'w client_state \<times> (bytes \<times> nat \<times> nat, bytes outcome) ctl" where
  "resolve_body tp components vars st =
     (case vars of (current, cursor, max_components) \<Rightarrow>
        if \<not> cursor < length components then leave_with (ret current) st
        else if resolve_capacity (fst st) = 0
        then leave_with (fail_with (rpc_transport
               ''NFS compound operation budget cannot resolve one path component'')) st
        else
          let n = min (min (resolve_capacity (fst st)) max_components) (length components - cursor);
              c = c_getfh (add_lookups (at_fh ''resolve'' current) (slice components cursor (cursor + n)))
          in try_in (of_option (compound_request_fits tp (fst st) c)) (\<lambda>(c, fits).
               if \<not> fits \<and> 1 < n then again (current, cursor, n div 2)
               else resolve_send tp cursor n current c) st)"

definition client_resolve :: "'w transport \<Rightarrow> bytes \<Rightarrow> ('w client_state, bytes) eff" where
  "client_resolve tp path =
     with_client (\<lambda>cl.
       let components = path_components path
       in if components = [] then ret (nc_root cl)
          else loop_op (resolve_body tp components) (nc_root cl, 0, usize_max))"

section \<open>Removing many names\<close>

definition remove_result_index :: "nat \<Rightarrow> nat \<Rightarrow> nat" where
  "remove_result_index op_index item_count = min (op_index - 2) (item_count - 1)"

definition reindex :: "(nat \<Rightarrow> nat) \<Rightarrow> RpcError \<Rightarrow> RpcError" where
  "reindex f e = rpc_with_op_index e (f (re_op_index e))"

definition remove_send ::
  "'w transport \<Rightarrow> nat \<Rightarrow> nat \<Rightarrow> Compound
     \<Rightarrow> 'w client_state \<Rightarrow> 'w client_state \<times> (nat \<times> nat, unit outcome) ctl" where
  "remove_send tp start n c =
     try_in (map_err (reindex (\<lambda>i. start + remove_result_index i n))
              (call_compound_with_safety tp c NonIdempotentMutation)) (\<lambda>res st.
       if 1 < n \<and> resource_rejected_before_mutation (res_view res) \<and> remove_batch_capacity (fst st) < n
       then again (start, usize_max) st
       else try_in (map_err (reindex (\<lambda>i. start + remove_result_index i n)) (expect_all_ok res)) (\<lambda>_.
            again (start + n, usize_max)) st)"

definition remove_body ::
  "'w transport \<Rightarrow> bytes \<Rightarrow> bytes list \<Rightarrow> nat \<times> nat
     \<Rightarrow> 'w client_state \<Rightarrow> 'w client_state \<times> (nat \<times> nat, unit outcome) ctl" where
  "remove_body tp dir names vars st =
     (case vars of (start, max_items) \<Rightarrow>
        if \<not> start < length names then leave_with (ret ()) st
        else
          let n = min (min (remove_batch_capacity (fst st)) max_items) (length names - start);
              c = foldl c_remove (at_fh ''removev'' dir) (slice names start (start + n))
          in try_in (of_option (compound_request_fits tp (fst st) c)) (\<lambda>(c, fits).
               if \<not> fits \<and> 1 < n then again (start, n div 2)
               else remove_send tp start n c) st)"

definition remove_many :: "'w transport \<Rightarrow> bytes \<Rightarrow> bytes list \<Rightarrow> ('w client_state, unit) eff" where
  "remove_many tp dir names = loop_op (remove_body tp dir names) (0, usize_max)"

section \<open>Vectored reads\<close>

text \<open>How many of the reads from \<open>start\<close> fit the byte budget.\<close>

fun read_run :: "nat \<Rightarrow> nat \<Rightarrow> ReadOp4 list \<Rightarrow> nat" where
  "read_run byte_budget bytes [] = 0"
| "read_run byte_budget bytes (op # ops) =
     (let next_bytes = sat_add (rd_count op) 128
      in if byte_budget < sat_add bytes next_bytes then 0
         else 1 + read_run byte_budget (bytes + next_bytes) ops)"

definition read_extract ::
  "ReadOp4 list \<Rightarrow> nat \<Rightarrow> (nat \<Rightarrow> bytes \<Rightarrow> bool \<Rightarrow> RpcError + 'r) \<Rightarrow> 'r extractor" where
  "read_extract ops start decode local_index res i =
     (let wire_index = start + local_index
      in case r_read res (2 + 2 * i) of
           None \<Rightarrow> None
         | Some (eof, len) \<Rightarrow>
             if \<not> wire_index < length ops then None
             else case validate_read_length len (rd_count (ops ! wire_index)) of
                    Inl e \<Rightarrow> Some (Inl (rpc_with_op_index e local_index))
                  | Inr _ \<Rightarrow>
                      (case r_read_data res (2 + 2 * i) of
                         None \<Rightarrow> None
                       | Some data \<Rightarrow>
                           (case decode wire_index data eof of
                              Inl e \<Rightarrow> Some (Inl (rpc_with_op_index e local_index))
                            | Inr v \<Rightarrow> Some (Inr v))))"

definition read_body ::
  "'w transport \<Rightarrow> nat \<Rightarrow> ReadOp4 list \<Rightarrow> (nat \<Rightarrow> bytes \<Rightarrow> bool \<Rightarrow> RpcError + 'r) \<Rightarrow> nat \<times> 'r list
     \<Rightarrow> 'w client_state \<Rightarrow> 'w client_state \<times> (nat \<times> 'r list, 'r list outcome) ctl" where
  "read_body tp byte_budget ops decode vars =
     (case vars of (start, results) \<Rightarrow>
        if \<not> start < length ops then leave_with (ret results)
        else
          let n = read_run byte_budget 0 (drop start ops)
          in if n = 0 then leave_with (fail_with (rpc_op start NFS4ERR_REP_TOO_BIG))
             else try_in (map_err (reindex (\<lambda>i. start + i))
                    (batch_ops_fallible tp ''readv'' 2 (slice ops start (start + n))
                       (\<lambda>c op _. c_read (c_putfh c (rd_fh op)) (rd_stateid op) (rd_offset op) (rd_count op))
                       (read_extract ops start decode))) (\<lambda>chunk.
                  again (start + n, results @ chunk)))"

definition readv_decode ::
  "'w transport \<Rightarrow> ReadOp4 list \<Rightarrow> (nat \<Rightarrow> bytes \<Rightarrow> bool \<Rightarrow> RpcError + 'r) \<Rightarrow> ('w client_state, 'r list) eff" where
  "readv_decode tp ops decode =
     with_client (\<lambda>cl. loop_op (read_body tp (read_compound_bytes cl - 128) ops decode) (0, []))"

definition readv :: "'w transport \<Rightarrow> ReadOp4 list \<Rightarrow> ('w client_state, (bytes \<times> bool) list) eff" where
  "readv tp ops = readv_decode tp ops (\<lambda>_ data eof. Inr (data, eof))"

text \<open>\<open>on_data\<close> stands for the callback that stores the data: whether it accepts them.\<close>

definition readv_into ::
  "'w transport \<Rightarrow> ReadOp4 list \<Rightarrow> (nat \<Rightarrow> bytes \<Rightarrow> RpcError + unit) \<Rightarrow> ('w client_state, (nat \<times> bool) list) eff" where
  "readv_into tp ops on_data =
     readv_decode tp ops (\<lambda>index data eof.
       case on_data index data of Inl e \<Rightarrow> Inl e | Inr _ \<Rightarrow> Inr (length data, eof))"

section \<open>Directory pages\<close>

record ChildListing =
  cl_fh :: bytes
  cl_entries :: "DirEntry4 list"
  cl_cookie :: nat

text \<open>The two paged reads differ in the operations of an item and in what a page holds.
  The error index is relative to the chunk.\<close>

fun collect_pages ::
  "(CompoundRes \<Rightarrow> nat \<Rightarrow> 'r decoding) \<Rightarrow> CompoundRes \<Rightarrow> nat list \<Rightarrow> 'r list \<Rightarrow> 'r list decoding" where
  "collect_pages page res [] out = Some (Inr out)"
| "collect_pages page res (i # is) out =
     (case page res i of
        None \<Rightarrow> None
      | Some (Inl e) \<Rightarrow> Some (Inl e)
      | Some (Inr p) \<Rightarrow> collect_pages page res is (out @ [p]))"

definition page_error_index :: "nat \<Rightarrow> nat \<Rightarrow> nat \<Rightarrow> nat" where
  "page_error_index per_op n op_index = min (n - 1) ((op_index - 1) div per_op)"

definition pages_body ::
  "'w transport \<Rightarrow> bytes \<Rightarrow> nat \<Rightarrow> 't list \<Rightarrow> (nat \<Rightarrow> nat \<Rightarrow> 't adder) \<Rightarrow> nat \<Rightarrow> (CompoundRes \<Rightarrow> nat \<Rightarrow> 'r decoding)
     \<Rightarrow> 'r list \<Rightarrow> 'w client_state \<Rightarrow> 'w client_state \<times> ('r list, 'r list outcome) ctl" where
  "pages_body tp tag per_op ops add max_page_bytes page out st =
     (if \<not> length out < length ops then leave_with (ret out) st
      else
        try_in (of_sum (batch_capacity (op_budget_for (fst st) tag (1 + per_op)) per_op)) (\<lambda>per_chunk.
          let chunk = slice ops (length out) (min (length out + per_chunk) (length ops));
              n = length chunk;
              (dircount, maxcount) = page_counts (fst st) n max_page_bytes;
              c = add_chunk (add dircount maxcount) (tagged tag) chunk (length out)
          in try_in (map_err (reindex (page_error_index per_op n)) (call_compound tp c)) (\<lambda>res.
               let settle = try_in (map_err (reindex (page_error_index per_op n)) (expect_all_ok res)) (\<lambda>_.
                     try_in (of_decoding (collect_pages page res [0..<n] out)) again)
               in if 1 < n \<and> resource_status (cr_status res)
                  then (\<lambda>st. try_in (of_sum (batch_capacity (op_budget_for (fst st) tag (1 + per_op)) per_op))
                         (\<lambda>smaller. if smaller < n then again out else settle) st)
                  else settle)) st)"

definition paged_read ::
  "'w transport \<Rightarrow> bytes \<Rightarrow> nat \<Rightarrow> 't list \<Rightarrow> (nat \<Rightarrow> nat \<Rightarrow> 't adder) \<Rightarrow> nat \<Rightarrow> (CompoundRes \<Rightarrow> nat \<Rightarrow> 'r decoding)
     \<Rightarrow> ('w client_state, 'r list) eff" where
  "paged_read tp tag per_op ops add max_page_bytes page =
     (if ops = [] then ret [] else loop_op (pages_body tp tag per_op ops add max_page_bytes page) [])"

definition child_page :: "CompoundRes \<Rightarrow> nat \<Rightarrow> ChildListing decoding" where
  "child_page res i =
     (case r_getfh res (3 + 4 * i) of
        None \<Rightarrow> None
      | Some fh \<Rightarrow>
          (case r_readdir res (4 + 4 * i) of
             None \<Rightarrow> None
           | Some ok \<Rightarrow> map_option (map_sum id (\<lambda>(entries, cookie).
                  \<lparr> cl_fh = fh, cl_entries = entries, cl_cookie = cookie \<rparr>)) (collect_readdir ok)))"

definition readdir_children_bounded ::
  "'w transport \<Rightarrow> (bytes \<times> bytes) list \<Rightarrow> nat list \<Rightarrow> nat \<Rightarrow> ('w client_state, ChildListing list) eff" where
  "readdir_children_bounded tp ops attrs max_page_bytes =
     paged_read tp ''readdir_children'' 4 ops
       (\<lambda>dircount maxcount c (pfh, name) _.
          c_readdir (c_getfh (c_lookup (c_putfh c pfh) name)) 0 zero_verf dircount maxcount attrs)
       max_page_bytes child_page"

definition readdir_children ::
  "'w transport \<Rightarrow> (bytes \<times> bytes) list \<Rightarrow> nat list \<Rightarrow> ('w client_state, ChildListing list) eff" where
  "readdir_children tp ops attrs = readdir_children_bounded tp ops attrs usize_max"

definition readdir_pages_bounded ::
  "'w transport \<Rightarrow> (bytes \<times> nat) list \<Rightarrow> nat list \<Rightarrow> nat \<Rightarrow> ('w client_state, (DirEntry4 list \<times> nat) list) eff" where
  "readdir_pages_bounded tp ops attrs max_page_bytes =
     paged_read tp ''readdir_pages'' 2 ops
       (\<lambda>dircount maxcount c (fh, cookie) _. c_readdir (c_putfh c fh) cookie zero_verf dircount maxcount attrs)
       max_page_bytes
       (\<lambda>res i. case r_readdir res (2 + 2 * i) of None \<Rightarrow> None | Some ok \<Rightarrow> collect_readdir ok)"

definition readdir_pages ::
  "'w transport \<Rightarrow> (bytes \<times> nat) list \<Rightarrow> nat list \<Rightarrow> ('w client_state, (DirEntry4 list \<times> nat) list) eff" where
  "readdir_pages tp ops attrs = readdir_pages_bounded tp ops attrs usize_max"

section \<open>Resolution of paths\<close>

lemma add_lookups_ops:
  "cp_ops (add_lookups c cs) = cp_ops c @ map A_Lookup cs \<and> cp_tag (add_lookups c cs) = cp_tag c \<and>
   (cp_size_check c = None \<longrightarrow> cp_size_check (add_lookups c cs) = None)"
  unfolding add_lookups_def
  by (induction cs arbitrary: c) (auto simp: c_lookup_def push_def keep_def)

definition resolve_request :: "bytes \<Rightarrow> bytes list \<Rightarrow> Compound" where
  "resolve_request current cs = c_getfh (add_lookups (at_fh ''resolve'' current) cs)"

lemma resolve_request_ops:
  "cp_ops (resolve_request current cs) = A_PutFh current # map A_Lookup cs @ [A_GetFh]"
  "cp_tag (resolve_request current cs) = ''resolve''" "cp_size_check (resolve_request current cs) = None"
  using add_lookups_ops [of "at_fh ''resolve'' current" cs]
  by (auto simp: resolve_request_def c_getfh_def push_def at_fh_def c_putfh_def keep_def)

text \<open>An accepted reply to such a request has the handle at the end.\<close>

lemma resolve_reply_getfh:
  assumes "accepts (sq # A_PutFh current # map A_Lookup cs @ [A_GetFh]) res" "decoded res" "cr_status res = NFS_OK"
  shows "\<exists>fh. r_getfh res (2 + length cs) = Some fh"
proof -
  let ?req = "sq # A_PutFh current # map A_Lookup cs @ [A_GetFh]"
  have nops: "res_nops res = 3 + length cs" using assms(1,3) by (simp add: accepts_iff res_nops_def)
  then have "op_status res (2 + length cs) = Some NFS_OK"
    using op_status_accepts [OF assms(1), of "2 + length cs"] accepts_status [OF assms(1), of "2 + length cs"] assms(3)
    by simp
  moreover have "argop (?req ! (2 + length cs)) = NFS4_OP_GETFH" by (simp add: nth_append)
  ultimately show ?thesis using accessor_total(7) [OF assms(1,2)] by fastforce
qed

definition walks :: "'w transport \<Rightarrow> (bytes \<Rightarrow> bytes \<Rightarrow> bytes) \<Rightarrow> bool" where
  "walks tp child \<longleftrightarrow>
     (\<forall>rq sq fh cs w w' res. cp_ops rq = sq # A_PutFh fh # map A_Lookup cs @ [A_GetFh] \<and>
        compound_call tp rq w = (w', Inr res) \<and> cr_status res = NFS_OK \<longrightarrow>
        r_getfh res (2 + length cs) = Some (foldl child fh cs))"

definition resolve_progress ::
  "(bytes \<Rightarrow> bool) \<Rightarrow> (bytes \<Rightarrow> nat \<Rightarrow> bool) \<Rightarrow> bytes list \<Rightarrow> NfsClient \<Rightarrow> nat \<Rightarrow> nat
     \<Rightarrow> 'w client_state \<times> (bytes \<times> nat \<times> nat, bytes outcome) ctl \<Rightarrow> bool" where
  "resolve_progress final at components cl cursor m step \<longleftrightarrow>
     (case step of
        ((cl', w'), Again (fh', cursor', m')) \<Rightarrow>
          client_ok cl' \<and> 0 < m' \<and> at fh' cursor' \<and> cursor < length components \<and> cursor \<le> cursor' \<and>
          (cursor = cursor' \<longrightarrow> resolve_capacity cl' < resolve_capacity cl \<or> cl' = cl \<and> m' < m)
      | (st', Leave_Loop r) \<Rightarrow> r \<noteq> Stuck \<and> (\<forall>fh. r = Done fh \<longrightarrow> final fh))"

lemma resolve_send_step:
  assumes dec: "decoded_transport tp" and ok: "client_ok cl"
    and n: "0 < n" "cursor + n \<le> length components" "n \<le> resolve_capacity cl"
    and at: "at current cursor"
    and next_at: "\<And>rq w w' res fh. cp_ops rq = session_sequence (nc_session cl) # A_PutFh current #
        map A_Lookup (slice components cursor (cursor + n)) @ [A_GetFh] \<Longrightarrow>
      compound_call tp rq w = (w', Inr res) \<Longrightarrow> cr_status res = NFS_OK \<Longrightarrow> r_getfh res (2 + n) = Some fh \<Longrightarrow>
      at fh (cursor + n)"
    and c: "cp_ops c = A_PutFh current # map A_Lookup (slice components cursor (cursor + n)) @ [A_GetFh]"
  shows "resolve_progress final at components cl cursor m (resolve_send tp cursor n current c (cl, w))"
  using ok
proof (cases rule: request_cases [where ?tp = tp and ?c = c and ?w = w])
  case (refused e)
  then show ?thesis by (simp add: resolve_send_def resolve_progress_def try_in_def)
next
  case (failed w' rq e)
  then show ?thesis by (simp add: resolve_send_def resolve_progress_def try_in_def)
next
  case (answered w' rq res s')
  let ?cl = "observe_reply (cp_tag c) (1 + length (cp_ops c)) res (cl \<lparr> nc_session := s' \<rparr>)"
  have ok': "client_ok ?cl" using observed_client [OF ok refl] by blast
  have rq: "cp_ops rq = session_sequence (nc_session cl) # A_PutFh current #
      map A_Lookup (slice components cursor (cursor + n)) @ [A_GetFh]" using answered(2) c by simp
  have len: "length (slice components cursor (cursor + n)) = n" using n(2) by (simp add: slice_def)
  obtain fh where fh: "cr_status res = NFS_OK \<Longrightarrow> r_getfh res (2 + n) = Some fh"
    using resolve_reply_getfh [OF answered(5) [unfolded rq] reply_decoded [OF dec answered(4)]] len by fastforce
  have next': "cr_status res = NFS_OK \<Longrightarrow> at fh (cursor + n)" by (rule next_at [OF rq answered(4) _ fh])
  have "resource_status (cr_status res) \<Longrightarrow> cr_status res \<noteq> NFS_OK"
    by (auto simp: resource_status_def planner_status)
  with at ok' n fh next' answered(1) show ?thesis
    by (auto simp: resolve_send_def resolve_progress_def try_in_def again_def of_option_def u64_max_def
        expect_all_ok_accepts [OF answered(5)] split: if_splits prod.splits ctl.splits)
qed

text \<open>A property of the handles along the path that every answered request carries on.\<close>

definition carried :: "'w transport \<Rightarrow> bytes list \<Rightarrow> (bytes \<Rightarrow> nat \<Rightarrow> bool) \<Rightarrow> bool" where
  "carried tp components at \<longleftrightarrow>
     (\<forall>rq sq current cursor n w w' res fh. at current cursor \<and> cursor + n \<le> length components \<and>
        cp_ops rq = sq # A_PutFh current # map A_Lookup (slice components cursor (cursor + n)) @ [A_GetFh] \<and>
        compound_call tp rq w = (w', Inr res) \<and> cr_status res = NFS_OK \<and> r_getfh res (2 + n) = Some fh \<longrightarrow>
        at fh (cursor + n))"

lemma resolve_body_step:
  assumes dec: "decoded_transport tp" and ok: "client_ok cl" "0 < m"
    and at: "at current cursor" "cursor \<le> length components" and carried: "carried tp components at"
  shows "resolve_progress (\<lambda>fh. at fh (length components)) (\<lambda>fh c. at fh c \<and> c \<le> length components) components cl cursor m
    (resolve_body tp components (current, cursor, m) (cl, w))"
proof (cases "cursor < length components \<and> resolve_capacity cl \<noteq> 0")
  case True
  let ?n = "min (min (resolve_capacity cl) m) (length components - cursor)"
  let ?c = "resolve_request current (slice components cursor (cursor + ?n))"
  have n: "0 < ?n" "cursor + ?n \<le> length components" "?n \<le> resolve_capacity cl" "?n div 2 < m"
    using True ok(2) by auto
  obtain c1 fits where fits: "compound_request_fits tp cl ?c = Some (c1, fits)" "cp_ops c1 = cp_ops ?c"
    using compound_request_fits_total [of tp cl ?c] by blast
  have body: "resolve_body tp components (current, cursor, m) (cl, w) =
      (if \<not> fits \<and> 1 < ?n then again (current, cursor, ?n div 2) (cl, w) else resolve_send tp cursor ?n current c1 (cl, w))"
    using True fits(1) by (simp add: resolve_body_def Let_def resolve_request_def try_in_def of_option_def)
  have send: "resolve_progress (\<lambda>fh. at fh (length components)) (\<lambda>fh c. at fh c \<and> c \<le> length components) components cl
      cursor m (resolve_send tp cursor ?n current c1 (cl, w))"
  proof (rule resolve_send_step [OF dec ok(1) n(1-3)])
    show "at current cursor \<and> cursor \<le> length components" using at by blast
    show "cp_ops c1 = A_PutFh current # map A_Lookup (slice components cursor (cursor + ?n)) @ [A_GetFh]"
      using fits(2) by (simp add: resolve_request_ops)
  next
    fix rq w w' res fh
    assume "cp_ops rq = session_sequence (nc_session cl) # A_PutFh current #
        map A_Lookup (slice components cursor (cursor + ?n)) @ [A_GetFh]"
      "compound_call tp rq w = (w', Inr res)" "cr_status res = NFS_OK" "r_getfh res (2 + ?n) = Some fh"
    then show "at fh (cursor + ?n) \<and> cursor + ?n \<le> length components"
      using carried at(1) n(2) unfolding carried_def by blast
  qed
  have "resolve_progress (\<lambda>fh. at fh (length components)) (\<lambda>fh c. at fh c \<and> c \<le> length components) components cl cursor m
      (again (current, cursor, ?n div 2) (cl, w))" if "1 < ?n"
    using at ok n(4) True that by (simp add: resolve_progress_def again_def)
  with send show ?thesis unfolding body by simp
next
  case False
  with at show ?thesis
    by (auto simp: resolve_body_def resolve_progress_def leave_with_def ret_def fail_with_def Let_def)
qed

lemma resolve_result:
  assumes dec: "decoded_transport tp" and ok: "client_ok cl"
    and at: "at (nc_root cl) 0" "carried tp (path_components path) at"
  shows "snd (client_resolve tp path (cl, w)) \<noteq> Stuck \<and>
    (\<forall>fh. snd (client_resolve tp path (cl, w)) = Done fh \<longrightarrow> at fh (length (path_components path)))"
proof (cases "path_components path = []")
  case False
  let ?cs = "path_components path"
  let ?body = "resolve_body tp ?cs"
  let ?I = "\<lambda>(current, cursor, m) (cl, w). client_ok cl \<and> 0 < m \<and> at current cursor \<and> cursor \<le> length ?cs"
  let ?R = "inv_image (less_than <*lex*> less_than <*lex*> less_than)
      (\<lambda>((current, cursor, m), (cl, w)). (length ?cs - cursor, resolve_capacity cl, m))"
  let ?Q = "\<lambda>r. r \<noteq> Stuck \<and> (\<forall>fh. r = Done fh \<longrightarrow> at fh (length ?cs))"
  let ?start = "(nc_root cl, 0, usize_max)"
  have start: "?I ?start (cl, w)" using ok at(1) by (simp add: u64_max_def)
  note step = resolve_body_step [OF dec _ _ _ _ at(2)]
  have more: "?I l' s' \<and> ((l', s'), (l, s)) \<in> ?R" if "?I l s" "?body l s = (s', Again l')" for l s l' s'
    using that step [of "fst s" "snd (snd l)" "fst l" "fst (snd l)" "snd s"]
    by (cases l; cases s; cases l'; cases s') (auto simp: resolve_progress_def)
  have leave: "?Q r" if "?I l s" "?body l s = (s', Leave_Loop r)" for l s s' r
    using that step [of "fst s" "snd (snd l)" "fst l" "fst (snd l)" "snd s"]
    by (cases l; cases s) (auto simp: resolve_progress_def)
  have "?Q (snd (loop_op ?body ?start (cl, w)))"
    by (rule loop_op_rule [where I = ?I and R = ?R and Q = "\<lambda>_ r. ?Q r", OF start more leave]) auto
  then show ?thesis using False by (simp add: client_resolve_def with_client_def with_state_def Let_def)
qed (use at in \<open>simp add: client_resolve_def with_client_def with_state_def ret_def\<close>)

section \<open>Removals\<close>
definition remove_item :: "bytes \<Rightarrow> nfs_argop4 list" where
  "remove_item name = [A_Remove name]"

text \<open>A transport to a server that removes the names of a request one after the other.\<close>

definition remove_server :: "('w \<Rightarrow> 'st) \<Rightarrow> 'st item_exec \<Rightarrow> bytes \<Rightarrow> 'w transport \<Rightarrow> bool" where
  "remove_server obs exec dir tp \<longleftrightarrow>
     (\<forall>c w sq names w' r.
        cp_ops c = sq # A_PutFh dir # map A_Remove names \<and> tp_rpc tp c w = (w', r) \<longrightarrow>
        (case r of
           Inl e \<Rightarrow> rpc_is_transport e
         | Inr res \<Rightarrow>
             (obs w' = obs w \<and> cr_status res \<noteq> NFS_OK \<and> res_nops res \<le> 2) \<or>
             (case run_items exec (obs w) (map remove_item names) of
                (st, rss) \<Rightarrow> obs w' = st \<and> cr_len res = 2 + length (concat rss) \<and>
                  (\<exists>sr pr. cr_ops res = Some (sr # pr # concat rss)))))"

lemma removed_reply:
  assumes exec: "stops_at_failure exec" and names: "names \<noteq> []"
    and run: "run_items exec st (map remove_item names) = (st', rss)"
    and res: "cr_len res = 2 + length (concat rss)" "cr_ops res = Some (sr # pr # concat rss)" "accepts req res"
  shows "(cr_status res = NFS_OK \<and> complete_run 1 (length names) rss) \<or>
    (cr_status res \<noteq> NFS_OK \<and> 3 \<le> res_nops res \<and>
     failed_run exec 1 st (map remove_item names) st' rss (res_nops res - 3) \<and>
     response_op_status (last (last rss)) = cr_status res)"
proof -
  have last: "response_op_status (last (sr # pr # concat rss)) = cr_status res"
  proof -
    have "last (sr # pr # concat rss) = (sr # pr # concat rss) ! (cr_len res - 1)"
      unfolding res(1) by (subst last_conv_nth) simp_all
    then show ?thesis
      using accepts_status [OF res(3), of "cr_len res - 1"] res(1,2) by (simp add: res_nops_def nth_op_def)
  qed
  have "list_all (\<lambda>it. length it = 1) (map remove_item names)" by (simp add: list_all_iff remove_item_def)
  from run_items_cases [OF exec this zero_less_one run] show ?thesis
  proof (elim disjE exE)
    assume c: "complete_run 1 (length (map remove_item names)) rss"
    then have "length (concat rss) = length names" using length_concat_same [of 1 rss] by (simp add: complete_run_def)
    then have ne: "concat rss \<noteq> []" using names by (metis length_0_conv)
    then have "result_ok (last (concat rss))"
      using c last_in_set [OF ne] by (auto simp: complete_run_def list_all_iff)
    then show ?thesis using c last last_ConsR [OF ne] by (simp add: result_ok_def)
  next
    fix k assume f: "failed_run exec 1 st (map remove_item names) st' rss k"
    then obtain good bad where g: "rss = good @ [bad]" "complete_run 1 k good" "\<not> result_ok (last bad)"
      "0 < length bad" "length bad \<le> 1"
      unfolding failed_run_def by blast
    then have "length bad = 1" by linarith
    with g(1,2) have "res_nops res = 3 + k"
      using res(1) length_concat_same [of 1 good] by (simp add: res_nops_def complete_run_def)
    moreover have "response_op_status (last bad) = cr_status res" using last g(1,4) by auto
    moreover from this g(3) have "cr_status res \<noteq> NFS_OK" by (simp add: result_ok_def)
    ultimately show ?thesis using f g(1) by simp
  qed
qed

definition remove_progress ::
  "(nat \<Rightarrow> NfsClient \<Rightarrow> 'w \<Rightarrow> bool) \<Rightarrow> ('w client_state \<Rightarrow> unit outcome \<Rightarrow> bool) \<Rightarrow> nat \<Rightarrow> NfsClient \<Rightarrow> nat \<Rightarrow> nat
     \<Rightarrow> 'w client_state \<times> (nat \<times> nat, unit outcome) ctl \<Rightarrow> bool" where
  "remove_progress held post len cl start m step \<longleftrightarrow>
     (case step of
        ((cl', w'), Again (start', m')) \<Rightarrow>
          client_ok cl' \<and> 0 < m' \<and> held start' cl' w' \<and> start < len \<and> start \<le> start' \<and>
          (start = start' \<longrightarrow> remove_batch_capacity cl' < remove_batch_capacity cl \<or> cl' = cl \<and> m' < m)
      | (st', Leave_Loop r) \<Rightarrow> post st' r)"

text \<open>The outcome of a removal in terms of \<^const>\<open>sequential_outcome\<close>.\<close>

definition removal_outcome :: "'st item_exec \<Rightarrow> bytes list \<Rightarrow> 'st \<Rightarrow> 'st \<Rightarrow> unit outcome \<Rightarrow> bool" where
  "removal_outcome exec names st st' r \<longleftrightarrow>
     (\<exists>rs. sequential_outcome exec (\<lambda>_. ()) (map remove_item names) st st' rs \<and> r = map_outcome (\<lambda>_. ()) rs)"

lemma remove_request:
  "cp_ops (foldl c_remove (at_fh tag dir) names) = A_PutFh dir # map A_Remove names"
  "cp_tag (foldl c_remove (at_fh tag dir) names) = tag"
  "cp_size_check (foldl c_remove (at_fh tag dir) names) = None"
proof -
  have "cp_ops (foldl c_remove c names) = cp_ops c @ map A_Remove names \<and> cp_tag (foldl c_remove c names) = cp_tag c \<and>
    (cp_size_check c = None \<longrightarrow> cp_size_check (foldl c_remove c names) = None)" for c
    by (induction names arbitrary: c) (auto simp: c_remove_def push_def keep_def)
  from this [of "at_fh tag dir"] show "cp_ops (foldl c_remove (at_fh tag dir) names) = A_PutFh dir # map A_Remove names"
    "cp_tag (foldl c_remove (at_fh tag dir) names) = tag" "cp_size_check (foldl c_remove (at_fh tag dir) names) = None"
    by (auto simp: at_fh_def c_putfh_def push_def keep_def)
qed

lemma reindex_simps [simp]:
  "rpc_is_transport (reindex f e) = rpc_is_transport e" "re_op_index (reindex f e) = f (re_op_index e)"
  "re_status (reindex f e) = re_status e"
  by (simp_all add: reindex_def rpc_with_op_index_def rpc_is_transport_def)

lemma removal_FailI:
  "sequential_outcome exec (\<lambda>_. ()) (map remove_item names) st st' (Fail e) \<Longrightarrow> removal_outcome exec names st st' (Fail e)"
  unfolding removal_outcome_def by (rule exI [of _ "Fail e"]) simp

text \<open>What the server did with a request to remove names.\<close>

lemma remove_effect:
  assumes server: "remove_server obs exec dir tp" and rq: "cp_ops rq = sq # A_PutFh dir # map A_Remove names"
  shows "compound_call tp rq w = (w', Inl e) \<Longrightarrow> rpc_is_transport e"
    and "compound_call tp rq w = (w', Inr res) \<Longrightarrow>
      (obs w' = obs w \<and> cr_status res \<noteq> NFS_OK \<and> res_nops res \<le> 2) \<or>
      (\<exists>rss sr pr. run_items exec (obs w) (map remove_item names) = (obs w', rss) \<and>
         cr_len res = 2 + length (concat rss) \<and> cr_ops res = Some (sr # pr # concat rss))"
proof -
  obtain w1 r where rpc: "tp_rpc tp rq w = (w1, r)" by fastforce
  have srv: "case r of
       Inl e \<Rightarrow> rpc_is_transport e
     | Inr res \<Rightarrow>
         (obs w1 = obs w \<and> cr_status res \<noteq> NFS_OK \<and> res_nops res \<le> 2) \<or>
         (case run_items exec (obs w) (map remove_item names) of
            (st, rss) \<Rightarrow> obs w1 = st \<and> cr_len res = 2 + length (concat rss) \<and>
              (\<exists>sr pr. cr_ops res = Some (sr # pr # concat rss)))"
    using server rq rpc unfolding remove_server_def by blast
  show "compound_call tp rq w = (w', Inl e) \<Longrightarrow> rpc_is_transport e"
    using srv rpc malformed_transport by (auto simp: compound_call_def split: sum.splits)
  show "compound_call tp rq w = (w', Inr res) \<Longrightarrow>
      (obs w' = obs w \<and> cr_status res \<noteq> NFS_OK \<and> res_nops res \<le> 2) \<or>
      (\<exists>rss sr pr. run_items exec (obs w) (map remove_item names) = (obs w', rss) \<and>
         cr_len res = 2 + length (concat rss) \<and> cr_ops res = Some (sr # pr # concat rss))"
    using srv rpc by (auto simp: compound_call_def split: sum.splits prod.splits)
qed

lemma ran_weaken: "ran exec ex per_op its st0 g out cl st \<Longrightarrow> 1 + per_op \<le> nc_max_ops cl' \<Longrightarrow> ran exec ex per_op its st0 g out cl' st"
  by (auto simp: ran_def)

text \<open>An answered request moves on, is sent again after a rejection that changed nothing, or
  fails at the first name that was not removed.\<close>

lemma remove_reply_step:
  assumes exec: "stops_at_failure exec"
    and n: "0 < n" "start + n \<le> length names" "n \<le> remove_batch_capacity cl"
    and ran: "ran exec (\<lambda>_. ()) 1 (map remove_item names) st0 start (replicate start ()) cl st"
    and ok': "client_ok cl'" "2 \<le> nc_max_ops cl'"
    and acc: "accepts req res"
    and eff: "(obs w' = st \<and> cr_status res \<noteq> NFS_OK \<and> res_nops res \<le> 2) \<or>
      (\<exists>rss sr pr. run_items exec st (map remove_item (slice names start (start + n))) = (obs w', rss) \<and>
         cr_len res = 2 + length (concat rss) \<and> cr_ops res = Some (sr # pr # concat rss))"
  shows "remove_progress
      (\<lambda>start cl w. ran exec (\<lambda>_. ()) 1 (map remove_item names) st0 start (replicate start ()) cl (obs w))
      (\<lambda>st'. removal_outcome exec names st0 (obs (snd st'))) (length names) cl start m
      (if 1 < n \<and> resource_rejected_before_mutation (res_view res) \<and> remove_batch_capacity cl' < n
       then again (start, usize_max) (cl', w')
       else try_in (map_err (reindex (\<lambda>i. start + remove_result_index i n)) (expect_all_ok res)) (\<lambda>_.
            again (start + n, usize_max)) (cl', w'))"
proof -
  let ?its = "map remove_item names"
  have chunk: "map remove_item (slice names start (start + n)) = take n (drop start ?its)"
    by (simp add: slice_def take_map drop_map)
  have some: "slice names start (start + n) \<noteq> []" "length (slice names start (start + n)) = n"
    using n(1,2) by (auto simp: slice_def)
  note expect = expect_all_ok_accepts [OF acc]
  from eff show ?thesis
  proof (elim disjE exE conjE)
    assume early: "obs w' = st" "cr_status res \<noteq> NFS_OK" "res_nops res \<le> 2"
    have "re_op_index (reindex (\<lambda>i. start + remove_result_index i n) (rpc_op (res_nops res - 1) (cr_status res))) = start"
      using early(3) by (simp add: rpc_op_def remove_result_index_def)
    then have "removal_outcome exec names st0 (obs w')
        (Fail (reindex (\<lambda>i. start + remove_result_index i n) (rpc_op (res_nops res - 1) (cr_status res))))"
      unfolding early(1) using n(1,2) by (intro removal_FailI ran_stop [OF ran]) auto
    then show ?thesis using early ok' ran_weaken [OF ran, of cl'] n
      by (auto simp: remove_progress_def again_def try_in_def map_err_def expect u64_max_def)
  next
    fix rss sr pr
    assume run: "run_items exec st (map remove_item (slice names start (start + n))) = (obs w', rss)"
      and res: "cr_len res = 2 + length (concat rss)" "cr_ops res = Some (sr # pr # concat rss)"
    from removed_reply [OF exec some(1) run res acc] show ?thesis
    proof (elim disjE conjE)
      assume all: "cr_status res = NFS_OK" "complete_run 1 (length (slice names start (start + n))) rss"
      have "ran exec (\<lambda>_. ()) 1 ?its st0 (start + n) (replicate start () @ map (\<lambda>_. ()) rss) cl' (obs w')"
        using run all(2) n(2) ok'(2) unfolding chunk some(2) by (intro ran_extend [OF ran]) auto
      moreover have "replicate start () @ map (\<lambda>_. ()) rss = replicate (start + n) ()"
        using all(2) some(2) by (simp add: complete_run_def replicate_add map_replicate_const)
      moreover have "\<not> resource_rejected_before_mutation (res_view res)"
        using rejected_out_of_resources [of res] out_of_resources_status [of res] all(1) by blast
      ultimately show ?thesis using all(1) ok' n(1,2)
        by (simp add: remove_progress_def again_def try_in_def map_err_def expect u64_max_def)
    next
      assume f: "cr_status res \<noteq> NFS_OK" "3 \<le> res_nops res"
        "failed_run exec 1 st (map remove_item (slice names start (start + n))) (obs w') rss (res_nops res - 3)"
        "response_op_status (last (last rss)) = cr_status res"
      let ?e = "reindex (\<lambda>i. start + remove_result_index i n) (rpc_op (res_nops res - 1) (cr_status res))"
      have "res_nops res - 3 < n" using f(3) some(2) by (simp add: failed_run_def)
      then have "re_op_index ?e = start + (res_nops res - 3)" by (simp add: rpc_op_def remove_result_index_def)
      moreover have "re_status ?e = response_op_status (last (last rss))" using f(4) by (simp add: rpc_op_def)
      ultimately have "removal_outcome exec names st0 (obs w') (Fail ?e)"
        using n(2) f(3) unfolding chunk by (intro removal_FailI failed_run_Fail [OF ran, of n]) auto
      moreover have "\<not> resource_rejected_before_mutation (res_view res)"
        using rejected_nops [of res] f(2) by linarith
      ultimately show ?thesis using f(1) by (simp add: remove_progress_def try_in_def map_err_def expect)
    qed
  qed
qed

text \<open>The loop for any property of its states that answered requests keep.\<close>

definition remove_contract ::
  "'w transport \<Rightarrow> bytes \<Rightarrow> bytes list \<Rightarrow> (nat \<Rightarrow> NfsClient \<Rightarrow> 'w \<Rightarrow> bool) \<Rightarrow> ('w client_state \<Rightarrow> unit outcome \<Rightarrow> bool) \<Rightarrow> bool" where
  "remove_contract tp dir names held post \<longleftrightarrow>
     (\<forall>cl w. held (length names) cl w \<longrightarrow> post (cl, w) (Done ())) \<and>
     (\<forall>start cl w e. start < length names \<and> held start cl w \<and> (rpc_is_transport e \<or> re_op_index e = start) \<longrightarrow>
        post (cl, w) (Fail e)) \<and>
     (\<forall>rq sq names' w w' e cl' f. cp_ops rq = sq # A_PutFh dir # map A_Remove names' \<and>
        compound_call tp rq w = (w', Inl e) \<longrightarrow> post (cl', w') (Fail (reindex f (ambiguous_message NonIdempotentMutation e)))) \<and>
     (\<forall>rq sq start n m cl cl' w w' res. 0 < n \<and> start + n \<le> length names \<and> n \<le> remove_batch_capacity cl \<and>
        held start cl w \<and> client_ok cl' \<and> 2 \<le> nc_max_ops cl' \<and>
        cp_ops rq = sq # A_PutFh dir # map A_Remove (slice names start (start + n)) \<and>
        compound_call tp rq w = (w', Inr res) \<and> accepts (cp_ops rq) res \<longrightarrow>
        remove_progress held post (length names) cl start m
          (if 1 < n \<and> resource_rejected_before_mutation (res_view res) \<and> remove_batch_capacity cl' < n
           then again (start, usize_max) (cl', w')
           else try_in (map_err (reindex (\<lambda>i. start + remove_result_index i n)) (expect_all_ok res)) (\<lambda>_.
                again (start + n, usize_max)) (cl', w')))"

lemma remove_contractD:
  assumes "remove_contract tp dir names held post"
  shows "held (length names) cl w \<Longrightarrow> post (cl, w) (Done ())"
    and "start < length names \<Longrightarrow> held start cl w \<Longrightarrow> rpc_is_transport e \<or> re_op_index e = start \<Longrightarrow> post (cl, w) (Fail e)"
    and "cp_ops rq = sq # A_PutFh dir # map A_Remove names' \<Longrightarrow> compound_call tp rq w = (w', Inl e) \<Longrightarrow>
      post (cl', w') (Fail (reindex f (ambiguous_message NonIdempotentMutation e)))"
proof -
  note parts = assms [unfolded remove_contract_def]
  show "held (length names) cl w \<Longrightarrow> post (cl, w) (Done ())"
    using parts [THEN conjunct1] by blast
  show "start < length names \<Longrightarrow> held start cl w \<Longrightarrow> rpc_is_transport e \<or> re_op_index e = start \<Longrightarrow> post (cl, w) (Fail e)"
    using parts [THEN conjunct2, THEN conjunct1] by blast
  show "cp_ops rq = sq # A_PutFh dir # map A_Remove names' \<Longrightarrow> compound_call tp rq w = (w', Inl e) \<Longrightarrow>
      post (cl', w') (Fail (reindex f (ambiguous_message NonIdempotentMutation e)))"
    using parts [THEN conjunct2, THEN conjunct2, THEN conjunct1] by blast
qed

lemma remove_contract_answered:
  assumes con: "remove_contract tp dir names held post"
    and a: "0 < n" "start + n \<le> length names" "n \<le> remove_batch_capacity cl" "held start cl w" "client_ok cl'"
      "2 \<le> nc_max_ops cl'" "cp_ops rq = sq # A_PutFh dir # map A_Remove (slice names start (start + n))"
      "compound_call tp rq w = (w', Inr res)" "accepts (cp_ops rq) res"
  shows "remove_progress held post (length names) cl start m
          (if 1 < n \<and> resource_rejected_before_mutation (res_view res) \<and> remove_batch_capacity cl' < n
           then again (start, usize_max) (cl', w')
           else try_in (map_err (reindex (\<lambda>i. start + remove_result_index i n)) (expect_all_ok res)) (\<lambda>_.
                again (start + n, usize_max)) (cl', w'))"
proof -
  note last = con [unfolded remove_contract_def, THEN conjunct2, THEN conjunct2, THEN conjunct2, rule_format]
  show ?thesis by (rule last [of n start cl w cl' rq sq w' res m]) (intro conjI a)
qed

lemma remove_send_step:
  assumes con: "remove_contract tp dir names held post" and ok: "client_ok cl" and held: "held start cl w"
    and n: "0 < n" "start + n \<le> length names" "n \<le> remove_batch_capacity cl"
    and c: "cp_ops c = A_PutFh dir # map A_Remove (slice names start (start + n))"
  shows "remove_progress held post (length names) cl start m (remove_send tp start n c (cl, w))"
  using ok
proof (cases rule: request_cases [where ?tp = tp and ?c = c and ?w = w])
  case (refused e)
  let ?e = "reindex (\<lambda>i. start + remove_result_index i n) (ambiguous_message NonIdempotentMutation e)"
  have "rpc_is_transport ?e \<or> re_op_index ?e = start"
    using local_refusal_index [OF refused(2)] by (auto simp: ambiguous_message_def remove_result_index_def rpc_is_transport_def)
  then have "post (cl, w) (Fail ?e)" using n(1,2) by (intro remove_contractD(2) [OF con _ held]) auto
  then show ?thesis
    using refused by (simp add: remove_send_def remove_progress_def try_in_def map_err_def call_compound_with_safety_def)
next
  case (failed w' rq e)
  then have "cp_ops rq = session_sequence (nc_session cl) # A_PutFh dir # map A_Remove (slice names start (start + n))"
    using c by simp
  from remove_contractD(3) [OF con this failed(3)] have "post (cl \<lparr> nc_session := poison (nc_session cl) \<rparr>, w')
      (Fail (reindex (\<lambda>i. start + remove_result_index i n) (ambiguous_message NonIdempotentMutation e)))" .
  then show ?thesis
    using failed by (simp add: remove_send_def remove_progress_def try_in_def map_err_def call_compound_with_safety_def)
next
  case (answered w' rq res s')
  let ?cl = "observe_reply (cp_tag c) (1 + length (cp_ops c)) res (cl \<lparr> nc_session := s' \<rparr>)"
  have ok': "client_ok ?cl" "2 \<le> nc_max_ops ?cl"
    using observed_client [OF ok refl, of "cp_tag c" "1 + length (cp_ops c)" res s'] answered(7) c by auto
  have "cp_ops rq = session_sequence (nc_session cl) # A_PutFh dir # map A_Remove (slice names start (start + n))"
    using answered(2) c by simp
  note progress = remove_contract_answered [OF con n held ok' this answered(4,5), of m]
  have "map_err (reindex (\<lambda>i. start + remove_result_index i n))
      (call_compound_with_safety tp c NonIdempotentMutation) (cl, w) = ((?cl, w'), Done res)"
    using answered(1) by (simp add: map_err_def call_compound_with_safety_def)
  then show ?thesis using progress unfolding remove_send_def try_in_def [of "map_err _ (call_compound_with_safety _ _ _)"]
    by (simp only: prod.case outcome.case fst_conv)
qed

lemma remove_batch_capacity_pos: "0 < remove_batch_capacity cl"
  by (simp add: remove_batch_capacity_def)

lemma remove_many_contract:
  assumes con: "remove_contract tp dir names held post" and ok: "client_ok cl" and held: "held 0 cl w"
    and within: "\<And>start cl w. held start cl w \<Longrightarrow> start \<le> length names"
  shows "post (fst (remove_many tp dir names (cl, w))) (snd (remove_many tp dir names (cl, w)))"
proof -
  let ?body = "remove_body tp dir names"
  let ?I = "\<lambda>(start, m) (cl, w). client_ok cl \<and> 0 < m \<and> held start cl w"
  let ?R = "inv_image (less_than <*lex*> less_than <*lex*> less_than)
      (\<lambda>((start, m), (cl, w)). (length names - start, remove_batch_capacity cl, m))"
  have step: "remove_progress held post (length names) cl start m (?body (start, m) (cl, w))"
    if st: "client_ok cl" "0 < m" "held start cl w" for start m cl w
  proof (cases "start < length names")
    case True
    let ?n = "min (min (remove_batch_capacity cl) m) (length names - start)"
    let ?c = "foldl c_remove (at_fh ''removev'' dir) (slice names start (start + ?n))"
    have n: "0 < ?n" "start + ?n \<le> length names" "?n \<le> remove_batch_capacity cl" "?n div 2 < m"
      using True st(2) remove_batch_capacity_pos [of cl] by auto
    obtain c1 fits where fits: "compound_request_fits tp cl ?c = Some (c1, fits)" "cp_ops c1 = cp_ops ?c"
      using compound_request_fits_total [of tp cl ?c] by blast
    have "?body (start, m) (cl, w) = (if \<not> fits \<and> 1 < ?n then again (start, ?n div 2) (cl, w)
        else remove_send tp start ?n c1 (cl, w))"
      using True fits(1) by (simp add: remove_body_def Let_def try_in_def of_option_def)
    moreover have "remove_progress held post (length names) cl start m (again (start, ?n div 2) (cl, w))" if "1 < ?n"
      using st n(4) True that by (simp add: remove_progress_def again_def)
    ultimately show ?thesis
      using remove_send_step [OF con st(1,3) n(1-3), of c1 m] fits(2) by (simp add: remove_request(1))
  next
    case False
    then have "post (cl, w) (Done ())" using remove_contractD(1) [OF con] st(3) within [OF st(3)] by (metis le_antisym not_less)
    then show ?thesis using False by (simp add: remove_body_def remove_progress_def leave_with_def ret_def)
  qed
  show ?thesis unfolding remove_many_def
  proof (rule loop_op_rule [where I = ?I and R = ?R])
    show "?I (0, usize_max) (cl, w)" using ok held by (simp add: u64_max_def)
    show "?I l' s' \<and> ((l', s'), (l, s)) \<in> ?R" if "?I l s" "?body l s = (s', Again l')" for l s l' s'
      using that step [of "fst s" "snd l" "fst l" "snd s"]
      by (cases l; cases s; cases l'; cases s') (auto simp: remove_progress_def)
    show "post s' r" if "?I l s" "?body l s = (s', Leave_Loop r)" for l s s' r
      using that step [of "fst s" "snd l" "fst l" "snd s"] by (cases l; cases s) (auto simp: remove_progress_def)
  qed auto
qed

lemma expect_in:
  assumes "accepts req res"
  shows "try_in (map_err f (expect_all_ok res)) k st =
    (if cr_status res = NFS_OK then k () st
     else (st, Leave_Loop (Fail (f (rpc_op (res_nops res - 1) (cr_status res))))))"
  by (simp add: try_in_def map_err_def expect_all_ok_accepts [OF assms])

lemma remove_many_returns:
  assumes "client_ok cl"
  shows "snd (remove_many tp dir names (cl, w)) \<noteq> Stuck"
proof -
  let ?held = "\<lambda>start (_ :: NfsClient) _. start \<le> length names"
  have step: "remove_progress ?held (\<lambda>_ r. r \<noteq> Stuck) (length names) cl start m
      (if 1 < n \<and> resource_rejected_before_mutation (res_view res) \<and> remove_batch_capacity cl' < n
       then again (start, usize_max) (cl', w')
       else try_in (map_err (reindex (\<lambda>i. start + remove_result_index i n)) (expect_all_ok res)) (\<lambda>_.
            again (start + n, usize_max)) (cl', w'))"
    if "0 < n" "start + n \<le> length names" "n \<le> remove_batch_capacity cl" "client_ok cl'" "accepts req res"
    for n start cl cl' m res req w'
    unfolding expect_in [OF that(5)] using that(1-4) by (simp add: remove_progress_def again_def u64_max_def)
  have "remove_contract tp dir names ?held (\<lambda>_ r. r \<noteq> Stuck)"
    unfolding remove_contract_def
  proof (intro conjI allI impI; (elim conjE)?)
    fix rq sq start n m cl cl' w1 w' res
    assume "0 < n" "start + n \<le> length names" "n \<le> remove_batch_capacity cl" "client_ok cl'" "accepts (cp_ops rq) res"
    then show "remove_progress ?held (\<lambda>_ r. r \<noteq> Stuck) (length names) cl start m
      (if 1 < n \<and> resource_rejected_before_mutation (res_view res) \<and> remove_batch_capacity cl' < n
       then again (start, usize_max) (cl', w')
       else try_in (map_err (reindex (\<lambda>i. start + remove_result_index i n)) (expect_all_ok res)) (\<lambda>_.
            again (start + n, usize_max)) (cl', w'))"
      by (rule step)
  qed simp_all
  from remove_many_contract [OF this assms] show ?thesis by simp
qed

lemma remove_many_in_order:
  assumes exec: "stops_at_failure exec" and server: "remove_server obs exec dir tp" and ok: "client_ok cl"
  shows "removal_outcome exec names (obs w) (obs (snd (fst (remove_many tp dir names (cl, w)))))
    (snd (remove_many tp dir names (cl, w)))"
proof -
  let ?its = "map remove_item names"
  let ?held = "\<lambda>start cl w1. ran exec (\<lambda>_. ()) 1 ?its (obs w) start (replicate start ()) cl (obs w1)"
  let ?post = "\<lambda>st'. removal_outcome exec names (obs w) (obs (snd st'))"
  have "remove_contract tp dir names ?held ?post"
    unfolding remove_contract_def
  proof (intro conjI allI impI; (elim conjE)?)
    fix cl w1 assume "?held (length names) cl w1"
    then have "sequential_outcome exec (\<lambda>_. ()) ?its (obs w) (obs w1) (Done (replicate (length names) ()))"
      by (auto simp: ran_def sequential_outcome_def complete_run_def)
    then show "?post (cl, w1) (Done ())" by (auto simp: removal_outcome_def)
  next
    fix start cl w1 e
    assume e: "start < length names" "?held start cl w1" "rpc_is_transport e \<or> re_op_index e = start"
    then have "sequential_outcome exec (\<lambda>_. ()) ?its (obs w) (obs w1) (Fail e)"
      using ran_stop [OF e(2), of e] by (auto simp: sequential_outcome_def)
    then show "?post (cl, w1) (Fail e)" by (simp add: removal_FailI)
  next
    fix rq sq names' w1 w' e and cl' :: NfsClient and f
    assume "cp_ops rq = sq # A_PutFh dir # map A_Remove names'" "compound_call tp rq w1 = (w', Inl e)"
    from remove_effect(1) [OF server this]
    have "rpc_is_transport (reindex f (ambiguous_message NonIdempotentMutation e))"
      by (auto simp: ambiguous_message_def rpc_is_transport_def)
    then show "?post (cl', w') (Fail (reindex f (ambiguous_message NonIdempotentMutation e)))"
      by (intro removal_FailI) (simp add: sequential_outcome_def)
  next
    fix rq sq start n m cl cl' w1 w' res
    assume n: "0 < n" "start + n \<le> length names" "n \<le> remove_batch_capacity cl" and held: "?held start cl w1"
      and ok': "client_ok cl'" "2 \<le> nc_max_ops cl'"
      and rq: "cp_ops rq = sq # A_PutFh dir # map A_Remove (slice names start (start + n))"
      and call: "compound_call tp rq w1 = (w', Inr res)" "accepts (cp_ops rq) res"
    show "remove_progress ?held ?post (length names) cl start m
        (if 1 < n \<and> resource_rejected_before_mutation (res_view res) \<and> remove_batch_capacity cl' < n
         then again (start, usize_max) (cl', w')
         else try_in (map_err (reindex (\<lambda>i. start + remove_result_index i n)) (expect_all_ok res)) (\<lambda>_.
              again (start + n, usize_max)) (cl', w'))"
      by (rule remove_reply_step [where ?obs = obs and ?w' = w', OF exec n held ok' call(2) remove_effect(2) [OF server rq call(1)]])
  qed
  moreover have "?held 0 cl w" by (simp add: ran_def complete_run_def)
  ultimately show ?thesis by (rule remove_many_contract [OF _ ok]) (simp add: ran_def)
qed

section \<open>Reads\<close>

definition read_item :: "ReadOp4 \<Rightarrow> nfs_argop4 list" where
  "read_item op = [A_PutFh (rd_fh op), A_Read (rd_stateid op) (rd_offset op) (rd_count op)]"

lemma read_items:
  "adds (\<lambda>c op _. c_read (c_putfh c (rd_fh op)) (rd_stateid op) (rd_offset op) (rd_count op)) 2 (\<lambda>op _. read_item op)"
  by (simp add: adds_def read_item_def c_read_def c_putfh_def push_def keep_def)

text \<open>A read result that was decoded from at most as many bytes as were asked for.\<close>

definition read_ok ::
  "ReadOp4 list \<Rightarrow> (nat \<Rightarrow> bytes \<Rightarrow> bool \<Rightarrow> RpcError + 'r) \<Rightarrow> nat \<Rightarrow> 'r \<Rightarrow> bool" where
  "read_ok ops decode k v \<longleftrightarrow> (\<exists>data eof. decode k data eof = Inr v \<and> length data \<le> rd_count (ops ! k))"

lemma read_extracts:
  assumes "start + n \<le> length ops"
  shows "extracts_good (\<lambda>op _. read_item op) 2 n (read_extract ops start decode) (\<lambda>k. read_ok ops decode (start + k))"
  unfolding extracts_good_def
proof (intro allI impI, elim conjE)
  fix req res k i op g
  assume a: "k < n" "accepts req res" "decoded res" "\<forall>j < 2. op_status res (1 + 2 * i + j) = Some NFS_OK"
    "take 2 (drop (1 + 2 * i) req) = read_item op"
  have "argop (req ! (2 + 2 * i)) = NFS4_OP_READ" using nth_of_slice [OF a(5), of 1] by (simp add: read_item_def)
  moreover have "op_status res (2 + 2 * i) = Some NFS_OK" using a(4) [rule_format, of 1] by simp
  ultimately obtain eof data where read: "r_read res (2 + 2 * i) = Some (eof, length data)" "r_read_data res (2 + 2 * i) = Some data"
    using accessor_total(8) [OF a(2,3)] by blast
  show "\<exists>x. read_extract ops start decode k res i = Some x \<and> (\<forall>v. x = Inr v \<longrightarrow> read_ok ops decode (start + k) v)"
  proof (cases "decode (start + k) data eof")
    case (Inl e)
    then show ?thesis using read a(1) assms by (auto simp: read_extract_def validate_read_length_def Let_def)
  next
    case (Inr v)
    then show ?thesis using read a(1) assms
      by (auto simp: read_extract_def validate_read_length_def Let_def read_ok_def not_less)
  qed
qed

lemma read_run_le: "read_run budget bytes ops \<le> length ops"
  by (induction ops arbitrary: bytes) (auto simp: Let_def)

text \<open>One round of reads.\<close>

definition read_progress ::
  "(nat \<Rightarrow> 'r \<Rightarrow> bool) \<Rightarrow> nat \<Rightarrow> nat \<Rightarrow> 'w client_state \<times> (nat \<times> 'r list, 'r list outcome) ctl \<Rightarrow> bool" where
  "read_progress good len start step \<longleftrightarrow>
     (case step of
        ((cl', w'), Again (start', results')) \<Rightarrow>
          client_ok cl' \<and> start' \<le> len \<and> good_results good start' results' \<and> start < start' \<and> start < len
      | (st', Leave_Loop r) \<Rightarrow> r \<noteq> Stuck \<and> (\<forall>vs. r = Done vs \<longrightarrow> good_results good len vs))"

lemma good_results_append:
  assumes "good_results good n xs" "good_results (\<lambda>k. good (n + k)) m ys"
  shows "good_results good (n + m) (xs @ ys)"
  unfolding good_results_def
proof (intro conjI allI impI)
  fix k assume "k < n + m"
  show "good k ((xs @ ys) ! k)"
  proof (cases "k < n")
    case False
    then have "k - n < m" "n + (k - n) = k" using \<open>k < n + m\<close> by auto
    then show ?thesis using assms False by (auto simp: good_results_def nth_append)
  qed (use assms in \<open>auto simp: good_results_def nth_append\<close>)
qed (use assms in \<open>simp add: good_results_def\<close>)

lemma read_body_step:
  assumes dec: "decoded_transport tp" and ok: "client_ok cl" "start \<le> length ops"
    and good: "good_results (read_ok ops decode) start results"
  shows "read_progress (read_ok ops decode) (length ops) start (read_body tp byte_budget ops decode (start, results) (cl, w))"
proof -
  let ?n = "read_run byte_budget 0 (drop start ops)"
  let ?chunk = "slice ops start (start + ?n)"
  have n: "start + ?n \<le> length ops" using read_run_le [of byte_budget 0 "drop start ops"] ok(2) by simp
  have len: "length ?chunk = ?n" using n by (simp add: slice_def)
  consider (finished) "start = length ops" | (big) "start < length ops" "?n = 0" | (go) "start < length ops" "0 < ?n"
    using ok(2) by linarith
  then show ?thesis
  proof cases
    case finished
    then show ?thesis using good by (simp add: read_body_def read_progress_def leave_with_def ret_def)
  next
    case big
    then show ?thesis by (simp add: read_body_def read_progress_def leave_with_def fail_with_def)
  next
    case go
    obtain st' r where run: "batch_ops_fallible tp ''readv'' 2 ?chunk
        (\<lambda>c op _. c_read (c_putfh c (rd_fh op)) (rd_stateid op) (rd_offset op) (rd_count op))
        (read_extract ops start decode) (cl, w) = (st', r)"
      by (rule prod.exhaust)
    have ext: "extracts_good (\<lambda>op _. read_item op) 2 (length ?chunk) (read_extract ops start decode)
        (\<lambda>k. read_ok ops decode (start + k))"
      unfolding len by (rule read_extracts [OF n])
    have "r \<noteq> Stuck \<and> (\<forall>vs. r = Done vs \<longrightarrow>
        good_results (\<lambda>k. read_ok ops decode (start + k)) (length ?chunk) vs \<and> client_ok (fst st'))"
      by (rule batch_results [OF read_items ext dec ok(1) _ run [unfolded batch_ops_fallible_def]]) (simp add: ret_def)
    note results = this [unfolded len]
    have res: "r \<noteq> Stuck" using results by (rule conjunct1)
    have vals: "good_results (\<lambda>k. read_ok ops decode (start + k)) ?n vs" "client_ok (fst st')" if "r = Done vs" for vs
      using results [THEN conjunct2, rule_format, OF that] by blast+
    show ?thesis
    proof (cases r)
      case (Done vs)
      have "good_results (read_ok ops decode) (start + ?n) (results @ vs)"
        by (rule good_results_append [OF good vals(1) [OF Done]])
      then show ?thesis
        using go run n vals(2) [OF Done]
        by (cases st') (simp add: Done read_body_def read_progress_def Let_def try_in_def map_err_def again_def)
    qed (use go run res in \<open>simp_all add: read_body_def read_progress_def Let_def try_in_def map_err_def\<close>)
  qed
qed

lemma readv_decode_results:
  assumes dec: "decoded_transport tp" and ok: "client_ok cl"
  shows "snd (readv_decode tp ops decode (cl, w)) \<noteq> Stuck \<and>
    (\<forall>vs. snd (readv_decode tp ops decode (cl, w)) = Done vs \<longrightarrow> good_results (read_ok ops decode) (length ops) vs)"
proof -
  let ?body = "read_body tp (read_compound_bytes cl - 128) ops decode"
  let ?I = "\<lambda>(start, results) (cl, w). client_ok cl \<and> start \<le> length ops \<and> good_results (read_ok ops decode) start results"
  let ?Q = "\<lambda>r. r \<noteq> Stuck \<and> (\<forall>vs. r = Done vs \<longrightarrow> good_results (read_ok ops decode) (length ops) vs)"
  let ?R = "inv_image less_than (\<lambda>((start, results), st). length ops - start)"
  have "?Q (snd (loop_op ?body (0, []) (cl, w)))"
  proof (rule loop_op_rule [where I = ?I and R = ?R and Q = "\<lambda>_ r. ?Q r"])
    show "?I (0, []) (cl, w)" using ok by (simp add: good_results_def)
    show "?I l' s' \<and> ((l', s'), (l, s)) \<in> ?R" if "?I l s" "?body l s = (s', Again l')" for l s l' s'
    proof -
      obtain start results cl1 w1 start' results' cl2 w2
        where v: "l = (start, results)" "s = (cl1, w1)" "l' = (start', results')" "s' = (cl2, w2)" by (cases l; cases s; cases l'; cases s')
      from that(1) have "read_progress (read_ok ops decode) (length ops) start (?body l s)"
        unfolding v by (intro read_body_step [OF dec]) simp_all
      then have "read_progress (read_ok ops decode) (length ops) start (s', Again l')" unfolding that(2) .
      then show ?thesis unfolding v by (auto simp: read_progress_def)
    qed
    show "?Q r" if "?I l s" "?body l s = (s', Leave_Loop r)" for l s s' r
    proof -
      obtain start results cl1 w1 where v: "l = (start, results)" "s = (cl1, w1)" by (cases l; cases s)
      from that(1) have "read_progress (read_ok ops decode) (length ops) start (?body l s)"
        unfolding v by (intro read_body_step [OF dec]) simp_all
      then show ?thesis unfolding that(2) by (simp add: read_progress_def split: prod.splits)
    qed
  qed auto
  then show ?thesis by (simp add: readv_decode_def with_client_def with_state_def)
qed

section \<open>Properties\<close>

text \<open>C3 (paths).  Let every successful reply to PUTFH, LOOKUPs and GETFH name the object that
  the walk reaches from the handle along the names.  Then resolving a path always
  ends, and if it succeeds it gives the object reached from the root along the
  non-empty components, however many requests the walk was split into, also after
  requests that had to be shrunk or sent again.\<close>

theorem path_resolved:
  assumes "decoded_transport tp" "client_ok cl" "walks tp child"
  shows "case snd (client_resolve tp path (cl, w)) of
      Done fh \<Rightarrow> fh = foldl child (nc_root cl) (path_components path)
    | Fail e \<Rightarrow> True
    | Stuck \<Rightarrow> False"
proof -
  let ?cs = "path_components path"
  let ?at = "\<lambda>fh cursor. fh = foldl child (nc_root cl) (take cursor ?cs)"
  have "carried tp ?cs ?at"
    unfolding carried_def
  proof (intro allI impI, elim conjE)
    fix rq sq current cursor n w1 w' res fh
    assume a: "?at current cursor" "cursor + n \<le> length ?cs"
      "cp_ops rq = sq # A_PutFh current # map A_Lookup (slice ?cs cursor (cursor + n)) @ [A_GetFh]"
      "compound_call tp rq w1 = (w', Inr res)" "cr_status res = NFS_OK" "r_getfh res (2 + n) = Some fh"
    have len: "length (slice ?cs cursor (cursor + n)) = n" using a(2) by (simp add: slice_def)
    have "r_getfh res (2 + length (slice ?cs cursor (cursor + n))) = Some (foldl child current (slice ?cs cursor (cursor + n)))"
      using assms(3) a(3-5) unfolding walks_def by blast
    then have "fh = foldl child current (slice ?cs cursor (cursor + n))" using a(6) len by simp
    moreover have "take (cursor + n) ?cs = take cursor ?cs @ slice ?cs cursor (cursor + n)"
      by (simp add: slice_def take_add)
    ultimately show "?at fh (cursor + n)" using a(1) by simp
  qed
  from resolve_result [OF assms(1,2) _ this, of w] show ?thesis
    by (cases "snd (client_resolve tp path (cl, w))") auto
qed

text \<open>A server whose handles are the paths of the objects.\<close>

definition tree_child :: "bytes \<Rightarrow> bytes \<Rightarrow> bytes" where
  "tree_child fh name = fh @ slash # name"

definition tree_current :: "nfs_argop4 list \<Rightarrow> bytes" where
  "tree_current ops = foldl (\<lambda>fh op. case op of A_PutFh fh' \<Rightarrow> fh' | A_Lookup name \<Rightarrow> tree_child fh name | _ \<Rightarrow> fh) [] ops"

definition tree_server :: "unit transport" where
  "tree_server =
     \<lparr> tp_encode = tp_encode granting_server,
       tp_rpc = (\<lambda>c w. (w, Inr \<lparr> cr_status = 0, cr_len = length (cp_ops c), cr_ops = Some
          (map (\<lambda>op. \<lparr> ro_op = argop op, ro_status = 0, ro_body =
             (case op of A_GetFh \<Rightarrow> B_Fh (length (tree_current (cp_ops c)), Some (tree_current (cp_ops c)))
              | _ \<Rightarrow> granting_body op) \<rparr>) (cp_ops c)) \<rparr>)) \<rparr>"

lemma tree_server_decoded: "decoded_transport tree_server"
  by (auto simp: decoded_transport_def tree_server_def decoded_def decoded_op_def res_nops_def nth_op_def
      granting_body_def field_ok_def nfs_op_defs split: nfs_argop4.splits)

lemma tree_server_walks: "walks tree_server tree_child"
  unfolding walks_def
proof (intro allI impI, elim conjE)
  fix rq sq fh cs w w' res
  assume rq: "cp_ops rq = sq # A_PutFh fh # map A_Lookup cs @ [A_GetFh]"
    and call: "compound_call tree_server rq w = (w', Inr res)"
  have "foldl (\<lambda>fh op. case op of A_PutFh fh' \<Rightarrow> fh' | A_Lookup name \<Rightarrow> tree_child fh name | _ \<Rightarrow> fh) fh (map A_Lookup cs) =
      foldl tree_child fh cs"
    by (induction cs arbitrary: fh) simp_all
  then have cur: "tree_current (cp_ops rq) = foldl tree_child fh cs" unfolding rq tree_current_def by simp
  from call have res: "res = \<lparr> cr_status = 0, cr_len = length (cp_ops rq), cr_ops = Some
      (map (\<lambda>op. \<lparr> ro_op = argop op, ro_status = 0, ro_body =
         (case op of A_GetFh \<Rightarrow> B_Fh (length (tree_current (cp_ops rq)), Some (tree_current (cp_ops rq)))
          | _ \<Rightarrow> granting_body op) \<rparr>) (cp_ops rq)) \<rparr>"
    by (simp add: compound_call_def tree_server_def split: sum.splits)
  have "cp_ops rq ! (2 + length cs) = A_GetFh" "length (cp_ops rq) = 3 + length cs" by (simp_all add: rq nth_append)
  then show "r_getfh res (2 + length cs) = Some (foldl tree_child fh cs)"
    by (simp add: res r_getfh_def expect_op_def resop_def res_nops_def cur field_slice_def
        response_op_status_def supported_ops_def nfs_op_defs NFS_OK_def)
qed

theorem path_resolved_witness:
  "case snd (client_resolve tree_server ''/home//user'' (fresh_client, ())) of
      Done fh \<Rightarrow> fh = nc_root fresh_client @ ''/home/user''
    | Fail e \<Rightarrow> True
    | Stuck \<Rightarrow> False"
proof -
  have "path_components ''/home//user'' = [''home'', ''user'']" by (simp add: path_components_def)
  with path_resolved [OF tree_server_decoded fresh_client_ok tree_server_walks, of "''/home//user''" "()"]
  show ?thesis by (simp add: tree_child_def split: outcome.splits)
qed

text \<open>C4 (failed removals).  Let a server remove the names of a request one by one and stop at
  the first that it cannot remove.  Removing many names ends; if it reports
  success every name was removed, in the caller's order, and if it reports an error
  other than a lost request then exactly the names before the reported index were
  removed, however the names were split into requests.\<close>

theorem removals_in_order:
  assumes "stops_at_failure exec" "remove_server obs exec dir tp" "client_ok cl"
    and "remove_many tp dir names (cl, w) = ((cl', w'), r)"
  shows "case r of
      Done _ \<Rightarrow> \<exists>rss. run_items exec (obs w) (map remove_item names) = (obs w', rss) \<and> length rss = length names \<and>
        list_all (list_all result_ok) rss
    | Fail e \<Rightarrow> rpc_is_transport e \<or> (re_op_index e < length names \<and>
        (\<exists>rss. run_items exec (obs w) (map remove_item (take (re_op_index e) names)) = (obs w', rss) \<and>
           length rss = re_op_index e \<and> list_all (list_all result_ok) rss))
    | Stuck \<Rightarrow> False"
proof -
  have stay: "st' = st" if "exec st (remove_item name) = (st', bad)" "\<not> list_all result_ok bad" for st name st' bad
  proof -
    have b: "bad \<noteq> []" "length bad \<le> 1" "length bad = 1 \<and> \<not> result_ok (hd bad) \<longrightarrow> st' = st"
      using assms(1) that(1) unfolding stops_at_failure_def by (fastforce simp: remove_item_def)+
    from b(1,2) obtain x where "bad = [x]" by (cases bad) auto
    then show ?thesis using b(3) that(2) by simp
  qed
  obtain rs where rs: "sequential_outcome exec (\<lambda>_. ()) (map remove_item names) (obs w) (obs w') rs"
    "r = map_outcome (\<lambda>_. ()) rs"
    using remove_many_in_order [OF assms(1-3), of names w] assms(4) by (auto simp: removal_outcome_def)
  show ?thesis
  proof (cases rs)
    case (Fail e)
    then show ?thesis using rs by (auto simp: sequential_outcome_def take_map dest: stay)
  qed (use rs in \<open>auto simp: sequential_outcome_def\<close>)
qed

text \<open>A server for one directory, which removes the names that are there.\<close>

definition removed_name :: "nfs_argop4 list \<Rightarrow> bytes option" where
  "removed_name it = (case it of [A_Remove name] \<Rightarrow> Some name | _ \<Rightarrow> None)"

definition dir_exec :: "bytes list item_exec" where
  "dir_exec st it =
     (case removed_name it of
        Some name \<Rightarrow>
          if name \<in> set st then (removeAll name st, [\<lparr> ro_op = argop (A_Remove name), ro_status = 0, ro_body = B_None \<rparr>])
          else (st, [\<lparr> ro_op = argop (A_Remove name), ro_status = 2, ro_body = B_None \<rparr>])
      | None \<Rightarrow> (st, map (\<lambda>op. \<lparr> ro_op = argop op, ro_status = 0, ro_body = granting_body op \<rparr>) it))"

definition dir_server :: "bytes list transport" where
  "dir_server =
     \<lparr> tp_encode = tp_encode granting_server,
       tp_rpc = (\<lambda>c w.
         case run_items dir_exec w (map (\<lambda>op. [op]) (drop 2 (cp_ops c))) of
           (w', rss) \<Rightarrow>
             let rs = map (\<lambda>op. \<lparr> ro_op = argop op, ro_status = 0, ro_body = granting_body op \<rparr>) (take 2 (cp_ops c)) @ concat rss
             in (w', Inr \<lparr> cr_status = ro_status (last rs), cr_len = length rs, cr_ops = Some rs \<rparr>)) \<rparr>"

lemma removed_name_Some: "removed_name it = Some name \<longleftrightarrow> it = [A_Remove name]"
  by (auto simp: removed_name_def split: list.splits nfs_argop4.splits)

lemma dir_exec_stops: "stops_at_failure dir_exec"
  unfolding stops_at_failure_def
proof (intro allI impI, elim conjE)
  fix st it st' rs assume x: "dir_exec st it = (st', rs)" "it \<noteq> []"
  show "rs \<noteq> [] \<and> length rs \<le> length it \<and> list_all result_ok (butlast rs) \<and> (length rs < length it \<longrightarrow> \<not> result_ok (last rs)) \<and>
    (length rs = 1 \<and> \<not> result_ok (hd rs) \<longrightarrow> st' = st)"
  proof (cases "removed_name it")
    case None
    then show ?thesis using x by (auto simp: dir_exec_def list_all_iff map_butlast [symmetric])
  next
    case (Some name)
    then have "length it = 1" by (simp add: removed_name_Some)
    with x Some show ?thesis by (auto simp: dir_exec_def simp del: argop.simps split: if_splits)
  qed
qed

lemma dir_server_removes: "remove_server (\<lambda>w. w) dir_exec dir dir_server"
  by (auto simp: remove_server_def dir_server_def Let_def remove_item_def [abs_def] comp_def split: prod.splits)

theorem removals_in_order_witness:
  "\<exists>cl' w' r. remove_many dir_server ''d'' [''a'', ''x''] (fresh_client, [''a'', ''b'']) = ((cl', w'), r) \<and>
     (case r of
      Done _ \<Rightarrow> \<exists>rss. run_items dir_exec [''a'', ''b''] (map remove_item [''a'', ''x'']) = (w', rss) \<and> length rss = 2 \<and>
        list_all (list_all result_ok) rss
    | Fail e \<Rightarrow> rpc_is_transport e \<or> (re_op_index e < 2 \<and>
        (\<exists>rss. run_items dir_exec [''a'', ''b''] (map remove_item (take (re_op_index e) [''a'', ''x''])) = (w', rss) \<and>
           length rss = re_op_index e \<and> list_all (list_all result_ok) rss))
    | Stuck \<Rightarrow> False)"
proof -
  obtain cl' w' r where run: "remove_many dir_server ''d'' [''a'', ''x''] (fresh_client, [''a'', ''b'']) = ((cl', w'), r)"
    by (metis prod.exhaust)
  have "length [''a'', ''x''] = 2" by simp
  with removals_in_order [OF dir_exec_stops dir_server_removes fresh_client_ok run] run show ?thesis by metis
qed

text \<open>C11 (vectored reads).  A vectored read always ends; if it succeeds it has one result per
  request, in order, and never more data than the request asked for, also when a
  reply carries more than that.\<close>

theorem reads_bounded:
  assumes "decoded_transport tp" "client_ok cl"
  shows "(case snd (readv tp ops (cl, w)) of
      Done rs \<Rightarrow> length rs = length ops \<and> (\<forall>k. k < length ops \<longrightarrow> length (fst (rs ! k)) \<le> rd_count (ops ! k))
    | Fail e \<Rightarrow> True | Stuck \<Rightarrow> False) \<and>
   (case snd (readv_into tp ops on_data (cl, w)) of
      Done rs \<Rightarrow> length rs = length ops \<and> (\<forall>k. k < length ops \<longrightarrow> fst (rs ! k) \<le> rd_count (ops ! k))
    | Fail e \<Rightarrow> True | Stuck \<Rightarrow> False)"
proof
  note results = readv_decode_results [OF assms, of ops _ w]
  show "case snd (readv tp ops (cl, w)) of
      Done rs \<Rightarrow> length rs = length ops \<and> (\<forall>k. k < length ops \<longrightarrow> length (fst (rs ! k)) \<le> rd_count (ops ! k))
    | Fail e \<Rightarrow> True | Stuck \<Rightarrow> False"
    using results [of "\<lambda>_ data eof. Inr (data, eof)"]
    by (cases "snd (readv tp ops (cl, w))") (auto simp: readv_def good_results_def read_ok_def, metis fst_conv)
  show "case snd (readv_into tp ops on_data (cl, w)) of
      Done rs \<Rightarrow> length rs = length ops \<and> (\<forall>k. k < length ops \<longrightarrow> fst (rs ! k) \<le> rd_count (ops ! k))
    | Fail e \<Rightarrow> True | Stuck \<Rightarrow> False"
  proof (cases "snd (readv_into tp ops on_data (cl, w))")
    case (Done rs)
    let ?decode = "\<lambda>index data eof. case on_data index data of Inl e \<Rightarrow> Inl e | Inr _ \<Rightarrow> Inr (length data, eof)"
    have good: "good_results (read_ok ops ?decode) (length ops) rs"
      using results [of ?decode] Done by (simp add: readv_into_def)
    have "fst (rs ! k) \<le> rd_count (ops ! k)" if "k < length ops" for k
    proof -
      have "read_ok ops ?decode k (rs ! k)" using good that unfolding good_results_def by blast
      then obtain data eof where d: "?decode k data eof = Inr (rs ! k)" "length data \<le> rd_count (ops ! k)"
        unfolding read_ok_def by (elim exE conjE)
      then have "rs ! k = (length data, eof)" by (cases "on_data k data") auto
      then show ?thesis using d(2) by simp
    qed
    then show ?thesis using good Done by (simp add: good_results_def)
  qed (use results [of "\<lambda>index data eof. case on_data index data of Inl e \<Rightarrow> Inl e | Inr _ \<Rightarrow> Inr (length data, eof)"]
    in \<open>auto simp: readv_into_def\<close>)
qed

theorem reads_bounded_witness:
  "case snd (readv granting_server [\<lparr> rd_fh = ''f'', rd_stateid = zero_stateid, rd_offset = 0, rd_count = 5 \<rparr>] (fresh_client, ())) of
      Done rs \<Rightarrow> length rs = 1 \<and> length (fst (rs ! 0)) \<le> 5
    | Fail e \<Rightarrow> True | Stuck \<Rightarrow> False"
  using reads_bounded [OF granting_server_decoded fresh_client_ok,
      of "[\<lparr> rd_fh = ''f'', rd_stateid = zero_stateid, rd_offset = 0, rd_count = 5 \<rparr>]" "()" "\<lambda>_ _. Inr ()"]
  by (simp split: outcome.splits)

end
