(* ===== verification/Nfs_Pages.thy ===== *)
theory Nfs_Pages
  imports Nfs_Vector
begin

text \<open>
  What the directory pages of \<^verbatim>\<open>client.rs\<close> give: \<^verbatim>\<open>readdir_children\<close> and \<^verbatim>\<open>readdir_pages\<close>
  end, return one page per directory in the caller's order, and every name of a
  page is a single path component.  The position of an error is relative to the
  request it came from, not to the caller's list.
\<close>

section \<open>Pages of a reply\<close>

lemma collect_pages_eq: "collect_pages page res is out = extract_all (\<lambda>_. page) res is out"
  by (induction "is" arbitrary: "out") (auto split: option.split sum.split)

text \<open>A page reader whose pages are good.\<close>

definition reads_pages :: "(nat \<Rightarrow> nat \<Rightarrow> 't \<Rightarrow> nfs_argop4 list) \<Rightarrow> nat \<Rightarrow> (CompoundRes \<Rightarrow> nat \<Rightarrow> 'r decoding) \<Rightarrow> ('r \<Rightarrow> bool) \<Rightarrow> bool" where
  "reads_pages item per_op page good \<longleftrightarrow>
     (\<forall>d m len. extracts_good (\<lambda>op _. item d m op) per_op len (\<lambda>_. page) (\<lambda>_. good)) \<and>
     (\<forall>res i e. page res i = Some (Inl e) \<longrightarrow> rpc_is_transport e)"

lemma extract_all_error:
  assumes "\<And>k i e. extr k res i = Some (Inl e) \<Longrightarrow> P e"
  shows "extract_all extr res is out = Some (Inl e) \<Longrightarrow> P e"
  using assms by (induction "is" arbitrary: "out") (auto split: option.splits sum.splits)

text \<open>The pages of an accepted reply.\<close>

lemma pages_collected:
  assumes reads: "reads_pages item per_op page good" and adds: "adds add per_op (\<lambda>op _. item d m op)"
    and acc: "accepts req res" "decoded res" "req = sq # concat (item_list (\<lambda>op _. item d m op) chunk g)"
      "cr_status res = NFS_OK"
    and "out": "good_results (\<lambda>_. good) (length out) out"
  shows "\<exists>y. collect_pages page res [0..<length chunk] out = Some y \<and>
    (\<forall>out'. y = Inr out' \<longrightarrow> good_results (\<lambda>_. good) (length out + length chunk) out') \<and>
    (\<forall>e. y = Inl e \<longrightarrow> rpc_is_transport e)"
proof -
  have item: "\<exists>x. page res i = Some x \<and> (\<forall>v. x = Inr v \<longrightarrow> good v)" if "i \<in> set [0..<length chunk]" for i
  proof -
    have "i < (if cr_status res = NFS_OK then length chunk else completed_items per_op res)" using that acc(4) by simp
    note done_item = completed_item [OF adds acc(1,3) this]
    have "extracts_good (\<lambda>op _. item d m op) per_op 1 (\<lambda>_. page) (\<lambda>_. good)" using reads unfolding reads_pages_def by blast
    then show ?thesis using acc(1,2) done_item unfolding extracts_good_def by blast
  qed
  have "\<exists>y. extract_all (\<lambda>_. page) res [0..<length chunk] out = Some y \<and>
      (\<forall>out'. y = Inr out' \<longrightarrow> good_results (\<lambda>_. good) (length out + length [0..<length chunk]) out')"
    by (rule extract_all_good [OF _ "out"]) (rule item)
  moreover have "rpc_is_transport e" if "extract_all (\<lambda>_. page) res [0..<length chunk] out = Some (Inl e)" for e
    by (rule extract_all_error [OF _ that]) (use reads in \<open>auto simp: reads_pages_def\<close>)
  ultimately show ?thesis unfolding collect_pages_eq by auto
qed

section \<open>The loop over the pages\<close>

definition pages_progress ::
  "('r \<Rightarrow> bool) \<Rightarrow> bytes \<Rightarrow> nat \<Rightarrow> nat \<Rightarrow> NfsClient \<Rightarrow> 'r list \<Rightarrow> 'w client_state \<times> ('r list, 'r list outcome) ctl \<Rightarrow> bool" where
  "pages_progress good tag per_op len cl out step \<longleftrightarrow>
     (case step of
        ((cl', w'), Again out') \<Rightarrow>
          client_ok cl' \<and> nc_max_ops cl' = nc_max_ops cl \<and> good_results (\<lambda>_. good) (length out') out' \<and> length out' \<le> len \<and>
          length out < len \<and> (length out < length out' \<or> out' = out \<and> capacity_of cl' tag per_op < capacity_of cl tag per_op)
      | (st', Leave_Loop r) \<Rightarrow> r \<noteq> Stuck \<and> (\<forall>vs. r = Done vs \<longrightarrow> good_results (\<lambda>_. good) len vs) \<and>
          (\<forall>e. r = Fail e \<longrightarrow> rpc_is_transport e \<or> re_op_index e = 0 \<or> 1 + per_op * (re_op_index e + 1) \<le> nc_max_ops cl))"

lemma page_index_fits:
  assumes "0 < n" "1 + per_op * n \<le> limit"
  shows "1 + per_op * (page_error_index per_op n i + 1) \<le> limit"
proof -
  have "per_op * (page_error_index per_op n i + 1) \<le> per_op * n"
    using assms(1) by (intro mult_le_mono2) (auto simp: page_error_index_def)
  then show ?thesis using assms(2) by linarith
qed

lemma pages_body_step:
  assumes reads: "reads_pages item per_op page good" and adds: "\<And>d m. adds (add d m) per_op (\<lambda>op _. item d m op)"
    and dec: "decoded_transport tp" and ok: "client_ok cl" "length out \<le> length ops" "good_results (\<lambda>_. good) (length out) out"
  shows "pages_progress good tag per_op (length ops) cl out (pages_body tp tag per_op ops add max_page_bytes page out (cl, w))"
proof (cases "length out < length ops \<and> capacity_of cl tag per_op \<noteq> 0")
  case True
  let ?chunk = "slice ops (length out) (min (length out + capacity_of cl tag per_op) (length ops))"
  let ?n = "length ?chunk"
  obtain d m where counts: "page_counts cl ?n max_page_bytes = (d, m)" by fastforce
  let ?c = "add_chunk (add d m) (tagged tag) ?chunk (length out)"
  have n: "?n = min (capacity_of cl tag per_op) (length ops - length out)" by (simp add: slice_def)
  then have n0: "0 < ?n" "length out + ?n \<le> length ops" "?n \<le> capacity_of cl tag per_op" using True by auto
  have pos: "0 < per_op" using adds by (simp add: adds_def)
  have c: "cp_ops ?c = concat (item_list (\<lambda>op _. item d m op) ?chunk (length out))" "cp_tag ?c = tag"
    "length (cp_ops ?c) = per_op * ?n"
    using add_chunk_ops [OF adds, of d m "tagged tag" ?chunk "length out"] by auto
  have fit: "1 + per_op * ?n \<le> nc_max_ops cl"
  proof -
    have "per_op * ?n \<le> per_op * capacity_of cl tag per_op" using n0(3) by (rule mult_le_mono2)
    then show ?thesis using capacity_of_bounds(1) [OF ok(1) pos, of tag] by linarith
  qed
  let ?remap = "reindex (page_error_index per_op ?n)"
  let ?settle = "\<lambda>res. try_in (map_err ?remap (expect_all_ok res)) (\<lambda>_.
                 try_in (of_decoding (collect_pages page res [0..<?n] out)) again)"
  have body: "pages_body tp tag per_op ops add max_page_bytes page out (cl, w) =
      try_in (map_err ?remap (call_compound tp ?c)) (\<lambda>res.
        if 1 < ?n \<and> resource_status (cr_status res)
        then (\<lambda>st. try_in (of_sum (batch_capacity (op_budget_for (fst st) tag (1 + per_op)) per_op))
               (\<lambda>smaller. if smaller < ?n then again out else ?settle res) st)
        else ?settle res) (cl, w)"
    using True counts
    by (simp add: pages_body_def batch_capacity_eq [of cl tag per_op, simplified] Let_def
        try_in_def [of "of_sum _"] of_sum_def)
  show ?thesis
    using ok(1)
  proof (cases rule: request_cases [where ?tp = tp and ?c = ?c and ?w = w])
    case (refused e)
    then show ?thesis
      using page_index_fits [OF n0(1) fit] unfolding body by (simp add: pages_progress_def try_in_def map_err_def)
  next
    case (failed w' rq e)
    then show ?thesis
      using page_index_fits [OF n0(1) fit] unfolding body by (simp add: pages_progress_def try_in_def map_err_def)
  next
    case (answered w' rq res s')
    define cl1 where "cl1 = observe_reply (cp_tag ?c) (1 + length (cp_ops ?c)) res (cl \<lparr> nc_session := s' \<rparr>)"
    note obs = observed_client [OF ok(1) cl1_def]
    have acc: "accepts (cp_ops rq) res" "decoded res" using answered(5) reply_decoded [OF dec answered(4)] by auto
    have rq: "cp_ops rq = session_sequence (nc_session cl) # concat (item_list (\<lambda>op _. item d m op) ?chunk (length out))"
      using answered(2) c(1) by simp
    have settle: "pages_progress good tag per_op (length ops) cl out (?settle res (cl1, w'))"
    proof (cases "cr_status res = NFS_OK")
      case good: True
      obtain y where y: "collect_pages page res [0..<?n] out = Some y"
        "\<forall>out'. y = Inr out' \<longrightarrow> good_results (\<lambda>_. good) (length out + ?n) out'" "\<forall>e. y = Inl e \<longrightarrow> rpc_is_transport e"
        using pages_collected [OF reads adds acc rq good ok(3)] by blast
      show ?thesis
      proof (cases y)
        case (Inr out')
        then have "good_results (\<lambda>_. good) (length out + ?n) out'" using y(2) by blast
        moreover from this have "length out' = length out + ?n" by (simp add: good_results_def)
        ultimately show ?thesis using y(1) Inr good n0 obs True
          by (simp add: try_in_def map_err_def expect_all_ok_accepts [OF acc(1)] of_decoding_eq again_def pages_progress_def)
      qed (use y good in \<open>simp add: try_in_def map_err_def expect_all_ok_accepts [OF acc(1)] of_decoding_eq pages_progress_def\<close>)
    next
      case False
      then show ?thesis using page_index_fits [OF n0(1) fit]
        by (simp add: try_in_def map_err_def expect_all_ok_accepts [OF acc(1)] pages_progress_def)
    qed
    have smaller: "capacity_of cl1 tag per_op < ?n" if "1 < ?n" "resource_status (cr_status res)"
      unfolding cl1_def c(2,3) using that capacity_after_rejection [OF _ pos] by (auto simp: resource_status_def)
    have one: "capacity_of cl1 tag per_op \<noteq> 0"
      using capacity_of_bounds(2) [OF ok(1) pos] capacity_of_bounds(2) [OF obs(1) pos] obs(2) True by simp
    have shrink: "pages_progress good tag per_op (length ops) cl out (again out (cl1, w'))" if "capacity_of cl1 tag per_op < ?n"
      using that n0 obs ok True by (simp add: pages_progress_def again_def)
    have call: "map_err ?remap (call_compound tp ?c) (cl, w) = ((cl1, w'), Done res)"
      using answered(1) by (simp add: map_err_def cl1_def)
    show ?thesis
    proof (cases "1 < ?n \<and> resource_status (cr_status res)")
      case retry: True
      then have "capacity_of cl1 tag per_op < ?n" using smaller by blast
      then show ?thesis using shrink one retry unfolding body try_in_def [of "map_err _ _"] call
        by (simp add: batch_capacity_eq [of cl1 tag per_op, simplified] try_in_def of_sum_def)
    next
      case False
      show ?thesis unfolding body
        by (subst try_in_def) (simp only: call prod.case outcome.case if_False False settle)
    qed
  qed
next
  case False
  with ok show ?thesis
    by (auto simp: pages_body_def pages_progress_def leave_with_def ret_def try_in_def of_sum_def Let_def
        batch_capacity_eq [of cl tag per_op, simplified] rpc_op_def)
qed

lemma paged_read_result:
  assumes reads: "reads_pages item per_op page good" and adds: "\<And>d m. adds (add d m) per_op (\<lambda>op _. item d m op)"
    and dec: "decoded_transport tp" and ok: "client_ok cl"
  shows "case snd (paged_read tp tag per_op ops add max_page_bytes page (cl, w)) of
      Done vs \<Rightarrow> length vs = length ops \<and> list_all good vs
    | Fail e \<Rightarrow> rpc_is_transport e \<or> re_op_index e = 0 \<or> 1 + per_op * (re_op_index e + 1) \<le> nc_max_ops cl
    | Stuck \<Rightarrow> False"
proof (cases "ops = []")
  case False
  let ?body = "pages_body tp tag per_op ops add max_page_bytes page"
  let ?I = "\<lambda>out (cl', w). client_ok cl' \<and> nc_max_ops cl' = nc_max_ops cl \<and> length out \<le> length ops \<and>
      good_results (\<lambda>_. good) (length out) out"
  let ?R = "inv_image (less_than <*lex*> less_than) (\<lambda>(out, (cl, w)). (length ops - length out, capacity_of cl tag per_op))"
  let ?Q = "\<lambda>r. case r of Done vs \<Rightarrow> length vs = length ops \<and> list_all good vs
    | Fail e \<Rightarrow> rpc_is_transport e \<or> re_op_index e = 0 \<or> 1 + per_op * (re_op_index e + 1) \<le> nc_max_ops cl
    | Stuck \<Rightarrow> False"
  have step: "pages_progress good tag per_op (length ops) (fst s) out (?body out s)" if "?I out s" for "out" s
    using that pages_body_step [OF reads adds dec, of "fst s" "out" ops tag max_page_bytes "snd s"] by (cases s) simp
  have "?Q (snd (loop_op ?body [] (cl, w)))"
  proof (rule loop_op_rule [where I = ?I and R = ?R and Q = "\<lambda>_. ?Q"])
    show "?I [] (cl, w)" using ok by (simp add: good_results_def)
    show "?I l' s' \<and> ((l', s'), (l, s)) \<in> ?R" if "?I l s" "?body l s = (s', Again l')" for l s l' s'
      using step [OF that(1)] that by (cases s; cases s') (auto simp: pages_progress_def)
    show "?Q r" if "?I l s" "?body l s = (s', Leave_Loop r)" for l s s' r
      using step [OF that(1)] that
      by (cases s; cases r) (auto simp: pages_progress_def good_results_def list_all_length split: prod.splits)
  qed auto
  then show ?thesis using False by (simp add: paged_read_def)
qed (simp add: paged_read_def ret_def)

section \<open>What a page holds\<close>

text \<open>A name that stays below its directory when it is joined to it.\<close>

definition safe_name :: "bytes \<Rightarrow> bool" where
  "safe_name name \<longleftrightarrow> name \<noteq> [] \<and> slash \<notin> set name \<and> CHR 0x00 \<notin> set name \<and> name \<noteq> ''.'' \<and> name \<noteq> ''..''"

definition entry_name :: "entry4 \<Rightarrow> bytes" where
  "entry_name ent = the (field_slice (en_name ent))"

definition dot_name :: "bytes \<Rightarrow> bool" where
  "dot_name name \<longleftrightarrow> name = ''.'' \<or> name = ''..''"

lemma collect_entries_spec:
  assumes "list_all entry_ok ents"
  shows "\<exists>y. collect_entries ents out cookie = Some y \<and>
    (\<forall>out' cookie'. y = Inr (out', cookie') \<longrightarrow>
       map de_name out' = map de_name out @ filter (\<lambda>name. \<not> dot_name name) (map entry_name ents) \<and>
       (list_all (\<lambda>ent. safe_name (de_name ent)) out \<longrightarrow> list_all (\<lambda>ent. safe_name (de_name ent)) out') \<and>
       cookie' = (if ents = [] then cookie else en_cookie (last ents))) \<and>
    (\<forall>e. y = Inl e \<longrightarrow> rpc_is_transport e)"
  using assms
proof (induction ents arbitrary: "out" cookie)
  case (Cons ent ents)
  obtain name where name: "field_slice (en_name ent) = Some name" using Cons.prems by (auto simp: entry_ok_def)
  obtain attrs where attrs: "field_slice (en_attrs ent) = Some attrs" using Cons.prems by (auto simp: entry_ok_def)
  have rest: "list_all entry_ok ents" using Cons.prems by simp
  show ?case
  proof (cases "name = [] \<or> CHR ''/'' \<in> set name \<or> CHR 0x00 \<in> set name")
    case True
    then show ?thesis using name by (auto simp: rpc_is_transport_def rpc_transport_with_kind_def)
  next
    case good: False
    show ?thesis
    proof (cases "dot_name name")
      case True
      with Cons.IH [OF rest, of "out" "en_cookie ent"] name attrs good show ?thesis
        by (auto simp: dot_name_def entry_name_def)
    next
      case False
      let ?out = "out @ [\<lparr> de_name = name, de_cookie = en_cookie ent, de_attrs = attrs \<rparr>]"
      have eq: "collect_entries (ent # ents) out cookie = collect_entries ents ?out (en_cookie ent)"
        using name attrs good False by (auto simp: dot_name_def)
      have "entry_name ent = name" using name by (simp add: entry_name_def)
      moreover have "safe_name name" using good False by (auto simp: safe_name_def dot_name_def)
      ultimately show ?thesis unfolding eq using Cons.IH [OF rest, of ?out "en_cookie ent"] False
        by (auto simp: list_all_iff)
    qed
  qed
qed simp

text \<open>A page has the server's entries in order, without the two dot names, and says where to go
  on unless the directory ended.\<close>

definition page_ok :: "DirEntry4 list \<times> nat \<Rightarrow> bool" where
  "page_ok page \<longleftrightarrow> list_all (\<lambda>ent. safe_name (de_name ent)) (fst page)"

lemma collect_readdir_spec:
  assumes "list_all entry_ok ents"
  shows "\<exists>y. collect_readdir (ents, eof) = Some y \<and>
    (\<forall>out cookie. y = Inr (out, cookie) \<longrightarrow> page_ok (out, cookie) \<and>
       map de_name out = filter (\<lambda>name. \<not> dot_name name) (map entry_name ents) \<and> (cookie = 0 \<longleftrightarrow> eof)) \<and>
    (\<forall>e. y = Inl e \<longrightarrow> rpc_is_transport e)"
proof -
  obtain y where y: "collect_entries ents [] 0 = Some y"
    "\<And>out' cookie'. y = Inr (out', cookie') \<Longrightarrow> map de_name out' = filter (\<lambda>name. \<not> dot_name name) (map entry_name ents) \<and>
       list_all (\<lambda>ent. safe_name (de_name ent)) out'"
    "\<And>e. y = Inl e \<Longrightarrow> rpc_is_transport e"
    using collect_entries_spec [OF assms, of "[]" 0] by auto
  show ?thesis
  proof (cases y)
    case (Inr z)
    then show ?thesis using y by (cases z) (auto simp: collect_readdir_def page_ok_def rpc_is_transport_def rpc_transport_def
        rpc_transport_with_kind_def)
  qed (use y in \<open>auto simp: collect_readdir_def\<close>)
qed

lemma collect_entries_error: "collect_entries ents out cookie = Some (Inl e) \<Longrightarrow> rpc_is_transport e"
  by (induction ents arbitrary: "out" cookie)
     (auto simp: rpc_is_transport_def rpc_transport_with_kind_def split: option.splits if_splits)

lemma collect_readdir_error: "collect_readdir ok = Some (Inl e) \<Longrightarrow> rpc_is_transport e"
  by (auto simp: collect_readdir_def rpc_is_transport_def rpc_transport_def rpc_transport_with_kind_def
      dest: collect_entries_error split: option.splits sum.splits if_splits)

text \<open>The operations of one item of the two paged reads.\<close>

definition child_dir_item :: "nat list \<Rightarrow> nat \<Rightarrow> nat \<Rightarrow> bytes \<times> bytes \<Rightarrow> nfs_argop4 list" where
  "child_dir_item attrs dircount maxcount op =
     [A_PutFh (fst op), A_Lookup (snd op), A_GetFh, A_Readdir 0 zero_verf dircount maxcount (bitmap attrs)]"

definition dir_page_item :: "nat list \<Rightarrow> nat \<Rightarrow> nat \<Rightarrow> bytes \<times> nat \<Rightarrow> nfs_argop4 list" where
  "dir_page_item attrs dircount maxcount op =
     [A_PutFh (fst op), A_Readdir (snd op) zero_verf dircount maxcount (bitmap attrs)]"

lemma dir_items:
  "adds (\<lambda>c (pfh, name) _. c_readdir (c_getfh (c_lookup (c_putfh c pfh) name)) 0 zero_verf dircount maxcount attrs) 4
     (\<lambda>op _. child_dir_item attrs dircount maxcount op)"
  "adds (\<lambda>c (fh, cookie) _. c_readdir (c_putfh c fh) cookie zero_verf dircount maxcount attrs) 2
     (\<lambda>op _. dir_page_item attrs dircount maxcount op)"
  by (auto simp: adds_def child_dir_item_def dir_page_item_def c_getfh_def c_lookup_def c_putfh_def c_readdir_def
      push_def keep_def Let_def)

lemma item_op:
  assumes "take per_op (drop (1 + per_op * i) req) = it" "length it = per_op" "j < per_op"
  shows "req ! (1 + per_op * i + j) = it ! j"
  using nth_of_slice [OF assms(1), of j] assms(2,3) by simp

lemma item_page:
  assumes "accepts req res" "decoded res" "op_status res k = Some NFS_OK" "argop (req ! k) = NFS4_OP_READDIR"
  shows "\<exists>ok y. r_readdir res k = Some ok \<and> collect_readdir ok = Some y \<and> (\<forall>v. y = Inr v \<longrightarrow> page_ok v)"
proof -
  obtain ents eof where r: "r_readdir res k = Some (ents, eof)" "list_all entry_ok ents"
    using accessors_total [OF assms(1-3)] assms(4) by blast
  obtain y where "collect_readdir (ents, eof) = Some y" "\<forall>out cookie. y = Inr (out, cookie) \<longrightarrow> page_ok (out, cookie)"
    using collect_readdir_spec [OF r(2), of eof] by blast
  with r(1) show ?thesis by (metis prod.exhaust)
qed

lemma pages_read:
  "reads_pages (dir_page_item attrs) 2
     (\<lambda>res i. case r_readdir res (2 + 2 * i) of None \<Rightarrow> None | Some ok \<Rightarrow> collect_readdir ok) page_ok"
  unfolding reads_pages_def extracts_good_def
proof (intro conjI allI impI; (elim conjE)?)
  fix d m len :: nat and req res i op
  assume a: "accepts req res" "decoded res" "\<forall>j < 2. op_status res (1 + 2 * i + j) = Some NFS_OK"
    "take 2 (drop (1 + 2 * i) req) = dir_page_item attrs d m op"
  have "op_status res (2 + 2 * i) = Some NFS_OK" using a(3) [rule_format, of 1] by simp
  moreover have "argop (req ! (2 + 2 * i)) = NFS4_OP_READDIR" using item_op [OF a(4), of 1] by (simp add: dir_page_item_def)
  ultimately obtain ok y where "r_readdir res (2 + 2 * i) = Some ok" "collect_readdir ok = Some y" "\<forall>v. y = Inr v \<longrightarrow> page_ok v"
    using item_page [OF a(1,2)] by blast
  then show "\<exists>x. (case r_readdir res (2 + 2 * i) of None \<Rightarrow> None | Some ok \<Rightarrow> collect_readdir ok) = Some x \<and>
      (\<forall>v. x = Inr v \<longrightarrow> page_ok v)" by auto
qed (auto dest: collect_readdir_error split: option.splits)

lemma children_read:
  "reads_pages (child_dir_item attrs) 4 child_page (\<lambda>l. page_ok (cl_entries l, cl_cookie l))"
  unfolding reads_pages_def extracts_good_def
proof (intro conjI allI impI; (elim conjE)?)
  fix d m len :: nat and req res i op
  assume a: "accepts req res" "decoded res" "\<forall>j < 4. op_status res (1 + 4 * i + j) = Some NFS_OK"
    "take 4 (drop (1 + 4 * i) req) = child_dir_item attrs d m op"
  have st: "op_status res (3 + 4 * i) = Some NFS_OK" "op_status res (4 + 4 * i) = Some NFS_OK"
    using a(3) [rule_format, of 2] a(3) [rule_format, of 3] by (simp_all add: eval_nat_numeral)
  have op: "argop (req ! (3 + 4 * i)) = NFS4_OP_GETFH" "argop (req ! (4 + 4 * i)) = NFS4_OP_READDIR"
    using item_op [OF a(4), of 2] item_op [OF a(4), of 3] by (simp_all add: child_dir_item_def eval_nat_numeral)
  obtain fh where "r_getfh res (3 + 4 * i) = Some fh" using accessors_total [OF a(1,2) st(1)] op(1) by blast
  moreover obtain ok y where "r_readdir res (4 + 4 * i) = Some ok" "collect_readdir ok = Some y" "\<forall>v. y = Inr v \<longrightarrow> page_ok v"
    using item_page [OF a(1,2) st(2) op(2)] by blast
  ultimately show "\<exists>x. child_page res i = Some x \<and> (\<forall>v. x = Inr v \<longrightarrow> page_ok (cl_entries v, cl_cookie v))"
    by (cases y) (auto simp: child_page_def)
next
  fix res i e assume "child_page res i = Some (Inl e)"
  then obtain ok z fh where "collect_readdir ok = Some z"
    "map_sum id (\<lambda>(entries, cookie). \<lparr> cl_fh = fh, cl_entries = entries, cl_cookie = cookie \<rparr>) z = Inl e"
    by (auto simp: child_page_def split: option.splits)
  then show "rpc_is_transport e" by (cases z) (auto dest: collect_readdir_error)
qed

section \<open>Properties\<close>

text \<open>C10 (directory pages).  Reading the pages of many directories always ends; if it succeeds
  there is one page per directory and every name of a page is a single component
  other than the dot names, whatever the server sent: joined to its directory it
  names an object directly below it.\<close>

theorem directory_pages_safe:
  assumes "decoded_transport tp" "client_ok cl"
  shows "(case snd (readdir_children_bounded tp children attrs max_page_bytes (cl, w)) of
      Done ls \<Rightarrow> length ls = length children \<and> list_all (\<lambda>l. list_all (\<lambda>ent. safe_name (de_name ent)) (cl_entries l)) ls
    | Fail e \<Rightarrow> True | Stuck \<Rightarrow> False) \<and>
   (case snd (readdir_pages_bounded tp dirs attrs max_page_bytes (cl, w)) of
      Done pages \<Rightarrow> length pages = length dirs \<and> list_all (\<lambda>(ents, cookie). list_all (\<lambda>ent. safe_name (de_name ent)) ents) pages
    | Fail e \<Rightarrow> True | Stuck \<Rightarrow> False)"
proof
  show "case snd (readdir_children_bounded tp children attrs max_page_bytes (cl, w)) of
      Done ls \<Rightarrow> length ls = length children \<and> list_all (\<lambda>l. list_all (\<lambda>ent. safe_name (de_name ent)) (cl_entries l)) ls
    | Fail e \<Rightarrow> True | Stuck \<Rightarrow> False"
    using paged_read_result [OF children_read [of attrs] dir_items(1) assms, where ?tag = "''readdir_children''" and ?ops = children
      and ?max_page_bytes = max_page_bytes and ?w = w]
    by (auto simp: readdir_children_bounded_def page_ok_def split: outcome.splits)
  show "case snd (readdir_pages_bounded tp dirs attrs max_page_bytes (cl, w)) of
      Done pages \<Rightarrow> length pages = length dirs \<and> list_all (\<lambda>(ents, cookie). list_all (\<lambda>ent. safe_name (de_name ent)) ents) pages
    | Fail e \<Rightarrow> True | Stuck \<Rightarrow> False"
    using paged_read_result [OF pages_read [of attrs] dir_items(2) assms, where ?tag = "''readdir_pages''" and ?ops = dirs
      and ?max_page_bytes = max_page_bytes and ?w = w]
    by (auto simp: readdir_pages_bounded_def page_ok_def list_all_iff split: outcome.splits)
qed

theorem directory_pages_safe_witness:
  "case snd (readdir_pages_bounded granting_server [(''d'', 0)] [] 4096 (fresh_client, ())) of
      Done pages \<Rightarrow> length pages = 1
    | Fail e \<Rightarrow> True | Stuck \<Rightarrow> False"
  using directory_pages_safe [OF granting_server_decoded fresh_client_ok, of "[]" "[]" 4096 "()" "[(''d'', 0)]"]
  by (auto split: outcome.splits)

text \<open>The position of an error counts from the first directory of the request that failed.  With
  one directory per request every failed directory is reported as the first of the
  caller's list.\<close>

lemma page_errors_chunk_local:
  assumes "decoded_transport tp" "client_ok cl" "nc_max_ops cl < 5"
    and "snd (readdir_pages tp dirs attrs (cl, w)) = Fail e" "\<not> rpc_is_transport e"
  shows "re_op_index e = 0"
  using paged_read_result [OF pages_read [of attrs] dir_items(2) assms(1,2), where ?tag = "''readdir_pages''" and ?ops = dirs
      and ?max_page_bytes = usize_max and ?w = w] assms(3-)
  by (simp add: readdir_pages_def readdir_pages_bounded_def) linarith

end
