(* ===== verification/Nfs_Cursor.thy ===== *)
theory Nfs_Cursor
  imports Nfs_Pages
begin

text \<open>
  Moving between directories inside one COMPOUND and ordering writes: \<^verbatim>\<open>CfhCursor\<close> and
  \<^verbatim>\<open>WriteWaveAccess\<close> of \<^verbatim>\<open>crates/vfsi-nfs/src/client.rs\<close>.

  The cursor remembers the directory in the saved file handle of the server and
  appends the operations that make the parent of a path the current file handle.
  A server's two file handles are represented by the absolute component lists of
  the directories they stand for; \<open>move\<close> is what the navigation operations do to
  them.
\<close>

section \<open>The cursor\<close>

record CfhCursor =
  cu_saved_dir :: "bytes option"
  cu_at_saved :: bool

definition cursor_default :: CfhCursor where
  "cursor_default = \<lparr> cu_saved_dir = None, cu_at_saved = False \<rparr>"

fun common_prefix_len :: "'a list \<Rightarrow> 'a list \<Rightarrow> nat" where
  "common_prefix_len (x # xs) (y # ys) = (if x = y then 1 + common_prefix_len xs ys else 0)"
| "common_prefix_len _ _ = 0"

text \<open>\<^verbatim>\<open>for _ in 0..ups { c.lookupp() }\<close>.\<close>

definition add_lookupps :: "Compound \<Rightarrow> nat \<Rightarrow> Compound" where
  "add_lookupps c ups = (c_lookupp ^^ ups) c"

text \<open>Go back to the saved directory, counting the operations.\<close>

definition restore_saved :: "CfhCursor \<Rightarrow> Compound \<Rightarrow> nat \<times> CfhCursor \<times> Compound" where
  "restore_saved cu c =
     (if \<not> cu_at_saved cu then (1, cu \<lparr> cu_at_saved := True \<rparr>, c_restorefh c) else (0, cu, c))"

definition walk_from_root :: "CfhCursor \<Rightarrow> Compound \<Rightarrow> bytes \<Rightarrow> nat \<times> CfhCursor \<times> Compound" where
  "walk_from_root cu c dir =
     (1 + length (path_components dir), cu \<lparr> cu_at_saved := False \<rparr>,
      add_lookups (c_putrootfh c) (path_components dir))"

definition walk_parent :: "CfhCursor \<Rightarrow> Compound \<Rightarrow> bytes \<Rightarrow> nat \<times> CfhCursor \<times> Compound" where
  "walk_parent cu c dir =
     (if cu_saved_dir cu = Some dir then restore_saved cu c
      else case cu_saved_dir cu of
             None \<Rightarrow> walk_from_root cu c dir
           | Some saved \<Rightarrow>
               let saved_comps = path_components saved;
                   target_comps = path_components dir;
                   common = common_prefix_len saved_comps target_comps;
                   ups = length saved_comps - common;
                   target_count = length target_comps;
                   downs = target_count - common
               in if ups + downs < 1 + target_count
                  then case restore_saved cu c of
                         (ops, cu, c) \<Rightarrow>
                           (ops + ups + downs, cu \<lparr> cu_at_saved := False \<rparr>,
                            add_lookups (add_lookupps c ups) (drop common target_comps))
                  else walk_from_root cu c dir)"

definition set_parent :: "CfhCursor \<Rightarrow> Compound \<Rightarrow> bytes \<Rightarrow> (bytes \<times> nat \<times> CfhCursor \<times> Compound) option" where
  "set_parent cu c path =
     (case split_path_bytes path of
        None \<Rightarrow> None
      | Some (dir, leaf) \<Rightarrow>
          (case walk_parent cu c dir of
             (ops, cu', c') \<Rightarrow>
               Some (if cu_saved_dir cu \<noteq> Some dir
                     then (leaf, ops + 1, \<lparr> cu_saved_dir = Some dir, cu_at_saved = True \<rparr>, c_savefh c')
                     else (leaf, ops, cu', c'))))"

definition set_current_parent :: "CfhCursor \<Rightarrow> Compound \<Rightarrow> bytes \<Rightarrow> (bytes \<times> nat \<times> CfhCursor \<times> Compound) option" where
  "set_current_parent cu c path =
     (case split_path_bytes path of
        None \<Rightarrow> None
      | Some (dir, leaf) \<Rightarrow> Some (leaf, walk_parent cu c dir))"

definition set_handle :: "CfhCursor \<Rightarrow> Compound \<Rightarrow> bytes \<Rightarrow> CfhCursor \<times> Compound" where
  "set_handle cu c fh = (cu \<lparr> cu_at_saved := False \<rparr>, c_putfh c fh)"

definition descend :: "CfhCursor \<Rightarrow> CfhCursor" where
  "descend cu = cu \<lparr> cu_at_saved := False \<rparr>"

section \<open>Ordering writes\<close>

text \<open>The overlap index is a \<^verbatim>\<open>BTreeMap\<close>: a list of starts and ends, sorted by start.\<close>

record WriteWaveAccess =
  ww_positional :: bool
  ww_first :: "nat \<times> nat"
  ww_additional :: "(nat \<times> nat) list"

definition range_empty :: "nat \<times> nat \<Rightarrow> bool" where
  "range_empty r \<longleftrightarrow> \<not> fst r < snd r"

definition wave_new :: "nat \<times> nat \<Rightarrow> bool \<Rightarrow> WriteWaveAccess" where
  "wave_new rng positional = \<lparr> ww_positional = positional, ww_first = rng, ww_additional = [] \<rparr>"

fun btree_insert :: "nat \<Rightarrow> 'v \<Rightarrow> (nat \<times> 'v) list \<Rightarrow> (nat \<times> 'v) list" where
  "btree_insert k v [] = [(k, v)]"
| "btree_insert k v ((k', v') # rest) =
     (if k < k' then (k, v) # (k', v') # rest
      else if k = k' then (k, v) # rest
      else (k', v') # btree_insert k v rest)"

text \<open>\<^verbatim>\<open>range(..bound).next_back()\<close>: the entry with the greatest key below the bound.\<close>

definition btree_last_below :: "nat \<Rightarrow> (nat \<times> 'v) list \<Rightarrow> (nat \<times> 'v) option" where
  "btree_last_below bound t =
     (case takeWhile (\<lambda>(k, _). k < bound) t of [] \<Rightarrow> None | below \<Rightarrow> Some (last below))"

definition wave_admit :: "WriteWaveAccess \<Rightarrow> nat \<times> nat \<Rightarrow> bool \<Rightarrow> WriteWaveAccess \<times> bool" where
  "wave_admit w rng positional =
     (if \<not> ww_positional w \<or> \<not> positional then (w, False)
      else if range_empty rng then (w, True)
      else if \<not> range_empty (ww_first w) \<and> fst rng < snd (ww_first w) \<and> fst (ww_first w) < snd rng
      then (w, False)
      else if (case btree_last_below (snd rng) (ww_additional w) of None \<Rightarrow> False | Some (_, e) \<Rightarrow> fst rng < e)
      then (w, False)
      else (w \<lparr> ww_additional := btree_insert (fst rng) (snd rng) (ww_additional w) \<rparr>, True))"

section \<open>Where the cursor leads\<close>

text \<open>The current and the saved file handle of a server: an object of the tree, given by its
  absolute component list, or a handle the client obtained earlier.  An operation
  that has no such object to work on leaves nothing known.\<close>

datatype place = Below "bytes list" | Opened bytes

record registers =
  rg_current :: "place option"
  rg_saved :: "place option"

abbreviation at_dir :: "bytes list \<Rightarrow> place option" where
  "at_dir dir \<equiv> Some (Below dir)"

fun child_place :: "bytes \<Rightarrow> place \<Rightarrow> place option" where
  "child_place name (Below dir) = at_dir (dir @ [name])"
| "child_place name (Opened fh) = None"

fun parent_place :: "place \<Rightarrow> place option" where
  "parent_place (Below dir) = (if dir = [] then None else at_dir (butlast dir))"
| "parent_place (Opened fh) = None"

definition no_handles :: registers where
  "no_handles = \<lparr> rg_current = None, rg_saved = None \<rparr>"

fun move :: "nfs_argop4 \<Rightarrow> registers \<Rightarrow> registers" where
  "move A_PutRootFh r = r \<lparr> rg_current := at_dir [] \<rparr>"
| "move (A_Lookup name) r = r \<lparr> rg_current := Option.bind (rg_current r) (child_place name) \<rparr>"
| "move A_LookupP r = r \<lparr> rg_current := Option.bind (rg_current r) parent_place \<rparr>"
| "move A_SaveFh r = r \<lparr> rg_saved := rg_current r \<rparr>"
| "move A_RestoreFh r = r \<lparr> rg_current := rg_saved r \<rparr>"
| "move (A_PutFh fh) r = r \<lparr> rg_current := Some (Opened fh) \<rparr>"
| "move (A_Open args) r = r \<lparr> rg_current := None \<rparr>"
| "move _ r = r"

definition moves :: "nfs_argop4 list \<Rightarrow> registers \<Rightarrow> registers" where
  "moves ops r = fold move ops r"

lemma moves_simps [simp]:
  "moves [] r = r" "moves (op # ops) r = moves ops (move op r)" "moves (xs @ ys) r = moves ys (moves xs r)"
  by (simp_all add: moves_def)

text \<open>What the cursor knows of the handles.\<close>

definition tracks :: "CfhCursor \<Rightarrow> registers \<Rightarrow> bool" where
  "tracks cu r \<longleftrightarrow>
     (\<forall>dir. cu_saved_dir cu = Some dir \<longrightarrow> rg_saved r = at_dir (path_components dir)) \<and>
     (cu_at_saved cu \<longrightarrow> cu_saved_dir cu \<noteq> None \<and> rg_current r = rg_saved r)"

definition navigation :: "nfs_argop4 \<Rightarrow> bool" where
  "navigation op \<longleftrightarrow> (case op of A_PutRootFh \<Rightarrow> True | A_Lookup _ \<Rightarrow> True | A_LookupP \<Rightarrow> True | A_SaveFh \<Rightarrow> True
     | A_RestoreFh \<Rightarrow> True | A_PutFh _ \<Rightarrow> True | _ \<Rightarrow> False)"

text \<open>Operations appended to a compound.\<close>

definition appends :: "Compound \<Rightarrow> nfs_argop4 list \<Rightarrow> Compound \<Rightarrow> bool" where
  "appends c ops c' \<longleftrightarrow> cp_ops c' = cp_ops c @ ops \<and> cp_tag c' = cp_tag c \<and>
     (cp_size_check c = None \<longrightarrow> cp_size_check c' = None)"

lemma moves_lookups: "rg_current r = at_dir d \<Longrightarrow> moves (map A_Lookup cs) r = r \<lparr> rg_current := at_dir (d @ cs) \<rparr>"
  by (induction cs arbitrary: r d) (simp_all add: registers.splits)

lemma moves_lookupps:
  "rg_current r = at_dir d \<Longrightarrow> n \<le> length d \<Longrightarrow> moves (replicate n A_LookupP) r = r \<lparr> rg_current := at_dir (take (length d - n) d) \<rparr>"
proof (induction n arbitrary: r d)
  case (Suc n)
  then have d: "d \<noteq> []" "n \<le> length (butlast d)" by auto
  have "moves (replicate (Suc n) A_LookupP) r = moves (replicate n A_LookupP) (r \<lparr> rg_current := at_dir (butlast d) \<rparr>)"
    using Suc.prems(1) d(1) by simp
  also have "\<dots> = r \<lparr> rg_current := at_dir (take (length (butlast d) - n) (butlast d)) \<rparr>"
    using Suc.IH [of "r \<lparr> rg_current := at_dir (butlast d) \<rparr>" "butlast d"] d(2) by simp
  also have "take (length (butlast d) - n) (butlast d) = take (length d - Suc n) d"
    by (simp add: butlast_conv_take)
  finally show ?case .
qed simp

lemma add_lookupps_appends: "appends c (replicate ups A_LookupP) (add_lookupps c ups)"
  by (induction ups) (auto simp: appends_def add_lookupps_def c_lookupp_def push_def replicate_append_same [symmetric])

lemma appends_trans: "appends c xs c' \<Longrightarrow> appends c' ys c'' \<Longrightarrow> appends c (xs @ ys) c''"
  by (auto simp: appends_def)

lemma add_lookups_appends: "appends c (map A_Lookup cs) (add_lookups c cs)"
  using add_lookups_ops [of c cs] by (simp add: appends_def)

lemma push_appends: "appends c [op] (push c op)"
  by (simp add: appends_def push_def)

lemma common_prefix_len_le: "common_prefix_len xs ys \<le> length xs" "common_prefix_len xs ys \<le> length ys"
  by (induction xs ys rule: common_prefix_len.induct) auto

lemma common_prefix_take: "take (common_prefix_len xs ys) xs = take (common_prefix_len xs ys) ys"
  by (induction xs ys rule: common_prefix_len.induct) auto

text \<open>A walk: the operations it appends lead to the directory.\<close>

definition leads ::
  "CfhCursor \<Rightarrow> Compound \<Rightarrow> registers \<Rightarrow> bytes list \<Rightarrow> nat \<times> CfhCursor \<times> Compound \<Rightarrow> bool" where
  "leads cu c r target w \<longleftrightarrow>
     (case w of (n, cu', c') \<Rightarrow>
        \<exists>ops. appends c ops c' \<and> length ops = n \<and> list_all navigation ops \<and>
          moves ops r = r \<lparr> rg_current := at_dir target \<rparr> \<and>
          tracks cu' (r \<lparr> rg_current := at_dir target \<rparr>) \<and> cu_saved_dir cu' = cu_saved_dir cu)"

lemma restore_saved_leads:
  assumes "tracks cu r" "cu_saved_dir cu = Some dir"
  shows "leads cu c r (path_components dir) (restore_saved cu c)" "fst (restore_saved cu c) \<le> 1"
proof -
  have saved: "rg_saved r = at_dir (path_components dir)" using assms by (simp add: tracks_def)
  show "leads cu c r (path_components dir) (restore_saved cu c)"
  proof (cases "cu_at_saved cu")
    case True
    then have "rg_current r = at_dir (path_components dir)" using assms(1) saved by (simp add: tracks_def)
    then have "r \<lparr> rg_current := at_dir (path_components dir) \<rparr> = r" by simp
    with True assms(1) show ?thesis by (auto simp: leads_def restore_saved_def appends_def)
  next
    case False
    have "appends c [A_RestoreFh] (c_restorefh c)" by (simp add: c_restorefh_def push_appends)
    moreover have "tracks (cu \<lparr> cu_at_saved := True \<rparr>) (r \<lparr> rg_current := at_dir (path_components dir) \<rparr>)"
      using assms saved by (simp add: tracks_def)
    ultimately show ?thesis using False saved
      unfolding leads_def restore_saved_def by (auto simp: navigation_def intro!: exI [of _ "[A_RestoreFh]"])
  qed
qed (simp add: restore_saved_def)

lemma walk_from_root_leads:
  assumes "tracks cu r"
  shows "leads cu c r (path_components dir) (walk_from_root cu c dir)"
proof -
  let ?cs = "path_components dir"
  have "appends c ([A_PutRootFh] @ map A_Lookup ?cs) (add_lookups (c_putrootfh c) ?cs)"
    by (rule appends_trans [OF _ add_lookups_appends]) (simp add: c_putrootfh_def push_appends)
  moreover have "moves ([A_PutRootFh] @ map A_Lookup ?cs) r = r \<lparr> rg_current := at_dir ?cs \<rparr>"
    using moves_lookups [of "r \<lparr> rg_current := at_dir [] \<rparr>" "[]" ?cs] by simp
  moreover have "list_all navigation ([A_PutRootFh] @ map A_Lookup ?cs)" by (simp add: navigation_def list_all_iff)
  moreover have "tracks (cu \<lparr> cu_at_saved := False \<rparr>) (r \<lparr> rg_current := at_dir ?cs \<rparr>)" using assms by (simp add: tracks_def)
  ultimately show ?thesis unfolding leads_def walk_from_root_def by (auto intro!: exI [of _ "[A_PutRootFh] @ map A_Lookup ?cs"])
qed

lemma leads_trans:
  assumes "leads cu c r saved (n, cu1, c1)" "appends c1 ops c2" "list_all navigation ops"
    "moves ops (r \<lparr> rg_current := at_dir saved \<rparr>) = r \<lparr> rg_current := at_dir target \<rparr>"
  shows "leads cu c r target (n + length ops, cu1 \<lparr> cu_at_saved := False \<rparr>, c2)"
proof -
  obtain xs where "appends c xs c1" "length xs = n" "list_all navigation xs" "moves xs r = r \<lparr> rg_current := at_dir saved \<rparr>"
    "tracks cu1 (r \<lparr> rg_current := at_dir saved \<rparr>)" "cu_saved_dir cu1 = cu_saved_dir cu"
    using assms(1) by (auto simp: leads_def)
  with assms(2-4) show ?thesis unfolding leads_def
    by (auto simp: tracks_def intro!: exI [of _ "xs @ ops"] dest: appends_trans)
qed

lemma walk_parent_leads:
  assumes "tracks cu r"
  shows "leads cu c r (path_components dir) (walk_parent cu c dir)"
    and "fst (walk_parent cu c dir) \<le> 1 + length (path_components dir)"
proof -
  let ?target = "path_components dir"
  have "leads cu c r ?target (walk_parent cu c dir) \<and> fst (walk_parent cu c dir) \<le> 1 + length ?target"
  proof (cases "cu_saved_dir cu")
    case None
    then show ?thesis using walk_from_root_leads [OF assms] by (simp add: walk_parent_def walk_from_root_def)
  next
    case (Some saved)
    let ?saved = "path_components saved"
    define common where "common = common_prefix_len ?saved ?target"
    define ups where "ups = length ?saved - common"
    define downs where "downs = length ?target - common"
    note prefix = common_prefix_len_le [of ?saved ?target, folded common_def] common_prefix_take [of ?saved ?target, folded common_def]
    obtain n cu1 c1 where res: "restore_saved cu c = (n, cu1, c1)" by (metis prod.exhaust)
    note home = restore_saved_leads [OF assms Some, of c, unfolded res fst_conv]
    consider "saved = dir" | "saved \<noteq> dir" "ups + downs < 1 + length ?target" | "saved \<noteq> dir" "\<not> ups + downs < 1 + length ?target"
      by blast
    then show ?thesis
    proof cases
      case 1
      then show ?thesis using Some home res by (simp add: walk_parent_def)
    next
      case 2
      let ?ops = "replicate ups A_LookupP @ map A_Lookup (drop common ?target)"
      have "appends c1 ?ops (add_lookups (add_lookupps c1 ups) (drop common ?target))"
        by (rule appends_trans [OF add_lookupps_appends add_lookups_appends])
      moreover have "moves ?ops (r \<lparr> rg_current := at_dir ?saved \<rparr>) = r \<lparr> rg_current := at_dir ?target \<rparr>"
      proof -
        have up: "moves (replicate ups A_LookupP) (r \<lparr> rg_current := at_dir ?saved \<rparr>) = r \<lparr> rg_current := at_dir (take common ?saved) \<rparr>"
          using moves_lookupps [of "r \<lparr> rg_current := at_dir ?saved \<rparr>" ?saved ups] prefix(1) by (simp add: ups_def)
        have "moves ?ops (r \<lparr> rg_current := at_dir ?saved \<rparr>) = r \<lparr> rg_current := at_dir (take common ?saved @ drop common ?target) \<rparr>"
          using moves_lookups [of "r \<lparr> rg_current := at_dir (take common ?saved) \<rparr>" "take common ?saved" "drop common ?target"]
          by (simp add: up)
        then show ?thesis by (simp add: prefix(3))
      qed
      moreover have "list_all navigation ?ops" by (auto simp: navigation_def list_all_iff in_set_replicate)
      ultimately have "leads cu c r ?target (n + length ?ops, cu1 \<lparr> cu_at_saved := False \<rparr>,
          add_lookups (add_lookupps c1 ups) (drop common ?target))"
        by (intro leads_trans [OF home(1)])
      moreover have "length ?ops = ups + downs" by (simp add: downs_def)
      moreover have "walk_parent cu c dir = (n + ups + downs, cu1 \<lparr> cu_at_saved := False \<rparr>,
          add_lookups (add_lookupps c1 ups) (drop common ?target))"
        using 2 Some res by (simp add: walk_parent_def Let_def common_def ups_def downs_def)
      ultimately show ?thesis using home(2) 2(2) by (simp add: add.assoc)
    next
      case 3
      then have "walk_parent cu c dir = walk_from_root cu c dir"
        by (simp only: walk_parent_def Some option.case option.inject Let_def common_def [symmetric] ups_def [symmetric]
            downs_def [symmetric] if_False)
      then show ?thesis using walk_from_root_leads [OF assms] by (simp add: walk_from_root_def)
    qed
  qed
  then show "leads cu c r ?target (walk_parent cu c dir)" "fst (walk_parent cu c dir) \<le> 1 + length ?target" by simp_all
qed

lemma path_components_split:
  assumes "split_path_bytes path = Some (dir, leaf)"
  shows "path_components path = path_components dir @ [leaf]"
  using split_path_bytes_cases(3) [OF assms] by (simp add: path_components_def comps_def)

lemma set_current_parent_leads:
  assumes "tracks cu r" "set_current_parent cu c path = Some (leaf, w)"
  shows "leads cu c r (butlast (path_components path)) w \<and> leaf = last (path_components path) \<and>
    path_components path \<noteq> [] \<and> fst w \<le> length (path_components path)"
proof -
  obtain dir where dir: "split_path_bytes path = Some (dir, leaf)" "w = walk_parent cu c dir"
    using assms(2) by (auto simp: set_current_parent_def split: option.splits prod.splits)
  show ?thesis using walk_parent_leads [OF assms(1), of c dir] path_components_split [OF dir(1)] dir(2) by simp
qed

text \<open>After \<^verbatim>\<open>set_parent\<close> the parent is both the current and the saved directory, at the price
  of at most one operation more than the components of the path.\<close>

lemma set_parent_leads:
  assumes track: "tracks cu r" and set: "set_parent cu c path = Some (leaf, n, cu', c')"
  shows "\<exists>ops. appends c ops c' \<and> length ops = n \<and> list_all navigation ops \<and>
      (let r' = \<lparr> rg_current = at_dir (butlast (path_components path)), rg_saved = at_dir (butlast (path_components path)) \<rparr>
       in moves ops r = r' \<and> tracks cu' r') \<and>
      cu_at_saved cu' \<and> leaf = last (path_components path) \<and> path_components path \<noteq> [] \<and>
      n \<le> 1 + length (path_components path)"
proof -
  obtain dir where dir: "split_path_bytes path = Some (dir, leaf)"
    using set by (auto simp: set_parent_def split: option.splits prod.splits if_splits)
  note comps = path_components_split [OF dir]
  let ?dir = "path_components dir"
  obtain m cu1 c1 where w: "walk_parent cu c dir = (m, cu1, c1)" by (metis prod.exhaust)
  note walk = walk_parent_leads [OF track, of c dir, unfolded w fst_conv]
  obtain ops where ops: "appends c ops c1" "length ops = m" "list_all navigation ops"
    "moves ops r = r \<lparr> rg_current := at_dir ?dir \<rparr>" "tracks cu1 (r \<lparr> rg_current := at_dir ?dir \<rparr>)"
    using walk(1) by (auto simp: leads_def)
  show ?thesis
  proof (cases "cu_saved_dir cu = Some dir")
    case True
    have "rg_saved r = at_dir ?dir" using track True by (simp add: tracks_def)
    then have "r \<lparr> rg_current := at_dir ?dir \<rparr> = \<lparr> rg_current = at_dir ?dir, rg_saved = at_dir ?dir \<rparr>" by simp
    moreover have "cu_at_saved cu1" using w True by (auto simp: walk_parent_def restore_saved_def split: if_splits)
    ultimately show ?thesis using set dir w True ops walk(2) comps by (auto simp: set_parent_def intro!: exI [of _ ops])
  next
    case False
    then have "c' = c_savefh c1" "n = m + 1" "cu' = \<lparr> cu_saved_dir = Some dir, cu_at_saved = True \<rparr>"
      using set dir w by (auto simp: set_parent_def)
    moreover have "appends c (ops @ [A_SaveFh]) (c_savefh c1)"
      by (rule appends_trans [OF ops(1)]) (simp add: c_savefh_def push_appends)
    ultimately show ?thesis using ops walk(2) comps
      by (auto simp: tracks_def navigation_def intro!: exI [of _ "ops @ [A_SaveFh]"])
  qed
qed

section \<open>Which writes may share a wave\<close>

definition overlap :: "nat \<times> nat \<Rightarrow> nat \<times> nat \<Rightarrow> bool" where
  "overlap a b \<longleftrightarrow> (\<exists>x. fst a \<le> x \<and> x < snd a \<and> fst b \<le> x \<and> x < snd b)"

lemma overlap_iff: "overlap a b \<longleftrightarrow> max (fst a) (fst b) < min (snd a) (snd b)"
proof
  assume "max (fst a) (fst b) < min (snd a) (snd b)"
  then show "overlap a b" unfolding overlap_def by (intro exI [of _ "max (fst a) (fst b)"]) auto
qed (auto simp: overlap_def)

text \<open>The index: its ranges are not empty, sorted by start and disjoint.\<close>

definition index_ok :: "(nat \<times> nat) list \<Rightarrow> bool" where
  "index_ok t \<longleftrightarrow> sorted_wrt (\<lambda>a b. snd a \<le> fst b) t \<and> (\<forall>r \<in> set t. fst r < snd r)"

lemma last_below_overlap:
  assumes "index_ok t" "fst rng < snd rng"
  shows "(case btree_last_below (snd rng) t of None \<Rightarrow> False | Some (_, e) \<Rightarrow> fst rng < e) \<longleftrightarrow> (\<exists>r \<in> set t. overlap rng r)"
  using assms(1)
proof (induction t)
  case (Cons r rest)
  obtain a b where r: "r = (a, b)" by fastforce
  have ok: "index_ok rest" "a < b" "\<forall>q \<in> set rest. b \<le> fst q \<and> fst q < snd q"
    using Cons.prems by (auto simp: index_ok_def r)
  let ?below = "takeWhile (\<lambda>(k, _). k < snd rng) rest"
  consider (out) "\<not> a < snd rng" | (last) "a < snd rng" "?below = []" | (more) "a < snd rng" "?below \<noteq> []" by blast
  then show ?case
  proof cases
    case "out"
    then have "\<not> overlap rng q" if "q \<in> set (r # rest)" for q using that ok by (fastforce simp: overlap_iff r)
    then show ?thesis using "out" by (auto simp: btree_last_below_def r)
  next
    case last
    have "\<not> overlap rng q" if "q \<in> set rest" for q
    proof (cases rest)
      case (Cons q0 qs)
      then have "snd rng \<le> fst q0" using last(2) by (auto split: if_splits prod.splits)
      moreover have "fst q0 \<le> fst q" using ok(1) that Cons by (fastforce simp: index_ok_def)
      ultimately show ?thesis by (auto simp: overlap_iff)
    qed (use that in simp)
    then show ?thesis using last assms(2) ok(2) by (auto simp: btree_last_below_def r overlap_iff)
  next
    case more
    then obtain q0 qs where rest: "rest = q0 # qs" "fst q0 < snd rng" by (cases rest) (auto split: if_splits)
    have "btree_last_below (snd rng) (r # rest) = btree_last_below (snd rng) rest"
      using more by (auto simp: btree_last_below_def r split: list.split)
    moreover have "overlap rng q0" if "overlap rng r"
      using that rest ok(3) assms(2) by (auto simp: overlap_iff r)
    ultimately show ?thesis using Cons.IH [OF ok(1)] rest(1) by auto
  qed
qed (simp add: btree_last_below_def)

lemma btree_insert_set:
  assumes "\<forall>q \<in> set t. fst q \<noteq> k"
  shows "set (btree_insert k v t) = insert (k, v) (set t)"
  using assms
proof (induction t)
  case (Cons q t)
  then show ?case by (cases q) (simp add: insert_commute)
qed simp

lemma btree_insert_ok:
  assumes "index_ok t" "fst rng < snd rng" "\<forall>r \<in> set t. \<not> overlap rng r"
  shows "index_ok (btree_insert (fst rng) (snd rng) t)"
  using assms(1,3)
proof (induction t)
  case (Cons r rest)
  obtain a b where r: "r = (a, b)" by fastforce
  have ok: "index_ok rest" "a < b" "\<forall>q \<in> set rest. b \<le> fst q \<and> fst q < snd q"
    using Cons.prems(1) by (auto simp: index_ok_def r)
  have "\<not> overlap rng r" using Cons.prems(2) by simp
  then have apart: "snd rng \<le> a \<or> b \<le> fst rng" unfolding overlap_iff r using ok(2) assms(2) by (simp add: not_less)
  show ?case
  proof (cases "fst rng < a")
    case True
    then have "snd rng \<le> a" using apart ok(2) by linarith
    moreover from this have "snd rng \<le> fst q" if "q \<in> set rest" for q
      using ok(2) ok(3) [rule_format, OF that] by linarith
    ultimately show ?thesis using True Cons.prems(1) assms(2) by (simp add: index_ok_def r)
  next
    case False
    then have "b \<le> fst rng" "fst rng \<noteq> a" using apart assms(2) ok(2) by linarith+
    moreover have "\<forall>q \<in> set rest. fst q \<noteq> fst rng"
    proof
      fix q assume q: "q \<in> set rest"
      then have "\<not> overlap rng q" using Cons.prems(2) by simp
      then show "fst q \<noteq> fst rng" using ok(3) [rule_format, OF q] assms(2) by (auto simp: overlap_iff)
    qed
    ultimately show ?thesis
      using False ok(2,3) Cons.IH [OF ok(1)] Cons.prems(2) btree_insert_set [of rest "fst rng" "snd rng"]
      by (simp add: index_ok_def r)
  qed
qed (simp add: index_ok_def assms(2))

text \<open>The reference: compare with every range admitted so far.\<close>

fun admit_naively :: "bool \<Rightarrow> (nat \<times> nat) list \<Rightarrow> ((nat \<times> nat) \<times> bool) list \<Rightarrow> bool list" where
  "admit_naively positional admitted [] = []"
| "admit_naively positional admitted ((rng, p) # requests) =
     (if positional \<and> p \<and> list_all (\<lambda>r. \<not> overlap rng r) admitted
      then True # admit_naively positional (rng # admitted) requests
      else False # admit_naively positional admitted requests)"

fun admit_all :: "WriteWaveAccess \<Rightarrow> ((nat \<times> nat) \<times> bool) list \<Rightarrow> bool list" where
  "admit_all w [] = []"
| "admit_all w ((rng, p) # requests) = (case wave_admit w rng p of (w', yes) \<Rightarrow> yes # admit_all w' requests)"

definition wave_holds :: "WriteWaveAccess \<Rightarrow> (nat \<times> nat) list \<Rightarrow> bool" where
  "wave_holds w admitted \<longleftrightarrow> index_ok (ww_additional w) \<and>
     {r \<in> set admitted. \<not> range_empty r} = {r \<in> insert (ww_first w) (set (ww_additional w)). \<not> range_empty r}"

lemma overlap_empty: "range_empty a \<or> range_empty b \<Longrightarrow> \<not> overlap a b"
  by (auto simp: overlap_iff range_empty_def)

lemma wave_conflict:
  assumes "wave_holds w admitted"
  shows "list_all (\<lambda>r. \<not> overlap rng r) admitted \<longleftrightarrow>
    \<not> overlap rng (ww_first w) \<and> (\<forall>r \<in> set (ww_additional w). \<not> overlap rng r)"
proof -
  have "(\<forall>r \<in> set admitted. \<not> overlap rng r) \<longleftrightarrow> (\<forall>r \<in> {r \<in> set admitted. \<not> range_empty r}. \<not> overlap rng r)"
    using overlap_empty by blast
  also have "\<dots> \<longleftrightarrow> (\<forall>r \<in> insert (ww_first w) (set (ww_additional w)). \<not> overlap rng r)"
    using assms overlap_empty unfolding wave_holds_def by blast
  finally show ?thesis by (simp add: list_all_iff)
qed

lemma wave_admit_step:
  assumes "wave_holds w admitted"
  shows "case wave_admit w rng p of (w', yes) \<Rightarrow>
    (yes \<longleftrightarrow> ww_positional w \<and> p \<and> list_all (\<lambda>r. \<not> overlap rng r) admitted) \<and>
    wave_holds w' (if yes then rng # admitted else admitted) \<and> ww_positional w' = ww_positional w"
proof (cases "ww_positional w \<and> p \<and> \<not> range_empty rng")
  case True
  have ne: "fst rng < snd rng" and ok: "index_ok (ww_additional w)" using True assms by (auto simp: range_empty_def wave_holds_def)
  have first: "\<not> range_empty (ww_first w) \<and> fst rng < snd (ww_first w) \<and> fst (ww_first w) < snd rng \<longleftrightarrow> overlap rng (ww_first w)"
    using ne by (auto simp: overlap_iff range_empty_def)
  note index = last_below_overlap [OF ok ne]
  show ?thesis
  proof (cases "list_all (\<lambda>r. \<not> overlap rng r) admitted")
    case free: True
    then have apart: "\<not> overlap rng (ww_first w)" "\<forall>r \<in> set (ww_additional w). \<not> overlap rng r"
      using wave_conflict [OF assms] by auto
    have "\<forall>q \<in> set (ww_additional w). fst q \<noteq> fst rng"
      using apart(2) ok ne by (fastforce simp: overlap_iff index_ok_def)
    then have "set (btree_insert (fst rng) (snd rng) (ww_additional w)) = insert rng (set (ww_additional w))"
      using btree_insert_set by fastforce
    then show ?thesis using True assms free first index apart btree_insert_ok [OF ok ne apart(2)]
      by (auto simp: wave_admit_def wave_holds_def)
  next
    case False
    then show ?thesis using True assms first index wave_conflict [OF assms] by (auto simp: wave_admit_def)
  qed
next
  case False
  then show ?thesis using assms overlap_empty [of rng] by (auto simp: wave_admit_def wave_holds_def list_all_iff)
qed

lemma admit_all_naive:
  "wave_holds w admitted \<Longrightarrow> admit_all w requests = admit_naively (ww_positional w) admitted requests"
proof (induction requests arbitrary: w admitted)
  case (Cons request requests)
  obtain rng p where r: "request = (rng, p)" by fastforce
  obtain w' yes where w: "wave_admit w rng p = (w', yes)" by fastforce
  from wave_admit_step [OF Cons.prems, of p rng] w have step:
    "yes \<longleftrightarrow> ww_positional w \<and> p \<and> list_all (\<lambda>r. \<not> overlap rng r) admitted"
    "wave_holds w' (if yes then rng # admitted else admitted)" "ww_positional w' = ww_positional w" by auto
  from Cons.IH [OF step(2)] step(1,3) w show ?case by (simp add: r split: if_splits)
qed simp

lemma no_parent: "split_path_bytes path = None \<Longrightarrow> path_components path = []"
proof -
  assume "split_path_bytes path = None"
  then have "trim_slashes path = []" by (auto simp: split_path_bytes_def Let_def split: if_splits option.splits)
  then show "path_components path = []" using trim_slashes_Nil_iff [of path] by (simp add: path_components_def comps_def)
qed

section \<open>Properties\<close>

text \<open>C9 (navigation).  Whatever the cursor has done before, moving to the parent of a path appends
  navigation operations that make the parent of exactly this path the server's
  current directory, and for \<^verbatim>\<open>set_parent\<close> the saved one too, with at most one more
  operation than resolving the path from the root takes; only a path without
  components is refused.  What the cursor believes stays true.\<close>

theorem cursor_navigation:
  assumes "tracks cu r"
  shows "(case set_parent cu c path of
      None \<Rightarrow> path_components path = []
    | Some (leaf, n, cu', c') \<Rightarrow> \<exists>dir ops.
        path_components path = dir @ [leaf] \<and> appends c ops c' \<and> list_all navigation ops \<and> n = length ops \<and>
        moves ops r = \<lparr> rg_current = at_dir dir, rg_saved = at_dir dir \<rparr> \<and> tracks cu' (moves ops r) \<and> n \<le> length dir + 2) \<and>
   (case set_current_parent cu c path of
      None \<Rightarrow> path_components path = []
    | Some (leaf, n, cu', c') \<Rightarrow> \<exists>dir ops.
        path_components path = dir @ [leaf] \<and> appends c ops c' \<and> list_all navigation ops \<and> n = length ops \<and>
        moves ops r = r \<lparr> rg_current := at_dir dir \<rparr> \<and> tracks cu' (moves ops r) \<and> n \<le> length dir + 1)"
proof
  have none: "path_components path = []" if "set_parent cu c path = None \<or> set_current_parent cu c path = None"
    using that no_parent by (auto simp: set_parent_def set_current_parent_def split: option.splits prod.splits)
  have comps: "path_components path = butlast (path_components path) @ [leaf]"
    if "leaf = last (path_components path)" "path_components path \<noteq> []" for leaf
    using that by simp
  show "case set_parent cu c path of
      None \<Rightarrow> path_components path = []
    | Some (leaf, n, cu', c') \<Rightarrow> \<exists>dir ops.
        path_components path = dir @ [leaf] \<and> appends c ops c' \<and> list_all navigation ops \<and> n = length ops \<and>
        moves ops r = \<lparr> rg_current = at_dir dir, rg_saved = at_dir dir \<rparr> \<and> tracks cu' (moves ops r) \<and> n \<le> length dir + 2"
  proof (cases "set_parent cu c path")
    case (Some res)
    obtain leaf n cu' c' where res: "res = (leaf, n, cu', c')" by (metis prod.exhaust)
    from set_parent_leads [OF assms Some [unfolded res]] comps show ?thesis
      by (auto simp: Some res Let_def intro!: exI [of _ "butlast (path_components path)"])
  qed (use none in simp)
  show "case set_current_parent cu c path of
      None \<Rightarrow> path_components path = []
    | Some (leaf, n, cu', c') \<Rightarrow> \<exists>dir ops.
        path_components path = dir @ [leaf] \<and> appends c ops c' \<and> list_all navigation ops \<and> n = length ops \<and>
        moves ops r = r \<lparr> rg_current := at_dir dir \<rparr> \<and> tracks cu' (moves ops r) \<and> n \<le> length dir + 1"
  proof (cases "set_current_parent cu c path")
    case (Some res)
    obtain leaf n cu' c' where res: "res = (leaf, n, cu', c')" by (metis prod.exhaust)
    from set_current_parent_leads [OF assms Some [unfolded res]] comps show ?thesis
      by (auto simp: Some res leads_def intro!: exI [of _ "butlast (path_components path)"])
  qed (use none in simp)
qed

theorem cursor_navigation_witness:
  "\<exists>dir ops c' cu' n. set_parent cursor_default compound_new ''a/b/c'' = Some (''c'', n, cu', c') \<and>
     path_components ''a/b/c'' = dir @ [''c''] \<and> moves ops no_handles = \<lparr> rg_current = at_dir dir, rg_saved = at_dir dir \<rparr> \<and>
     cp_ops c' = ops"
proof -
  have "tracks cursor_default no_handles" by (simp add: tracks_def cursor_default_def)
  from cursor_navigation [OF this, of "''a/b/c''" compound_new]
  have nav: "case set_parent cursor_default compound_new ''a/b/c'' of
      None \<Rightarrow> path_components ''a/b/c'' = []
    | Some (leaf, n, cu', c') \<Rightarrow> \<exists>dir ops. path_components ''a/b/c'' = dir @ [leaf] \<and> appends compound_new ops c' \<and>
        moves ops no_handles = \<lparr> rg_current = at_dir dir, rg_saved = at_dir dir \<rparr>"
    by (auto split: option.splits)
  have comps: "path_components ''a/b/c'' = [''a'', ''b'', ''c'']" by (simp add: path_components_def)
  show ?thesis using nav comps
    by (auto simp: appends_def compound_new_def split: option.splits prod.splits)
qed

text \<open>C13 (write waves).  The overlap index admits a write into a wave exactly if its range meets
  none of the ranges admitted before and both are positional, whatever the order of
  the offsets: the answers are those of comparing with every earlier range.\<close>

theorem wave_admission_exact:
  "admit_all (wave_new first positional) requests = admit_naively positional [first] requests"
proof -
  have "wave_holds (wave_new first positional) [first]" by (auto simp: wave_holds_def wave_new_def index_ok_def)
  from admit_all_naive [OF this] show ?thesis by (simp add: wave_new_def)
qed

end
