(* ===== verification/Nfs_Paths.thy ===== *)
theory Nfs_Paths
  imports Nfs_Cursor
begin

text \<open>
  Merged operations on paths: \<^verbatim>\<open>removev_path_compound\<close>, \<^verbatim>\<open>renamev_path_compound\<close> and
  \<^verbatim>\<open>getattr_path_compound\<close> of \<^verbatim>\<open>crates/vfsi-nfs/src/client.rs\<close>.  Each fills a COMPOUND
  with the operations of as many paths as fit, moving between the directories with
  the cursor, and attributes the outcome with an execution map.  The three
  functions differ in the operations of an item, in what may be sent again and in
  what they read from a reply, so they are instances of one loop.
\<close>

section \<open>Filling a compound\<close>

datatype FileRef = PathRef bytes | HandleRef bytes

text \<open>Append the operations of an item; the flag is false for a malformed path.  The execution
  map already has the item's entry.\<close>

type_synonym 't path_adder =
  "CfhCursor \<Rightarrow> Compound \<Rightarrow> ExecutionMap \<Rightarrow> 't \<Rightarrow> (CfhCursor \<times> Compound \<times> ExecutionMap) \<times> bool"

definition add_path_remove :: "bytes path_adder" where
  "add_path_remove cu c m path =
     (case set_parent cu c path of
        None \<Rightarrow> ((cu, c, m), False)
      | Some (leaf, nops, cu, c) \<Rightarrow> ((cu, c_remove c leaf, map_note_ops (map_note_ops m nops) 1), True))"

record PathRenamePair =
  rp_src :: bytes
  rp_dst :: bytes

definition add_path_rename :: "PathRenamePair path_adder" where
  "add_path_rename cu c m pair =
     (case set_parent cu c (rp_src pair) of
        None \<Rightarrow> ((cu, c, m), False)
      | Some (sname, snops, cu, c) \<Rightarrow>
          let m = map_note_ops m snops
          in case set_current_parent cu c (rp_dst pair) of
               None \<Rightarrow> ((cu, c, m), False)
             | Some (dname, dnops, cu, c) \<Rightarrow>
                 ((descend cu, c_rename c sname dname, map_note_ops (map_note_ops m dnops) 1), True))"

record PathGetattrOp =
  pg_file :: FileRef
  pg_attrs :: "nat list"

definition add_path_getattr :: "PathGetattrOp path_adder" where
  "add_path_getattr cu c m op =
     (case (case pg_file op of
              PathRef p \<Rightarrow>
                (case set_parent cu c p of
                   None \<Rightarrow> None
                 | Some (leaf, nops, cu, c) \<Rightarrow> Some (cu, c_lookup c leaf, map_note_ops (map_note_ops m nops) 1))
            | HandleRef fh \<Rightarrow> (case set_handle cu c fh of (cu, c) \<Rightarrow> Some (cu, c, map_note_ops m 1))) of
        None \<Rightarrow> ((cu, c, m), False)
      | Some (cu, c, m) \<Rightarrow> ((descend cu, c_getattr c (pg_attrs op), map_note_ops m 1), True))"

text \<open>The variables of the inner loop.\<close>

record path_fill =
  pf_cursor :: CfhCursor
  pf_compound :: Compound
  pf_map :: ExecutionMap
  pf_payload :: nat
  pf_global :: nat
  pf_failed :: "(nat \<times> nat) option"

function fill_paths ::
  "NfsClient \<Rightarrow> nat \<Rightarrow> nat \<Rightarrow> nat \<Rightarrow> nat \<Rightarrow> 't path_adder \<Rightarrow> 't list \<Rightarrow> path_fill \<Rightarrow> path_fill" where
  "fill_paths cl per_file est budget max_items add items f =
     (if \<not> (pf_global f < length items \<and> length (em_ranges (pf_map f)) < max_items \<and>
             em_next (pf_map f) + per_file \<le> budget) then f
      else if 0 < pf_payload f \<and> 0 < max_request_arg_bytes cl \<and> max_request_arg_bytes cl < pf_payload f + est then f
      else case add (pf_cursor f) (pf_compound f) (map_begin (pf_map f) (pf_global f)) (items ! pf_global f) of
             ((cu, c, m), ok) \<Rightarrow>
               if \<not> ok
               then f \<lparr> pf_cursor := cu, pf_compound := c, pf_map := m,
                        pf_failed := Some (pf_global f, NFS4ERR_INVAL), pf_global := length items \<rparr>
               else let f' = f \<lparr> pf_cursor := cu, pf_compound := c, pf_map := map_end m,
                                 pf_payload := pf_payload f + est, pf_global := pf_global f + 1 \<rparr>
                    in if budget < em_next (pf_map f') + per_file \<and> pf_global f' < length items then f'
                       else fill_paths cl per_file est budget max_items add items f')"
  by pat_completeness auto
termination
  by (relation "measure (\<lambda>(cl, per_file, est, budget, max_items, add, items, f). length items - pf_global f)") auto

declare fill_paths.simps [simp del]

section \<open>The merged loop\<close>

definition first_failed_range :: "CompoundRes \<Rightarrow> ExecutionMap \<Rightarrow> RpcError + (nat \<times> nat) option" where
  "first_failed_range res m =
     (case analyze m (res_view res) of
        Inl e \<Rightarrow> Inl (rpc_transport_with_kind InvalidReply (''malformed NFS COMPOUND reply: '' @ show_malformed e))
      | Inr report \<Rightarrow>
          (case er_compound_failure report of
             Some status \<Rightarrow> Inl (rpc_op 0 status)
           | None \<Rightarrow> Inr (map_option (\<lambda>f. (if_caller f, if_status f)) (er_failure report))))"

text \<open>What is read for an item of a reply: nothing, or a value for its slot.  The outer \<open>None\<close> is
  a panic.\<close>

type_synonym 'r range_reader = "CompoundRes \<Rightarrow> item_range \<Rightarrow> 'r option option"

fun store_ranges :: "'r range_reader \<Rightarrow> CompoundRes \<Rightarrow> item_range list \<Rightarrow> 'r option list \<Rightarrow> 'r option list option" where
  "store_ranges value_of res [] out = Some out"
| "store_ranges value_of res (r # rs) out =
     (case value_of res r of
        None \<Rightarrow> None
      | Some None \<Rightarrow> store_ranges value_of res rs out
      | Some (Some v) \<Rightarrow> if fst r < length out then store_ranges value_of res rs (out[fst r := Some v]) else None)"

record 'r PathOutcome =
  po_results :: "'r option list"
  po_failed :: "(nat \<times> nat) option"

record ('t, 'r) path_shape =
  ps_tag :: bytes
  ps_per_file :: nat
  ps_est :: nat
  ps_safety :: RequestSafety
  ps_retry :: "NfsClient \<Rightarrow> bytes \<Rightarrow> CompoundRes \<Rightarrow> nat \<Rightarrow> nat \<Rightarrow> nat \<Rightarrow> bool"
  ps_add :: "'t path_adder"
  ps_read :: "'r range_reader"

abbreviation path_reserve :: nat where
  "path_reserve \<equiv> 16"

type_synonym 'r paths_vars = "nat \<times> nat \<times> 'r option list \<times> (nat \<times> nat) option"
type_synonym ('w, 'r) paths_step =
  "'w client_state \<Rightarrow> 'w client_state \<times> ('r paths_vars, 'r PathOutcome outcome) ctl"

definition leave_paths :: "'r option list \<Rightarrow> (nat \<times> nat) option \<Rightarrow> ('w, 'r) paths_step" where
  "leave_paths out failed = leave_with (ret \<lparr> po_results = out, po_failed = failed \<rparr>)"

definition get_or_insert :: "'a option \<Rightarrow> 'a \<Rightarrow> 'a option" where
  "get_or_insert x v = (case x of None \<Rightarrow> Some v | Some _ \<Rightarrow> x)"

definition paths_settle ::
  "('t, 'r) path_shape \<Rightarrow> nat \<Rightarrow> path_fill \<Rightarrow> 'r option list \<Rightarrow> CompoundRes \<Rightarrow> ('w, 'r) paths_step" where
  "paths_settle ps chunk_start f out res =
     try_in (of_sum (first_failed_range res (pf_map f))) (\<lambda>failure.
       case failure of
         Some (caller, status) \<Rightarrow>
           try_in (of_option (store_ranges (ps_read ps) res
             (filter (\<lambda>r. fst r < caller) (em_ranges (pf_map f))) out)) (\<lambda>out.
           leave_paths out (Some (caller, status)))
       | None \<Rightarrow>
           try_in (of_option (store_ranges (ps_read ps) res (em_ranges (pf_map f)) out)) (\<lambda>out.
           if chunk_start = pf_global f
           then leave_paths out (get_or_insert (pf_failed f) (chunk_start, NFS4ERR_TOO_MANY_OPS))
           else again (pf_global f, usize_max, out, pf_failed f)))"

definition paths_send ::
  "'w transport \<Rightarrow> ('t, 'r) path_shape \<Rightarrow> nat \<Rightarrow> nat \<Rightarrow> path_fill \<Rightarrow> 'r option list \<Rightarrow> Compound \<Rightarrow> ('w, 'r) paths_step" where
  "paths_send tp ps budget chunk_start f out c =
     try_in (call_compound_with_safety tp c (ps_safety ps)) (\<lambda>res st.
       if ps_retry ps (fst st) (ps_tag ps) res budget path_reserve (ps_per_file ps)
       then again (chunk_start, usize_max, out, pf_failed f) st
       else paths_settle ps chunk_start f out res st)"

definition paths_budget :: "('t, 'r) path_shape \<Rightarrow> NfsClient \<Rightarrow> nat" where
  "paths_budget ps cl =
     merged_limit (op_budget_for cl (ps_tag ps) (1 + ps_per_file ps)) path_reserve (ps_per_file ps)"

definition paths_body ::
  "'w transport \<Rightarrow> ('t, 'r) path_shape \<Rightarrow> 't list \<Rightarrow> 'r paths_vars \<Rightarrow> ('w, 'r) paths_step" where
  "paths_body tp ps items vars st =
     (case vars of (global, max_items, out, failed) \<Rightarrow>
        if \<not> global < length items then leave_paths out failed st
        else
          let budget = paths_budget ps (fst st);
              f = fill_paths (fst st) (ps_per_file ps) (ps_est ps) budget max_items (ps_add ps) items
                    \<lparr> pf_cursor = cursor_default, pf_compound = tagged (ps_tag ps), pf_map = map_new, pf_payload = 0,
                      pf_global = global, pf_failed = failed \<rparr>
          in if em_ranges (pf_map f) = []
             then leave_paths out (get_or_insert (pf_failed f) (global, NFS4ERR_TOO_MANY_OPS)) st
             else if pf_failed f = None
             then try_in (of_option (merged_paths_need_repack tp (fst st) (ps_tag ps) (1 + ps_per_file ps)
                    (pf_compound f) (length (em_ranges (pf_map f))))) (\<lambda>(c, repack).
                    if repack then again (global, length (em_ranges (pf_map f)) - 1, out, pf_failed f)
                    else paths_send tp ps budget global f out c) st
             else paths_send tp ps budget global f out (pf_compound f) st)"

definition paths_op ::
  "'w transport \<Rightarrow> ('t, 'r) path_shape \<Rightarrow> 't list \<Rightarrow> ('w client_state, 'r PathOutcome) eff" where
  "paths_op tp ps items = loop_op (paths_body tp ps items) (0, usize_max, replicate (length items) None, None)"

section \<open>The three operations\<close>

definition mark_range :: "unit range_reader" where
  "mark_range res r = Some (Some ())"

definition remove_shape :: "(bytes, unit) path_shape" where
  "remove_shape = \<lparr> ps_tag = ''removev1'', ps_per_file = 3, ps_est = 128, ps_safety = NonIdempotentMutation,
     ps_retry = can_retry_merged_resource, ps_add = add_path_remove, ps_read = mark_range \<rparr>"

definition removev_path_compound :: "'w transport \<Rightarrow> bytes list \<Rightarrow> ('w client_state, unit PathOutcome) eff" where
  "removev_path_compound tp paths = paths_op tp remove_shape paths"

definition rename_shape :: "(PathRenamePair, unit) path_shape" where
  "rename_shape = \<lparr> ps_tag = ''renamev1'', ps_per_file = 8, ps_est = 256, ps_safety = NonIdempotentMutation,
     ps_retry = can_retry_merged_resource, ps_add = add_path_rename, ps_read = mark_range \<rparr>"

definition renamev_path_compound :: "'w transport \<Rightarrow> PathRenamePair list \<Rightarrow> ('w client_state, unit PathOutcome) eff" where
  "renamev_path_compound tp pairs = paths_op tp rename_shape pairs"

fun last_getattr :: "CompoundRes \<Rightarrow> nat list \<Rightarrow> wire option \<Rightarrow> wire option option" where
  "last_getattr res [] found = Some found"
| "last_getattr res (j # js) found =
     (case resop res j of
        None \<Rightarrow> None
      | Some ro \<Rightarrow>
          if ro_op ro = NFS4_OP_GETATTR
          then case r_getattr res j of None \<Rightarrow> None | Some bytes \<Rightarrow> last_getattr res js (Some bytes)
          else last_getattr res js found)"

definition getattr_range :: "wire range_reader" where
  "getattr_range res r = (case r of (_, s, e) \<Rightarrow> last_getattr res [s..<e] None)"

definition getattr_shape :: "(PathGetattrOp, wire) path_shape" where
  "getattr_shape = \<lparr> ps_tag = ''getattrv1'', ps_per_file = 4, ps_est = 256, ps_safety = IdempotentMutation,
     ps_retry = can_retry_read_only_merged_resource, ps_add = add_path_getattr, ps_read = getattr_range \<rparr>"

definition getattr_path_compound :: "'w transport \<Rightarrow> PathGetattrOp list \<Rightarrow> ('w client_state, wire PathOutcome) eff" where
  "getattr_path_compound tp ops = paths_op tp getattr_shape ops"

section \<open>What a chunk_filled compound does\<close>

text \<open>What an operation sees of the two handles: only RENAME reads the saved one.\<close>

definition visible :: "nfs_argop4 \<Rightarrow> registers \<Rightarrow> registers" where
  "visible op r = (case op of A_Rename _ _ \<Rightarrow> r | _ \<Rightarrow> r \<lparr> rg_saved := None \<rparr>)"

text \<open>An item acts by one operation in one place, reached by navigation.\<close>

type_synonym 't item_target = "'t \<Rightarrow> registers \<times> nfs_argop4"

definition acts :: "'t path_adder \<Rightarrow> 't item_target \<Rightarrow> ('t \<Rightarrow> bool) \<Rightarrow> bool" where
  "acts add target valid \<longleftrightarrow>
     (\<forall>cu c m t r cu' c' m' ok. tracks cu r \<and> add cu c m t = ((cu', c', m'), ok) \<longrightarrow> ok = valid t \<and>
        (if ok
         then \<exists>ops. appends c (ops @ [snd (target t)]) c' \<and> list_all navigation ops \<and>
                visible (snd (target t)) (moves ops r) = fst (target t) \<and> \<not> navigation (snd (target t)) \<and>
                tracks cu' (move (snd (target t)) (moves ops r)) \<and>
                m' = map_note_ops m (length ops + 1)
         else \<exists>ops. appends c ops c' \<and> list_all navigation ops \<and> em_ranges m' = em_ranges m))"

lemma sat_add_assoc: "sat_add (sat_add a b) c = sat_add a (b + c)"
  by (simp add: sat_add_def min_def)

lemma note_note: "map_note_ops (map_note_ops m a) b = map_note_ops m (a + b)"
  by (simp add: map_note_ops_def sat_add_assoc)

definition remove_target :: "bytes item_target" where
  "remove_target path =
     (\<lparr> rg_current = at_dir (butlast (path_components path)), rg_saved = None \<rparr>, A_Remove (last (path_components path)))"

definition rename_target :: "PathRenamePair item_target" where
  "rename_target pair =
     (\<lparr> rg_current = at_dir (butlast (path_components (rp_dst pair))),
        rg_saved = at_dir (butlast (path_components (rp_src pair))) \<rparr>,
      A_Rename (last (path_components (rp_src pair))) (last (path_components (rp_dst pair))))"

definition getattr_target :: "PathGetattrOp item_target" where
  "getattr_target op =
     (\<lparr> rg_current = (case pg_file op of PathRef p \<Rightarrow> at_dir (path_components p) | HandleRef fh \<Rightarrow> Some (Opened fh)),
        rg_saved = None \<rparr>, A_Getattr (bitmap (pg_attrs op)))"

definition valid_path :: "bytes \<Rightarrow> bool" where
  "valid_path path \<longleftrightarrow> path_components path \<noteq> []"

definition valid_pair :: "PathRenamePair \<Rightarrow> bool" where
  "valid_pair pair \<longleftrightarrow> valid_path (rp_src pair) \<and> valid_path (rp_dst pair)"

definition valid_ref :: "PathGetattrOp \<Rightarrow> bool" where
  "valid_ref op \<longleftrightarrow> (case pg_file op of PathRef p \<Rightarrow> valid_path p | HandleRef _ \<Rightarrow> True)"

lemma no_parent_invalid:
  "set_parent cu c path = None \<Longrightarrow> \<not> valid_path path" "set_current_parent cu c path = None \<Longrightarrow> \<not> valid_path path"
  using no_parent by (auto simp: set_parent_def set_current_parent_def valid_path_def split: option.splits prod.splits)

lemma keep_push_appends: "appends c [op] (push (keep c n) op)"
  by (simp add: appends_def push_def keep_def)

lemma acts_remove: "acts add_path_remove remove_target valid_path"
  unfolding acts_def
proof (intro allI impI, elim conjE)
  fix cu c m path r cu' c' m' ok
  assume t: "tracks cu r" and add: "add_path_remove cu c m path = ((cu', c', m'), ok)"
  show "ok = valid_path path \<and> (if ok then \<exists>ops. appends c (ops @ [snd (remove_target path)]) c' \<and> list_all navigation ops \<and>
           visible (snd (remove_target path)) (moves ops r) = fst (remove_target path) \<and> \<not> navigation (snd (remove_target path)) \<and>
           tracks cu' (move (snd (remove_target path)) (moves ops r)) \<and> m' = map_note_ops m (length ops + 1)
        else \<exists>ops. appends c ops c' \<and> list_all navigation ops \<and> em_ranges m' = em_ranges m)"
  proof (cases "set_parent cu c path")
    case None
    then show ?thesis using add no_parent_invalid(1) [OF None]
      by (auto simp: add_path_remove_def appends_def intro: exI [of _ "[]"])
  next
    case (Some res)
    obtain leaf n cu1 c1 where res: "res = (leaf, n, cu1, c1)" by (metis prod.exhaust)
    obtain ops where ops: "appends c ops c1" "length ops = n" "list_all navigation ops" "leaf = last (path_components path)" "valid_path path"
      "moves ops r = \<lparr> rg_current = at_dir (butlast (path_components path)), rg_saved = at_dir (butlast (path_components path)) \<rparr>"
      "tracks cu1 (moves ops r)"
      using set_parent_leads [OF t Some [unfolded res]] by (auto simp: Let_def valid_path_def)
    have "appends c (ops @ [A_Remove leaf]) (c_remove c1 leaf)"
      by (rule appends_trans [OF ops(1)]) (simp add: c_remove_def keep_push_appends)
    then show ?thesis using add Some res ops
      by (auto simp: add_path_remove_def remove_target_def visible_def navigation_def note_note intro!: exI [of _ ops])
  qed
qed

lemma acts_rename: "acts add_path_rename rename_target valid_pair"
  unfolding acts_def
proof (intro allI impI, elim conjE)
  fix cu c m pair r cu' c' m' ok
  assume t: "tracks cu r" and add: "add_path_rename cu c m pair = ((cu', c', m'), ok)"
  let ?src = "path_components (rp_src pair)" and ?dst = "path_components (rp_dst pair)"
  show "ok = valid_pair pair \<and> (if ok then \<exists>ops. appends c (ops @ [snd (rename_target pair)]) c' \<and> list_all navigation ops \<and>
           visible (snd (rename_target pair)) (moves ops r) = fst (rename_target pair) \<and> \<not> navigation (snd (rename_target pair)) \<and>
           tracks cu' (move (snd (rename_target pair)) (moves ops r)) \<and> m' = map_note_ops m (length ops + 1)
        else \<exists>ops. appends c ops c' \<and> list_all navigation ops \<and> em_ranges m' = em_ranges m)"
  proof (cases "set_parent cu c (rp_src pair)")
    case None
    then show ?thesis using add no_parent_invalid(1) [OF None]
      by (auto simp: add_path_rename_def appends_def valid_pair_def intro: exI [of _ "[]"])
  next
    case (Some res)
    obtain sname n cu1 c1 where res: "res = (sname, n, cu1, c1)" by (metis prod.exhaust)
    obtain ops where ops: "appends c ops c1" "length ops = n" "list_all navigation ops" "sname = last ?src" "valid_path (rp_src pair)"
      "moves ops r = \<lparr> rg_current = at_dir (butlast ?src), rg_saved = at_dir (butlast ?src) \<rparr>" "tracks cu1 (moves ops r)"
      using set_parent_leads [OF t Some [unfolded res]] by (auto simp: Let_def valid_path_def)
    show ?thesis
    proof (cases "set_current_parent cu1 c1 (rp_dst pair)")
      case None
      then show ?thesis using add Some res ops no_parent_invalid(2) [OF None]
        by (auto simp: add_path_rename_def map_note_ops_def valid_pair_def intro!: exI [of _ ops])
    next
      case dst: (Some res2)
      obtain dname k cu2 c2 where res2: "res2 = (dname, k, cu2, c2)" by (metis prod.exhaust)
      obtain ops2 where ops2: "appends c1 ops2 c2" "length ops2 = k" "list_all navigation ops2" "dname = last ?dst" "valid_path (rp_dst pair)"
        "moves ops2 (moves ops r) = (moves ops r) \<lparr> rg_current := at_dir (butlast ?dst) \<rparr>"
        "tracks cu2 ((moves ops r) \<lparr> rg_current := at_dir (butlast ?dst) \<rparr>)"
        using set_current_parent_leads [OF ops(7) dst [unfolded res2]] by (auto simp: leads_def valid_path_def)
      have "appends c ((ops @ ops2) @ [A_Rename sname dname]) (c_rename c2 sname dname)"
        by (rule appends_trans [OF appends_trans [OF ops(1) ops2(1)]]) (simp add: c_rename_def appends_def push_def keep_def)
      moreover have "tracks (descend cu2) (moves (ops @ ops2) r)"
        using ops2(6,7) by (simp add: tracks_def descend_def)
      ultimately show ?thesis using add Some res dst res2 ops ops2
        by (auto simp: add_path_rename_def rename_target_def visible_def navigation_def note_note Let_def valid_pair_def
            intro!: exI [of _ "ops @ ops2"])
    qed
  qed
qed

lemma acts_getattr: "acts add_path_getattr getattr_target valid_ref"
  unfolding acts_def
proof (intro allI impI, elim conjE)
  fix cu c m op r cu' c' m' ok
  assume t: "tracks cu r" and add: "add_path_getattr cu c m op = ((cu', c', m'), ok)"
  let ?get = "A_Getattr (bitmap (pg_attrs op))"
  have get: "appends c (ops @ [?get]) (c_getattr c1 (pg_attrs op))" if "appends c ops c1" for ops c1
    by (rule appends_trans [OF that]) (simp add: c_getattr_def push_appends)
  show "ok = valid_ref op \<and> (if ok then \<exists>ops. appends c (ops @ [snd (getattr_target op)]) c' \<and> list_all navigation ops \<and>
           visible (snd (getattr_target op)) (moves ops r) = fst (getattr_target op) \<and> \<not> navigation (snd (getattr_target op)) \<and>
           tracks cu' (move (snd (getattr_target op)) (moves ops r)) \<and> m' = map_note_ops m (length ops + 1)
        else \<exists>ops. appends c ops c' \<and> list_all navigation ops \<and> em_ranges m' = em_ranges m)"
  proof (cases "pg_file op")
    case (PathRef path)
    let ?cs = "path_components path"
    show ?thesis
    proof (cases "set_parent cu c path")
      case None
      then show ?thesis using add PathRef no_parent_invalid(1) [OF None]
        by (auto simp: add_path_getattr_def appends_def valid_ref_def intro: exI [of _ "[]"])
    next
      case (Some res)
      obtain leaf n cu1 c1 where res: "res = (leaf, n, cu1, c1)" by (metis prod.exhaust)
      obtain ops where ops: "appends c ops c1" "length ops = n" "list_all navigation ops" "leaf = last ?cs" "?cs \<noteq> []"
        "moves ops r = \<lparr> rg_current = at_dir (butlast ?cs), rg_saved = at_dir (butlast ?cs) \<rparr>" "tracks cu1 (moves ops r)"
        using set_parent_leads [OF t Some [unfolded res]] by (auto simp: Let_def)
      have "appends c (ops @ [A_Lookup leaf]) (c_lookup c1 leaf)"
        by (rule appends_trans [OF ops(1)]) (simp add: c_lookup_def keep_push_appends)
      from get [OF this] show ?thesis using add PathRef Some res ops
        by (auto simp: add_path_getattr_def getattr_target_def visible_def navigation_def note_note descend_def valid_ref_def valid_path_def tracks_def
            intro!: exI [of _ "ops @ [A_Lookup leaf]"])
    qed
  next
    case (HandleRef fh)
    have "appends c [A_PutFh fh] (c_putfh c fh)" by (simp add: c_putfh_def push_appends)
    from get [OF this] show ?thesis using add HandleRef t
      by (auto simp: add_path_getattr_def set_handle_def getattr_target_def visible_def navigation_def note_note descend_def valid_ref_def valid_path_def
          tracks_def intro!: exI [of _ "[A_PutFh fh]"])
  qed
qed

text \<open>The operations of the items of a compound, one segment per item.\<close>

fun segments :: "'t item_target \<Rightarrow> 't list \<Rightarrow> registers \<Rightarrow> nfs_argop4 list list \<Rightarrow> bool" where
  "segments target [] r segs \<longleftrightarrow> segs = []"
| "segments target (t # ts) r segs \<longleftrightarrow>
     (\<exists>ops rest. segs = (ops @ [snd (target t)]) # rest \<and> list_all navigation ops \<and>
        visible (snd (target t)) (moves ops r) = fst (target t) \<and> \<not> navigation (snd (target t)) \<and>
        segments target ts (moves (ops @ [snd (target t)]) r) rest)"

lemma segments_length: "segments target ts r segs \<Longrightarrow> length segs = length ts"
  by (induction ts arbitrary: r segs) auto

lemma segments_snoc:
  assumes "segments target ts r segs" "list_all navigation ops" "visible (snd (target t)) (moves ops (moves (concat segs) r)) = fst (target t)"
    "\<not> navigation (snd (target t))"
  shows "segments target (ts @ [t]) r (segs @ [ops @ [snd (target t)]])"
  using assms by (induction ts arbitrary: r segs) auto

definition lens :: "nat \<Rightarrow> nfs_argop4 list list \<Rightarrow> (nat \<times> nat) list" where
  "lens g segs = zip [g..<g + length segs] (map length segs)"

lemma lens_snoc: "lens g (segs @ [seg]) = lens g segs @ [(g + length segs, length seg)]"
  by (simp add: lens_def)

lemma build_map_snoc:
  "build_map (xs @ [(caller, count)]) = map_end (map_note_ops (map_begin (build_map xs) caller) count)"
  by (simp add: build_map_def)

definition filling ::
  "'t item_target \<Rightarrow> ('t \<Rightarrow> bool) \<Rightarrow> 't list \<Rightarrow> bytes \<Rightarrow> nat \<Rightarrow> path_fill \<Rightarrow> nfs_argop4 list list \<Rightarrow> bool" where
  "filling target valid items tag g f segs \<longleftrightarrow>
     g + length segs \<le> length items \<and> list_all valid (slice items g (g + length segs)) \<and>
     segments target (slice items g (g + length segs)) no_handles segs \<and>
     appends (tagged tag) (concat segs) (pf_compound f) \<and> tracks (pf_cursor f) (moves (concat segs) no_handles) \<and>
     pf_map f = build_map (lens g segs) \<and> pf_global f = g + length segs"

text \<open>A malformed path ends the filling; it leaves an empty entry in the map.\<close>

definition malformed_fill ::
  "'t item_target \<Rightarrow> ('t \<Rightarrow> bool) \<Rightarrow> 't list \<Rightarrow> bytes \<Rightarrow> nat \<Rightarrow> path_fill \<Rightarrow> nfs_argop4 list list \<Rightarrow> nfs_argop4 list \<Rightarrow> bool" where
  "malformed_fill target valid items tag g f segs extra \<longleftrightarrow>
     g + length segs < length items \<and> list_all valid (slice items g (g + length segs)) \<and> \<not> valid (items ! (g + length segs)) \<and>
     segments target (slice items g (g + length segs)) no_handles segs \<and>
     appends (tagged tag) (concat segs @ extra) (pf_compound f) \<and> list_all navigation extra \<and>
     em_ranges (pf_map f) = em_ranges (build_map (lens g segs)) @
       [(g + length segs, em_next (build_map (lens g segs)), em_next (build_map (lens g segs)))] \<and>
     pf_failed f = Some (g + length segs, NFS4ERR_INVAL) \<and> pf_global f = length items"

lemma filling_step:
  assumes acts: "acts add target valid" and fill: "filling target valid items tag g f segs" and less: "pf_global f < length items"
    and add: "add (pf_cursor f) (pf_compound f) (map_begin (pf_map f) (pf_global f)) (items ! pf_global f) = ((cu, c, m), ok)"
  shows "if ok then \<exists>seg. filling target valid items tag g
           (f \<lparr> pf_cursor := cu, pf_compound := c, pf_map := map_end m, pf_payload := p, pf_global := pf_global f + 1 \<rparr>) (segs @ [seg])
         else \<exists>extra. malformed_fill target valid items tag g
           (f \<lparr> pf_cursor := cu, pf_compound := c, pf_map := m,
                pf_failed := Some (pf_global f, NFS4ERR_INVAL), pf_global := length items \<rparr>) segs extra"
proof -
  note fills = fill [unfolded filling_def]
  let ?t = "items ! pf_global f"
  have g: "pf_global f = g + length segs" using fills by simp
  have acted: "ok = valid ?t \<and> (if ok
       then \<exists>ops. appends (pf_compound f) (ops @ [snd (target ?t)]) c \<and> list_all navigation ops \<and>
              visible (snd (target ?t)) (moves ops (moves (concat segs) no_handles)) = fst (target ?t) \<and> \<not> navigation (snd (target ?t)) \<and>
              tracks cu (move (snd (target ?t)) (moves ops (moves (concat segs) no_handles))) \<and>
              m = map_note_ops (map_begin (pf_map f) (pf_global f)) (length ops + 1)
       else \<exists>ops. appends (pf_compound f) ops c \<and> list_all navigation ops \<and> em_ranges m = em_ranges (map_begin (pf_map f) (pf_global f)))"
    using acts [unfolded acts_def, rule_format, OF conjI [OF _ add]] fills by blast
  show ?thesis
  proof (cases ok)
    case True
    then obtain ops where ops: "appends (pf_compound f) (ops @ [snd (target ?t)]) c" "list_all navigation ops"
      "visible (snd (target ?t)) (moves ops (moves (concat segs) no_handles)) = fst (target ?t)" "\<not> navigation (snd (target ?t))"
      "tracks cu (move (snd (target ?t)) (moves ops (moves (concat segs) no_handles)))"
      "m = map_note_ops (map_begin (pf_map f) (pf_global f)) (length ops + 1)"
      using acted by auto
    let ?seg = "ops @ [snd (target ?t)]"
    have slice: "slice items g (g + length (segs @ [?seg])) = slice items g (g + length segs) @ [?t]"
      using less g by (simp add: slice_def take_Suc_conv_app_nth add.commute)
    have "appends (tagged tag) (concat (segs @ [?seg])) c"
      using appends_trans [OF _ ops(1), of "tagged tag" "concat segs"] fills by simp
    moreover have "segments target (slice items g (g + length (segs @ [?seg]))) no_handles (segs @ [?seg])"
      unfolding slice using fills ops(2-4) by (intro segments_snoc) auto
    moreover have "map_end m = build_map (lens g (segs @ [?seg]))"
      unfolding lens_snoc build_map_snoc using ops(6) fills g by simp
    moreover have "list_all valid (slice items g (g + length (segs @ [?seg])))" unfolding slice using fills acted True by simp
    ultimately show ?thesis using True ops(5) less g by (auto simp: filling_def intro!: exI [of _ ?seg])
  next
    case False
    then obtain ops where ops: "appends (pf_compound f) ops c" "list_all navigation ops"
      "em_ranges m = em_ranges (map_begin (pf_map f) (pf_global f))"
      using acted by auto
    have "appends (tagged tag) (concat segs @ ops) c" using appends_trans [OF _ ops(1)] fills by blast
    then show ?thesis using False ops fills g less acted by (auto simp: malformed_fill_def map_begin_def intro!: exI [of _ ops])
  qed
qed

lemma build_map_count: "length (em_ranges (build_map xs)) = length xs"
proof (induction xs rule: rev_induct)
  case (snoc x xs)
  then show ?case by (cases x) (simp add: build_map_snoc map_end_def map_note_ops_def map_begin_def)
qed (simp add: build_map_def map_new_def)

lemma lens_length [simp]: "length (lens g segs) = length segs"
  by (simp add: lens_def)

lemma fill_paths_result:
  assumes acts: "acts add target valid"
  shows "filling target valid items tag g f segs \<Longrightarrow> length segs \<le> max_items \<Longrightarrow>
    (let f' = fill_paths cl per_file est budget max_items add items f in
     (\<exists>segs'. filling target valid items tag g f' segs' \<and> length segs' \<le> max_items \<and> length segs \<le> length segs' \<and>
        pf_failed f' = pf_failed f) \<or>
     (\<exists>segs' extra. malformed_fill target valid items tag g f' segs' extra))"
proof (induction "length items - pf_global f" arbitrary: f segs rule: less_induct)
  case less
  let ?fill = "fill_paths cl per_file est budget max_items add items"
  let ?more = "pf_global f < length items \<and> length (em_ranges (pf_map f)) < max_items \<and> em_next (pf_map f) + per_file \<le> budget"
  let ?full = "0 < pf_payload f \<and> 0 < max_request_arg_bytes cl \<and> max_request_arg_bytes cl < pf_payload f + est"
  obtain cu c m ok where add: "add (pf_cursor f) (pf_compound f) (map_begin (pf_map f) (pf_global f)) (items ! pf_global f) =
      ((cu, c, m), ok)" by (metis prod.exhaust)
  let ?bad = "f \<lparr> pf_cursor := cu, pf_compound := c, pf_map := m,
      pf_failed := Some (pf_global f, NFS4ERR_INVAL), pf_global := length items \<rparr>"
  let ?next = "f \<lparr> pf_cursor := cu, pf_compound := c, pf_map := map_end m, pf_payload := pf_payload f + est,
      pf_global := pf_global f + 1 \<rparr>"
  have unfold: "?fill f = (if \<not> ?more \<or> ?full then f else if \<not> ok then ?bad
      else if budget < em_next (pf_map ?next) + per_file \<and> pf_global ?next < length items then ?next else ?fill ?next)"
    by (subst fill_paths.simps) (simp add: add Let_def)
  show ?case
  proof (cases "?more \<and> \<not> ?full")
    case False
    then have "?fill f = f" unfolding unfold by auto
    then show ?thesis using less.prems by auto
  next
    case True
    have count: "length (em_ranges (pf_map f)) = length segs"
      using less.prems(1) by (simp add: filling_def build_map_count)
    note step = filling_step [OF acts less.prems(1) _ add, of "pf_payload f + est"]
    show ?thesis
    proof (cases ok)
      case False
      then have "?fill f = ?bad" using True unfolding unfold by auto
      moreover have "\<exists>extra. malformed_fill target valid items tag g ?bad segs extra" using step True False by simp
      ultimately show ?thesis by (auto simp only: Let_def)
    next
      case ok: True
      then obtain seg where seg: "filling target valid items tag g ?next (segs @ [seg])" using step True by auto
      have len: "length (segs @ [seg]) \<le> max_items" using True count by simp
      have "length items - pf_global ?next < length items - pf_global f" using True by auto
      from less.hyps [OF this seg len] have rest: "let f' = ?fill ?next in
          (\<exists>segs'. filling target valid items tag g f' segs' \<and> length segs' \<le> max_items \<and> length (segs @ [seg]) \<le> length segs' \<and>
            pf_failed f' = pf_failed ?next) \<or>
          (\<exists>segs' extra. malformed_fill target valid items tag g f' segs' extra)" .
      have "?fill f = ?next \<or> ?fill f = ?fill ?next" using True ok unfolding unfold by auto
      then show ?thesis
      proof
        assume "?fill f = ?next"
        then show ?thesis using seg len by (auto simp: Let_def intro!: exI [of _ "segs @ [seg]"])
      next
        assume "?fill f = ?fill ?next"
        then show ?thesis using rest by (auto simp: Let_def)
      qed
    qed
  qed
qed

section \<open>Servers that work through a compound\<close>

text \<open>A server executes one operation after the other on its file system and stops at the first
  that fails.  Navigation and failed operations change nothing.\<close>

type_synonym 'fs op_exec = "'fs \<Rightarrow> registers \<Rightarrow> nfs_argop4 \<Rightarrow> 'fs \<times> nfs_resop4"

fun run_ops :: "'fs op_exec \<Rightarrow> 'fs \<Rightarrow> registers \<Rightarrow> nfs_argop4 list \<Rightarrow> 'fs \<times> nfs_resop4 list" where
  "run_ops exec fs r [] = (fs, [])"
| "run_ops exec fs r (op # ops) =
     (case exec fs (visible op r) op of
        (fs1, res) \<Rightarrow>
          if result_ok res
          then case run_ops exec fs1 (move op r) ops of (fs2, rs) \<Rightarrow> (fs2, res # rs)
          else (fs1, [res]))"

definition quiet_exec :: "'fs op_exec \<Rightarrow> bool" where
  "quiet_exec exec \<longleftrightarrow> (\<forall>fs r op fs' res. exec fs r op = (fs', res) \<and> (navigation op \<or> \<not> result_ok res) \<longrightarrow> fs' = fs)"

text \<open>The specification: the items one after the other, each in its own place.\<close>

fun run_targets :: "'fs op_exec \<Rightarrow> 't item_target \<Rightarrow> 'fs \<Rightarrow> 't list \<Rightarrow> ('fs \<times> nfs_resop4 list) option" where
  "run_targets exec target fs [] = Some (fs, [])"
| "run_targets exec target fs (t # ts) =
     (case exec fs (fst (target t)) (snd (target t)) of
        (fs1, res) \<Rightarrow>
          if result_ok res
          then map_option (\<lambda>(fs2, rs). (fs2, res # rs)) (run_targets exec target fs1 ts)
          else None)"

lemma run_ops_append:
  "run_ops exec fs r (xs @ ys) =
     (case run_ops exec fs r xs of
        (fs1, rs1) \<Rightarrow>
          if length rs1 = length xs \<and> list_all result_ok rs1
          then case run_ops exec fs1 (moves xs r) ys of (fs2, rs2) \<Rightarrow> (fs2, rs1 @ rs2)
          else (fs1, rs1))"
proof (induction xs arbitrary: fs r)
  case (Cons op xs)
  obtain fs1 res where x: "exec fs (visible op r) op = (fs1, res)" by fastforce
  show ?case
  proof (cases "result_ok res")
    case True
    obtain fs2 rs where "run_ops exec fs1 (move op r) xs = (fs2, rs)" by fastforce
    then show ?thesis using Cons.IH [of fs1 "move op r"] x True by (auto split: prod.splits)
  qed (use x in simp)
qed simp

text \<open>What a run returns: all operations succeeded, or all but the last.\<close>

lemma run_ops_results:
  assumes "run_ops exec fs r ops = (fs', rs)"
  shows "(length rs = length ops \<and> list_all result_ok rs) \<or>
    (0 < length rs \<and> length rs \<le> length ops \<and> list_all result_ok (butlast rs) \<and> \<not> result_ok (last rs))"
  using assms
proof (induction ops arbitrary: fs r rs)
  case (Cons op ops)
  obtain fs1 res where x: "exec fs (visible op r) op = (fs1, res)" by fastforce
  show ?case
  proof (cases "result_ok res")
    case True
    obtain fs2 rest where run: "run_ops exec fs1 (move op r) ops = (fs2, rest)" by fastforce
    then have "rs = res # rest" "fs2 = fs'" using Cons.prems x True by auto
    with Cons.IH [OF run [unfolded \<open>fs2 = fs'\<close>]] True show ?thesis by (auto simp: list_all_iff)
  qed (use x Cons.prems in auto)
qed simp

lemma run_navigation:
  assumes "quiet_exec exec" "list_all navigation ops" "run_ops exec fs r ops = (fs', rs)"
  shows "fs' = fs"
  using assms(2,3)
proof (induction ops arbitrary: fs r rs)
  case (Cons op ops)
  obtain fs1 res where x: "exec fs (visible op r) op = (fs1, res)" by fastforce
  have "fs1 = fs" using assms(1) x Cons.prems(1) unfolding quiet_exec_def by fastforce
  then show ?case using Cons.IH Cons.prems x by (auto split: if_splits prod.splits)
qed simp

text \<open>The server refused an item: it did not let the client reach the place, or did not
  execute the operation there.\<close>

definition op_refused :: "'fs op_exec \<Rightarrow> 'fs \<Rightarrow> registers \<times> nfs_argop4 \<Rightarrow> nfs_resop4 \<Rightarrow> bool" where
  "op_refused exec fs place res \<longleftrightarrow>
     \<not> result_ok res \<and> (\<exists>r op. exec fs r op = (fs, res) \<and> (navigation op \<or> (r, op) = place))"

lemma navigation_refused:
  assumes "quiet_exec exec" "list_all navigation ops" "run_ops exec fs r ops = (fs', rs)"
    and "\<not> (length rs = length ops \<and> list_all result_ok rs)"
  shows "op_refused exec fs place (last rs)"
  using assms(2-)
proof (induction ops arbitrary: fs r rs)
  case (Cons op ops)
  obtain fs1 res where x: "exec fs (visible op r) op = (fs1, res)" by fastforce
  have same: "fs1 = fs" using assms(1) x Cons.prems(1) unfolding quiet_exec_def by fastforce
  show ?case
  proof (cases "result_ok res")
    case True
    obtain fs2 rest where run: "run_ops exec fs1 (move op r) ops = (fs2, rest)" by fastforce
    then have rs: "rs = res # rest" "fs2 = fs'" using Cons.prems(2) x True by auto
    have stop: "\<not> (length rest = length ops \<and> list_all result_ok rest)" using Cons.prems(3) rs True by auto
    then have "rest \<noteq> []" using run_ops_results [OF run] by auto
    then show ?thesis using Cons.IH [OF _ run [unfolded rs(2)] stop] Cons.prems(1) rs(1) same by simp
  next
    case False
    then have "rs = [res]" using Cons.prems(2) x by auto
    then show ?thesis using False x same Cons.prems(1) by (auto simp: op_refused_def)
  qed
qed simp

lemma run_segment:
  assumes quiet_exec: "quiet_exec exec" and nav: "list_all navigation ops" and place: "visible op (moves ops r) = place"
    and run: "run_ops exec fs r (ops @ [op]) = (fs', rs)" and step: "exec fs place op = (fs1, res)"
  shows "(length rs = length ops + 1 \<and> list_all result_ok rs \<and> result_ok res \<and> last rs = res \<and> fs' = fs1) \<or>
    (0 < length rs \<and> length rs \<le> length ops + 1 \<and> list_all result_ok (butlast rs) \<and>
     op_refused exec fs (place, op) (last rs) \<and> fs' = fs)"
proof -
  obtain fs2 rs2 where walk: "run_ops exec fs r ops = (fs2, rs2)" by fastforce
  have fs2: "fs2 = fs" by (rule run_navigation [OF quiet_exec nav walk])
  show ?thesis
  proof (cases "length rs2 = length ops \<and> list_all result_ok rs2")
    case True
    have "rs = rs2 @ [res]" "fs' = fs1" using run True walk fs2 step place by (auto simp: run_ops_append split: if_splits)
    moreover have "\<not> result_ok res \<Longrightarrow> fs1 = fs" using quiet_exec step unfolding quiet_exec_def by blast
    ultimately show ?thesis using True step by (auto simp: op_refused_def)
  next
    case False
    then have "rs = rs2" "fs' = fs" using run walk fs2 by (auto simp: run_ops_append)
    then show ?thesis
      using run_ops_results [OF walk] False navigation_refused [OF quiet_exec nav walk False, of "(place, op)"] by auto
  qed
qed

text \<open>The results of the items among those of the operations.\<close>

definition seg_end :: "nfs_argop4 list list \<Rightarrow> nat \<Rightarrow> nat" where
  "seg_end segs i = length (concat (take i segs))"

lemma seg_end_simps [simp]: "seg_end segs 0 = 0" "seg_end (seg # segs) (Suc i) = length seg + seg_end segs i"
  by (simp_all add: seg_end_def)

lemma seg_end_all: "length segs \<le> i \<Longrightarrow> seg_end segs i = length (concat segs)"
  by (simp add: seg_end_def)

lemma segments_nonempty: "segments target ts r segs \<Longrightarrow> seg \<in> set segs \<Longrightarrow> seg \<noteq> []"
  by (induction ts arbitrary: r segs) auto

lemma seg_end_mono: "i \<le> j \<Longrightarrow> seg_end segs i \<le> seg_end segs j"
proof (induction segs arbitrary: i j)
  case (Cons seg segs)
  then show ?case by (cases i; cases j) auto
qed (simp add: seg_end_def)

lemma seg_end_pos:
  "(\<And>seg. seg \<in> set segs \<Longrightarrow> seg \<noteq> []) \<Longrightarrow> i < length segs \<Longrightarrow> seg_end segs i < seg_end segs (Suc i)"
proof (induction segs arbitrary: i)
  case (Cons seg segs)
  then show ?case by (cases i) auto
qed simp

definition item_results :: "nfs_argop4 list list \<Rightarrow> nfs_resop4 list \<Rightarrow> nfs_resop4 list \<Rightarrow> nat \<Rightarrow> bool" where
  "item_results segs rs vs k \<longleftrightarrow> length vs = k \<and> (\<forall>i < k. rs ! (seg_end segs (Suc i) - 1) = vs ! i)"

lemma item_results_Cons:
  assumes "item_results segs rs vs k" "rs1 \<noteq> []" "length seg = length rs1" "k \<le> length segs"
    "\<And>seg. seg \<in> set segs \<Longrightarrow> seg \<noteq> []"
  shows "item_results (seg # segs) (rs1 @ rs) (last rs1 # vs) (Suc k)"
  unfolding item_results_def
proof (intro conjI allI impI)
  fix i assume "i < Suc k"
  show "(rs1 @ rs) ! (seg_end (seg # segs) (Suc i) - 1) = (last rs1 # vs) ! i"
  proof (cases i)
    case 0
    then show ?thesis using assms(2,3) by (simp add: nth_append last_conv_nth)
  next
    case (Suc j)
    then have "j < length segs" using \<open>i < Suc k\<close> assms(4) by simp
    then have "0 < seg_end segs (Suc j)" using seg_end_pos [of segs j] assms(5) by simp
    then show ?thesis using assms(1,3) Suc \<open>i < Suc k\<close> by (simp add: item_results_def nth_append)
  qed
qed (use assms(1) in \<open>simp add: item_results_def\<close>)

definition run_complete ::
  "'fs op_exec \<Rightarrow> 't item_target \<Rightarrow> 'fs \<Rightarrow> 't list \<Rightarrow> nfs_argop4 list list \<Rightarrow> 'fs \<Rightarrow> nfs_resop4 list \<Rightarrow> bool" where
  "run_complete exec target fs ts segs fs' rs \<longleftrightarrow>
     (\<exists>vs. run_targets exec target fs ts = Some (fs', vs) \<and> length (concat segs) \<le> length rs \<and>
        item_results segs rs vs (length ts))"

definition run_stopped ::
  "'fs op_exec \<Rightarrow> 't item_target \<Rightarrow> 'fs \<Rightarrow> 't list \<Rightarrow> nfs_argop4 list list \<Rightarrow> 'fs \<Rightarrow> nfs_resop4 list \<Rightarrow> nat \<Rightarrow> bool" where
  "run_stopped exec target fs ts segs fs' rs k \<longleftrightarrow>
     k < length ts \<and> seg_end segs k < length rs \<and> length rs \<le> seg_end segs (Suc k) \<and>
     op_refused exec fs' (target (ts ! k)) (last rs) \<and>
     (\<exists>vs. run_targets exec target fs (take k ts) = Some (fs', vs) \<and> item_results segs rs vs k)"

lemma run_segments:
  assumes quiet_exec: "quiet_exec exec" and extra: "list_all navigation extra"
  shows "segments target ts r segs \<Longrightarrow> run_ops exec fs r (concat segs @ extra) = (fs', rs) \<Longrightarrow>
    run_complete exec target fs ts segs fs' rs \<or> (\<exists>k. run_stopped exec target fs ts segs fs' rs k)"
proof (induction ts arbitrary: r segs fs rs)
  case Nil
  then show ?case using run_navigation [OF quiet_exec extra] by (auto simp: run_complete_def item_results_def)
next
  case (Cons t ts)
  obtain ops rest where segs: "segs = (ops @ [snd (target t)]) # rest" and nav: "list_all navigation ops"
    and place: "visible (snd (target t)) (moves ops r) = fst (target t)"
    and tail: "segments target ts (moves (ops @ [snd (target t)]) r) rest"
    using Cons.prems(1) by auto
  let ?seg = "ops @ [snd (target t)]"
  note ne = segments_nonempty [OF tail]
  obtain fs1 res where step: "exec fs (fst (target t)) (snd (target t)) = (fs1, res)" by fastforce
  obtain fsa rs1 where seg: "run_ops exec fs r ?seg = (fsa, rs1)" by fastforce
  have whole: "run_ops exec fs r (?seg @ (concat rest @ extra)) = (fs', rs)" using Cons.prems(2) segs by simp
  from run_segment [OF quiet_exec nav place seg step] show ?case
  proof (elim disjE conjE)
    assume ok: "length rs1 = length ops + 1" "list_all result_ok rs1" "result_ok res" "last rs1 = res" "fsa = fs1"
    obtain fs2 rs2 where more: "run_ops exec fs1 (moves ?seg r) (concat rest @ extra) = (fs2, rs2)" by fastforce
    have rs: "rs = rs1 @ rs2" "fs2 = fs'" using whole seg ok more unfolding run_ops_append [of _ _ _ ?seg] by auto
    have rs1: "rs1 \<noteq> []" "length ?seg = length rs1" using ok(1) by auto
    from Cons.IH [OF tail more [unfolded rs(2)]] show ?thesis
    proof (elim disjE exE)
      assume "run_complete exec target fs1 ts rest fs' rs2"
      then obtain vs where "run_targets exec target fs1 ts = Some (fs', vs)" "length (concat rest) \<le> length rs2"
        "item_results rest rs2 vs (length ts)" unfolding run_complete_def by blast
      moreover from item_results_Cons [OF this(3) rs1] ne have "item_results segs rs (res # vs) (Suc (length ts))"
        using ok(4) rs(1) segs segments_length [OF tail] by simp
      ultimately show ?thesis using step ok(1,3) rs(1) segs by (auto simp: run_complete_def)
    next
      fix k assume "run_stopped exec target fs1 ts rest fs' rs2 k"
      then obtain vs where v: "k < length ts" "seg_end rest k < length rs2" "length rs2 \<le> seg_end rest (Suc k)"
        "op_refused exec fs' (target (ts ! k)) (last rs2)" "run_targets exec target fs1 (take k ts) = Some (fs', vs)" "item_results rest rs2 vs k"
        unfolding run_stopped_def by blast
      have "rs2 \<noteq> []" using v(2) by auto
      moreover have "item_results segs rs (res # vs) (Suc k)"
        using item_results_Cons [OF v(6) rs1] ne ok(4) rs(1) segs segments_length [OF tail] v(1) by simp
      ultimately have "run_stopped exec target fs (t # ts) segs fs' rs (Suc k)"
        using v step ok(1,3) rs(1) segs by (auto simp: run_stopped_def)
      then show ?thesis by blast
    qed
  next
    assume bad: "0 < length rs1" "length rs1 \<le> length ops + 1" "list_all result_ok (butlast rs1)"
      "op_refused exec fs (fst (target t), snd (target t)) (last rs1)" "fsa = fs"
    have "\<not> list_all result_ok rs1" using bad(1,4) by (cases rs1 rule: rev_cases) (auto simp: op_refused_def)
    then have "rs = rs1" "fs' = fs" using whole seg bad(5) unfolding run_ops_append [of _ _ _ ?seg] by auto
    then have "run_stopped exec target fs (t # ts) segs fs' rs 0"
      using bad segs by (simp add: run_stopped_def item_results_def)
    then show ?thesis by blast
  qed
qed

section \<open>Attributing the outcome\<close>

lemma view_simps: "rv_nops (res_view res) = res_nops res" "rv_status (res_view res) = cr_status res"
  by (simp_all add: res_view_def)

lemma find_accepted:
  assumes "accepts req res"
  shows "find (\<lambda>i. rv_op_status (res_view res) i \<noteq> NFS_OK) [s..<min e (res_nops res)] =
    (if cr_status res \<noteq> NFS_OK \<and> s \<le> res_nops res - 1 \<and> res_nops res - 1 < min e (res_nops res)
     then Some (res_nops res - 1) else None)"
proof -
  have st: "rv_op_status (res_view res) i = (if i + 1 = res_nops res then cr_status res else NFS_OK)" if "i < res_nops res" for i
    using accepts_status [OF assms that] by (simp add: res_view_def)
  show ?thesis
  proof (cases "cr_status res \<noteq> NFS_OK \<and> s \<le> res_nops res - 1 \<and> res_nops res - 1 < min e (res_nops res)")
    case True
    then have "find (\<lambda>i. rv_op_status (res_view res) i \<noteq> NFS_OK) [s..<min e (res_nops res)] = Some (res_nops res - 1)"
      unfolding find_upt_Some using st by (auto simp: res_view_def)
    then show ?thesis using True by simp
  next
    case False
    then have "\<forall>i \<in> set [s..<min e (res_nops res)]. rv_op_status (res_view res) i = NFS_OK" using st by auto
    then show ?thesis using False by (auto simp: find_None_iff res_view_def)
  qed
qed

lemma analyze_items_completed:
  assumes acc: "accepts req res"
  shows "(\<And>item. item \<in> set items \<Longrightarrow> 0 < snd item) \<Longrightarrow>
    n + sum_list (map snd items) \<le> (if cr_status res = NFS_OK then res_nops res else res_nops res - 1) \<Longrightarrow>
    analyze_items (res_view res) (layout n items @ rest) done =
      analyze_items (res_view res) rest (done @ map fst items)"
proof (induction items arbitrary: n "done")
  case (Cons item items)
  obtain c k where item: "item = (c, k)" by fastforce
  have "0 < k" using Cons.prems(1) item by fastforce
  moreover have "n + k + sum_list (map snd items) \<le> (if cr_status res = NFS_OK then res_nops res else res_nops res - 1)"
    using Cons.prems(2) item by simp
  ultimately show ?case using Cons.IH [of "n + k" "done @ [c]"] Cons.prems(1) item
    by (auto simp: find_accepted [OF acc] view_simps split: if_splits)
qed simp

lemma analyze_range_hit:
  assumes acc: "accepts req res" and st: "cr_status res \<noteq> NFS_OK" "s < res_nops res" "res_nops res - 1 < e"
  shows "analyze_items (res_view res) ((c, s, e) # rest) d =
    Inr (d, Some \<lparr> if_caller = c, if_op_index = res_nops res - 1, if_status = cr_status res \<rparr>, map fst rest)"
proof -
  have found: "find (\<lambda>i. rv_op_status (res_view res) i \<noteq> NFS_OK) [s..<min e (res_nops res)] = Some (res_nops res - 1)"
    using find_accepted [OF acc, of s e] st by auto
  have "rv_op_status (res_view res) (res_nops res - 1) = cr_status res"
    using accepts_status [OF acc, of "res_nops res - 1"] st(2) by (simp add: res_view_def)
  then show ?thesis unfolding analyze_items.simps view_simps found using st(2) by simp
qed

lemma lens_append: "lens g (xs @ ys) = lens g xs @ lens (g + length xs) ys"
  by (simp add: lens_def upt_add_eq_append [of g "g + length xs" "length ys"] flip: add.assoc)

lemma lens_Cons: "lens g (seg # segs) = (g, length seg) # lens (g + 1) segs"
  by (simp add: lens_def upt_conv_Cons del: upt_Suc)

lemma lens_simps [simp]: "map fst (lens g segs) = [g..<g + length segs]" "sum_list (map snd (lens g segs)) = length (concat segs)"
  by (simp_all add: lens_def length_concat)

lemma lens_pos: "(\<And>seg. seg \<in> set segs \<Longrightarrow> seg \<noteq> []) \<Longrightarrow> item \<in> set (lens g segs) \<Longrightarrow> 0 < snd item"
  by (cases item) (auto simp: lens_def dest!: set_zip_rightD, blast)

text \<open>The entries of a chunk_filled map: one per segment and perhaps an empty one at the end.\<close>

definition fill_ranges :: "nat \<Rightarrow> nfs_argop4 list list \<Rightarrow> item_range list \<Rightarrow> bool" where
  "fill_ranges g segs ranges \<longleftrightarrow>
     (\<exists>tail. ranges = layout 1 (lens g segs) @ tail \<and>
        (tail = [] \<or> tail = [(g + length segs, 1 + length (concat segs), 1 + length (concat segs))]))"

lemma first_failed_rejected:
  assumes "accepts req res" "res_nops res \<le> 1" "cr_status res \<noteq> NFS_OK"
  shows "first_failed_range res m = Inl (rpc_op 0 (cr_status res))"
  using assms(2,3) accepts_status [OF assms(1), of 0]
  by (cases "res_nops res = 0") (auto simp: first_failed_range_def analyze_def res_view_def)

lemma analyze_reached:
  assumes "accepts req res" "2 \<le> res_nops res" "analyze_items (res_view res) (em_ranges m) [] = Inr (cs, f, us)"
  shows "first_failed_range res m =
    (if f = None \<and> cr_status res \<noteq> NFS_OK then Inl (rpc_op 0 (cr_status res))
     else Inr (map_option (\<lambda>f. (if_caller f, if_status f)) f))"
  using assms accepts_status [OF assms(1), of 0] accepts_status [OF assms(1), of "res_nops res - 1"]
  by (auto simp: first_failed_range_def analyze_def res_view_def Let_def)

lemma first_failed_ok:
  assumes acc: "accepts req res" "cr_status res = NFS_OK" "1 + length (concat segs) \<le> length req"
    and ne: "\<And>seg. seg \<in> set segs \<Longrightarrow> seg \<noteq> []" and m: "fill_ranges g segs (em_ranges m)"
  shows "first_failed_range res m = Inr None"
proof -
  obtain tail where tail: "em_ranges m = layout 1 (lens g segs) @ tail"
    "tail = [] \<or> tail = [(g + length segs, 1 + length (concat segs), 1 + length (concat segs))]"
    using m unfolding fill_ranges_def by blast
  have nops: "res_nops res = length req" using acc(1,2) by (simp add: accepts_iff res_nops_def)
  have "analyze_items (res_view res) (em_ranges m) [] = analyze_items (res_view res) tail ([] @ map fst (lens g segs))"
    unfolding tail(1) using acc lens_pos [OF ne] nops by (intro analyze_items_completed [OF acc(1)]) auto
  moreover have "\<exists>cs us. analyze_items (res_view res) tail d = Inr (cs, None, us)" for d
    using tail(2) by (auto simp: find_accepted [OF acc(1)] view_simps)
  ultimately obtain cs us where "analyze_items (res_view res) (em_ranges m) [] = Inr (cs, None, us)" by metis
  then show ?thesis using acc(2) accepts_status [OF acc(1), of 0] nops acc(3)
    by (auto simp: first_failed_range_def analyze_def res_view_def)
qed

lemma first_failed_item:
  assumes acc: "accepts req res" "cr_status res \<noteq> NFS_OK" and k: "k < length segs"
    "seg_end segs k < res_nops res - 1" "res_nops res - 1 \<le> seg_end segs (Suc k)"
    and ne: "\<And>seg. seg \<in> set segs \<Longrightarrow> seg \<noteq> []" and m: "fill_ranges g segs (em_ranges m)"
  shows "first_failed_range res m = Inr (Some (g + k, cr_status res))"
proof -
  obtain tail where tail: "em_ranges m = layout 1 (lens g segs) @ tail" using m unfolding fill_ranges_def by blast
  let ?s = "1 + seg_end segs k"
  have segs: "segs = take k segs @ segs ! k # drop (Suc k) segs" using k(1) by (rule id_take_nth_drop)
  have "lens g segs = lens g (take k segs) @ (g + k, length (segs ! k)) # lens (g + k + 1) (drop (Suc k) segs)"
    using k(1) by (subst segs) (simp add: lens_append lens_Cons)
  then have ranges: "em_ranges m = layout 1 (lens g (take k segs)) @
      (g + k, ?s, ?s + length (segs ! k)) # layout (?s + length (segs ! k)) (lens (g + k + 1) (drop (Suc k) segs)) @ tail"
    unfolding tail by (simp add: seg_end_def)
  have e: "seg_end segs (Suc k) = seg_end segs k + length (segs ! k)"
    using k(1) by (simp add: seg_end_def take_Suc_conv_app_nth)
  have "analyze_items (res_view res) (em_ranges m) [] = analyze_items (res_view res)
      ((g + k, ?s, ?s + length (segs ! k)) # layout (?s + length (segs ! k)) (lens (g + k + 1) (drop (Suc k) segs)) @ tail)
      ([] @ map fst (lens g (take k segs)))"
    unfolding ranges using acc(2) k(2) lens_pos [OF ne [OF in_set_takeD]]
    by (intro analyze_items_completed [OF acc(1)]) (auto simp: seg_end_def)
  also have "\<dots> = Inr ([] @ map fst (lens g (take k segs)),
      Some \<lparr> if_caller = g + k, if_op_index = res_nops res - 1, if_status = cr_status res \<rparr>,
      map fst (layout (?s + length (segs ! k)) (lens (g + k + 1) (drop (Suc k) segs)) @ tail))"
    using acc(2) k(2,3) unfolding e by (intro analyze_range_hit [OF acc(1)]) auto
  finally show ?thesis using analyze_reached [OF acc(1)] k(2) by fastforce
qed

lemma first_failed_extra:
  assumes acc: "accepts req res" "cr_status res \<noteq> NFS_OK" "length (concat segs) < res_nops res - 1"
    and ne: "\<And>seg. seg \<in> set segs \<Longrightarrow> seg \<noteq> []" and m: "fill_ranges g segs (em_ranges m)"
  shows "first_failed_range res m = Inl (rpc_op 0 (cr_status res))"
proof -
  obtain tail where tail: "em_ranges m = layout 1 (lens g segs) @ tail"
    "tail = [] \<or> tail = [(g + length segs, 1 + length (concat segs), 1 + length (concat segs))]"
    using m unfolding fill_ranges_def by blast
  have "analyze_items (res_view res) (em_ranges m) [] = analyze_items (res_view res) tail ([] @ map fst (lens g segs))"
    unfolding tail(1) using acc lens_pos [OF ne] by (intro analyze_items_completed [OF acc(1)]) auto
  moreover have "\<exists>cs us. analyze_items (res_view res) tail d = Inr (cs, None, us)" for d
    using tail(2) acc(3) by (auto simp: find_accepted [OF acc(1)] view_simps)
  ultimately obtain cs us where "analyze_items (res_view res) (em_ranges m) [] = Inr (cs, None, us)" by metis
  from analyze_reached [OF acc(1) _ this] acc(2,3) show ?thesis by simp
qed

section \<open>What the server did with a request\<close>

definition path_op :: "nfs_argop4 \<Rightarrow> bool" where
  "path_op op \<longleftrightarrow> navigation op \<or> (case op of A_Remove _ \<Rightarrow> True | A_Rename _ _ \<Rightarrow> True | A_Getattr _ \<Rightarrow> True | _ \<Rightarrow> False)"

text \<open>A transport to such a server.  A request is lost, rejected at its SEQUENCE, or executed;
  \<open>obs\<close> is the part of the world the operations act on.\<close>

definition path_server :: "('w \<Rightarrow> 'fs) \<Rightarrow> 'fs op_exec \<Rightarrow> 'w transport \<Rightarrow> bool" where
  "path_server obs exec tp \<longleftrightarrow>
     (\<forall>c w sq ops w' r.
        cp_ops c = sq # ops \<and> list_all path_op ops \<and> tp_rpc tp c w = (w', r) \<longrightarrow>
        (case r of
           Inl e \<Rightarrow> rpc_is_transport e
         | Inr res \<Rightarrow>
             (obs w' = obs w \<and> cr_status res \<noteq> NFS_OK \<and> res_nops res \<le> 1) \<or>
             (case run_ops exec (obs w) no_handles ops of
                (fs, rs) \<Rightarrow> obs w' = fs \<and> cr_len res = 1 + length rs \<and> (\<exists>sr. cr_ops res = Some (sr # rs)))))"

lemma path_effect:
  assumes server: "path_server obs exec tp" and rq: "cp_ops rq = sq # ops" "list_all path_op ops"
  shows "compound_call tp rq w = (w', Inl e) \<Longrightarrow> rpc_is_transport e"
    and "compound_call tp rq w = (w', Inr res) \<Longrightarrow>
      (obs w' = obs w \<and> cr_status res \<noteq> NFS_OK \<and> res_nops res \<le> 1) \<or>
      (\<exists>rs sr. run_ops exec (obs w) no_handles ops = (obs w', rs) \<and>
         cr_len res = 1 + length rs \<and> cr_ops res = Some (sr # rs))"
proof -
  obtain w1 r where rpc: "tp_rpc tp rq w = (w1, r)" by fastforce
  have srv: "case r of
       Inl e \<Rightarrow> rpc_is_transport e
     | Inr res \<Rightarrow>
         (obs w1 = obs w \<and> cr_status res \<noteq> NFS_OK \<and> res_nops res \<le> 1) \<or>
         (case run_ops exec (obs w) no_handles ops of
            (fs, rs) \<Rightarrow> obs w1 = fs \<and> cr_len res = 1 + length rs \<and> (\<exists>sr. cr_ops res = Some (sr # rs)))"
    using server rq rpc unfolding path_server_def by blast
  show "compound_call tp rq w = (w', Inl e) \<Longrightarrow> rpc_is_transport e"
    using srv rpc malformed_transport by (auto simp: compound_call_def split: sum.splits)
  show "compound_call tp rq w = (w', Inr res) \<Longrightarrow>
      (obs w' = obs w \<and> cr_status res \<noteq> NFS_OK \<and> res_nops res \<le> 1) \<or>
      (\<exists>rs sr. run_ops exec (obs w) no_handles ops = (obs w', rs) \<and>
         cr_len res = 1 + length rs \<and> cr_ops res = Some (sr # rs))"
    using srv rpc by (auto simp: compound_call_def split: sum.splits prod.splits)
qed

lemma navigation_path_ops: "list_all navigation ops \<Longrightarrow> list_all path_op ops"
  by (auto simp: list_all_iff path_op_def)

lemma segments_path_ops:
  "segments target ts r segs \<Longrightarrow> (\<And>t. path_op (snd (target t))) \<Longrightarrow> list_all path_op (concat segs)"
proof (induction ts arbitrary: r segs)
  case (Cons t ts)
  then show ?case by (auto simp: navigation_path_ops)
qed simp

text \<open>The values of the first items in a reply.\<close>

definition chunk_values :: "nfs_argop4 list list \<Rightarrow> CompoundRes \<Rightarrow> nfs_resop4 list \<Rightarrow> bool" where
  "chunk_values segs res vs \<longleftrightarrow>
     length vs \<le> length segs \<and> (\<forall>i < length vs. nth_op res (seg_end segs (Suc i)) = vs ! i) \<and>
     (\<forall>j \<le> seg_end segs (length vs). op_status res j = Some NFS_OK)"

lemma chunk_valuesI:
  assumes acc: "accepts req res" and res: "cr_len res = 1 + length rs" "cr_ops res = Some (sr # rs)"
    and items: "item_results segs rs vs k" "k \<le> length segs" and ne: "\<And>seg. seg \<in> set segs \<Longrightarrow> seg \<noteq> []"
    and ok: "cr_status res = NFS_OK \<and> seg_end segs k \<le> length rs \<or> seg_end segs k < length rs"
  shows "chunk_values segs res vs"
proof -
  have len: "length vs = k" using items(1) by (simp add: item_results_def)
  have nops: "res_nops res = 1 + length rs" using res(1) by (simp add: res_nops_def)
  have "nth_op res (seg_end segs (Suc i)) = vs ! i" if "i < k" for i
  proof -
    have "0 < seg_end segs (Suc i)" using seg_end_pos [of segs i, OF ne] that items(2) by fastforce
    then have "nth_op res (seg_end segs (Suc i)) = rs ! (seg_end segs (Suc i) - 1)"
      using res(2) by (simp add: nth_op_def nth_Cons')
    then show ?thesis using items(1) that by (simp add: item_results_def)
  qed
  moreover have "op_status res j = Some NFS_OK" if "j \<le> seg_end segs k" for j
  proof -
    have j: "j < res_nops res" using that ok nops by linarith
    have "cr_status res = NFS_OK \<or> j + 1 < res_nops res" using that ok nops by linarith
    then have "response_op_status (nth_op res j) = NFS_OK" using accepts_status [OF acc j] by auto
    then show ?thesis using accepts_op(1) [OF acc j] by (simp add: op_status_def)
  qed
  ultimately show ?thesis using len items(2) by (simp add: chunk_values_def)
qed

lemma run_targets_length: "run_targets exec target fs ts = Some (fs', vs) \<Longrightarrow> length vs = length ts"
  by (induction ts arbitrary: fs vs) (auto split: prod.splits if_splits)

lemma run_targets_ok: "run_targets exec target fs ts = Some (fs', vs) \<Longrightarrow> list_all result_ok vs"
  by (induction ts arbitrary: fs vs) (auto split: prod.splits if_splits)

lemma last_item_ok:
  assumes "run_targets exec target fs ts = Some (fs', vs)" "item_results segs rs vs (length ts)" "rs \<noteq> []"
    "length rs = seg_end segs (length ts)"
  shows "result_ok (last rs)"
proof -
  have "0 < length ts" using assms(3,4) by (cases "ts") auto
  then have "last rs = vs ! (length ts - 1)"
    using assms(2-4) by (auto simp: item_results_def last_conv_nth dest!: spec [of _ "length ts - 1"])
  then show ?thesis
    using run_targets_ok [OF assms(1)] run_targets_length [OF assms(1)] \<open>0 < length ts\<close> by (simp add: list_all_length)
qed

lemma last_status:
  assumes "accepts req res" "cr_len res = 1 + length rs" "cr_ops res = Some (sr # rs)" "rs \<noteq> []"
  shows "cr_status res = response_op_status (last rs)"
proof -
  have "last rs = nth_op res (res_nops res - 1)" using assms(2-4) by (simp add: nth_op_def res_nops_def last_conv_nth)
  then show ?thesis using accepts_status [OF assms(1), of "res_nops res - 1"] assms(2) by (simp add: res_nops_def)
qed

lemma failed_last:
  assumes "accepts req res" "cr_len res = 1 + length rs" "cr_ops res = Some (sr # rs)" "rs \<noteq> []"
  shows "result_ok (last rs) \<longleftrightarrow> cr_status res = NFS_OK"
  using last_status [OF assms] by (simp add: result_ok_def)

text \<open>Whatever was executed, the client attributes it to the right item.\<close>

definition chunk_outcome ::
  "'fs op_exec \<Rightarrow> 't item_target \<Rightarrow> 'fs \<Rightarrow> 'fs \<Rightarrow> nat \<Rightarrow> 't list \<Rightarrow> nfs_argop4 list list \<Rightarrow> nfs_argop4 list \<Rightarrow>
   CompoundRes \<Rightarrow> RpcError + (nat \<times> nat) option \<Rightarrow> bool" where
  "chunk_outcome exec target fs fs' g ts segs extra res r \<longleftrightarrow>
     (case r of
        Inr None \<Rightarrow> \<exists>vs. run_targets exec target fs ts = Some (fs', vs) \<and> chunk_values segs res vs
      | Inr (Some (caller, st)) \<Rightarrow> \<exists>k vs. k < length ts \<and> caller = g + k \<and>
          run_targets exec target fs (take k ts) = Some (fs', vs) \<and> chunk_values segs res vs \<and>
          (\<exists>ro. op_refused exec fs' (target (ts ! k)) ro \<and> st = response_op_status ro)
      | Inl e \<Rightarrow> cr_status res \<noteq> NFS_OK \<and> e = rpc_op 0 (cr_status res) \<and> (res_nops res \<le> 1 \<or> extra \<noteq> []) \<and>
          (\<exists>k vs. k \<le> length ts \<and> run_targets exec target fs (take k ts) = Some (fs', vs)))"

lemma chunk_attributed:
  assumes quiet_exec: "quiet_exec exec" and server: "path_server obs exec tp" and path: "\<And>t. path_op (snd (target t))"
    and segs: "segments target ts no_handles segs" and extra: "list_all navigation extra"
    and rq: "cp_ops rq = sq # concat segs @ extra" and m: "fill_ranges g segs (em_ranges m)"
    and call: "compound_call tp rq w = (w', Inr res)" "accepts (cp_ops rq) res"
  shows "chunk_outcome exec target (obs w) (obs w') g ts segs extra res (first_failed_range res m)"
proof -
  note ne = segments_nonempty [OF segs] and len = segments_length [OF segs]
  have ops: "list_all path_op (concat segs @ extra)"
    using segments_path_ops [OF segs path] extra by (auto simp: list_all_iff path_op_def)
  from path_effect(2) [OF server rq ops call(1)] show ?thesis
  proof (elim disjE exE conjE)
    assume "obs w' = obs w" "cr_status res \<noteq> NFS_OK" "res_nops res \<le> 1"
    then show ?thesis using first_failed_rejected [OF call(2)] by (auto simp: chunk_outcome_def intro: exI [of _ 0])
  next
    fix rs sr
    assume run: "run_ops exec (obs w) no_handles (concat segs @ extra) = (obs w', rs)"
      and res: "cr_len res = 1 + length rs" "cr_ops res = Some (sr # rs)"
    have nops: "res_nops res = 1 + length rs" using res(1) by (simp add: res_nops_def)
    from run_segments [OF quiet_exec extra segs run] show ?thesis
    proof (elim disjE exE)
      assume "run_complete exec target (obs w) ts segs (obs w') rs"
      then obtain vs where vs: "run_targets exec target (obs w) ts = Some (obs w', vs)" "length (concat segs) \<le> length rs"
        "item_results segs rs vs (length ts)" unfolding run_complete_def by blast
      show ?thesis
      proof (cases "cr_status res = NFS_OK")
        case True
        have "chunk_values segs res vs"
          by (rule chunk_valuesI [OF call(2) res vs(3) _ ne]) (use True len vs(2) seg_end_all [of segs "length ts"] in auto)
        moreover have "first_failed_range res m = Inr None"
          by (rule first_failed_ok [OF call(2) True _ ne m]) (simp_all add: rq)
        ultimately show ?thesis using vs(1) by (simp add: chunk_outcome_def)
      next
        case False
        have "first_failed_range res m = Inl (rpc_op 0 (cr_status res)) \<and> (res_nops res \<le> 1 \<or> extra \<noteq> [])"
        proof (cases "rs = []")
          case True
          then show ?thesis using nops by (simp add: first_failed_rejected [OF call(2) _ False])
        next
          case some: False
          then have "\<not> result_ok (last rs)" using failed_last [OF call(2) res] False by blast
          then have "length rs \<noteq> length (concat segs)"
            using last_item_ok [OF vs(1,3) some] seg_end_all [of segs "length ts"] len by auto
          then have more: "length (concat segs) < length rs" using vs(2) by simp
          then have "first_failed_range res m = Inl (rpc_op 0 (cr_status res))"
            using nops by (intro first_failed_extra [OF call(2) False _ ne m]) auto
          moreover have "extra \<noteq> []" using more run_ops_results [OF run] by auto
          ultimately show ?thesis by simp
        qed
        then show ?thesis using vs(1) False by (auto simp: chunk_outcome_def intro!: exI [of _ "length ts"])
      qed
    next
      fix k assume "run_stopped exec target (obs w) ts segs (obs w') rs k"
      then obtain vs where k: "k < length ts" "seg_end segs k < length rs" "length rs \<le> seg_end segs (Suc k)"
        "op_refused exec (obs w') (target (ts ! k)) (last rs)" "run_targets exec target (obs w) (take k ts) = Some (obs w', vs)"
        "item_results segs rs vs k"
        unfolding run_stopped_def by blast
      have some: "rs \<noteq> []" using k(2) by auto
      have bad: "cr_status res \<noteq> NFS_OK" using failed_last [OF call(2) res some] k(4) by (simp add: op_refused_def)
      have "chunk_values segs res vs"
        by (rule chunk_valuesI [OF call(2) res k(6) _ ne]) (use k(1,2) len in auto)
      moreover have "first_failed_range res m = Inr (Some (g + k, cr_status res))"
        by (rule first_failed_item [OF call(2) bad _ _ _ ne m]) (use k(1-3) len nops in auto)
      ultimately show ?thesis using k(1,4,5) last_status [OF call(2) res some] by (auto simp: chunk_outcome_def)
    qed
  qed
qed

section \<open>Values of the items\<close>

definition value_slots :: "(nfs_resop4 \<Rightarrow> 'r) \<Rightarrow> nfs_resop4 list \<Rightarrow> nat \<Rightarrow> 'r option list" where
  "value_slots val vs n = map (\<lambda>v. Some (val v)) vs @ replicate (n - length vs) None"

lemma slots_length [simp]: "length vs \<le> n \<Longrightarrow> length (value_slots val vs n) = n"
  by (simp add: value_slots_def)

lemma slots_Nil: "value_slots val [] n = replicate n None"
  by (simp add: value_slots_def)

lemma slots_nth: "i < n \<Longrightarrow> value_slots val vs n ! i = (if i < length vs then Some (val (vs ! i)) else None)"
  by (simp add: value_slots_def nth_append)

lemma slots_snoc: "length vs < n \<Longrightarrow> (value_slots val vs n)[length vs := Some (val v)] = value_slots val (vs @ [v]) n"
  by (rule nth_equalityI) (auto simp: slots_nth nth_list_update nth_append)

lemma store_ranges_append:
  "store_ranges rd res (xs @ ys) out =
     (case store_ranges rd res xs out of None \<Rightarrow> None | Some out' \<Rightarrow> store_ranges rd res ys out')"
  by (induction rd res xs "out" rule: store_ranges.induct) (auto split: option.splits)

text \<open>A reader that gives the value of the last operation of an item.\<close>

definition reads_items :: "'r range_reader \<Rightarrow> 't item_target \<Rightarrow> (nfs_resop4 \<Rightarrow> 'r) \<Rightarrow> 'r option \<Rightarrow> bool" where
  "reads_items rd target val none \<longleftrightarrow>
     (\<forall>req res c s e ops t. accepts req res \<and> decoded res \<and> s + length ops + 1 = e \<and>
        (\<forall>j. s \<le> j \<and> j < e \<longrightarrow> op_status res j = Some NFS_OK) \<and>
        take (e - s) (drop s req) = ops @ [snd (target t)] \<and> list_all navigation ops \<longrightarrow>
        rd res (c, s, e) = Some (Some (val (nth_op res (e - 1))))) \<and>
     (\<forall>res c s. rd res (c, s, s) = Some none)"

lemma segments_nth:
  "segments target ts r segs \<Longrightarrow> k < length segs \<Longrightarrow> \<exists>ops t. segs ! k = ops @ [snd (target t)] \<and> list_all navigation ops"
proof (induction ts arbitrary: r segs k)
  case (Cons t ts)
  then obtain ops rest where "segs = (ops @ [snd (target t)]) # rest" "list_all navigation ops"
    "segments target ts (moves (ops @ [snd (target t)]) r) rest" by auto
  then show ?case using Cons.IH [of _ rest "k - 1"] Cons.prems(2) by (cases k) auto
qed simp

lemma segment_slice:
  assumes "k < length segs"
  shows "take (length (segs ! k)) (drop (1 + seg_end segs k) (sq # concat segs @ extra)) = segs ! k"
proof -
  have "concat segs = concat (take k segs) @ segs ! k @ concat (drop (Suc k) segs)"
    using assms by (subst id_take_nth_drop [OF assms]) simp
  then show ?thesis by (simp add: seg_end_def)
qed

lemma seg_end_Suc: "k < length segs \<Longrightarrow> seg_end segs (Suc k) = seg_end segs k + length (segs ! k)"
  by (simp add: seg_end_def take_Suc_conv_app_nth)

lemma store_segments:
  assumes reads: "reads_items rd target val none" and acc: "accepts req res" "decoded res"
    and req: "req = sq # concat segs @ extra" and segs: "segments target ts r segs" and vs: "chunk_values segs res vs"
    and n: "length vs0 + length segs \<le> n"
  shows "k \<le> length vs \<Longrightarrow> store_ranges rd res (layout 1 (lens (length vs0) (take k segs))) (value_slots val vs0 n) =
    Some (value_slots val (vs0 @ take k vs) n)"
proof (induction k)
  case 0
  then show ?case by (simp add: lens_def)
next
  case (Suc k)
  let ?g = "length vs0"
  have k: "k < length segs" "k < length vs" using Suc.prems vs by (auto simp: chunk_values_def)
  obtain ops t where seg: "segs ! k = ops @ [snd (target t)]" "list_all navigation ops" using segments_nth [OF segs k(1)] by blast
  let ?s = "1 + seg_end segs k" and ?e = "1 + seg_end segs (Suc k)"
  have e: "?s + length ops + 1 = ?e" "?e - ?s = length (segs ! k)" using seg_end_Suc [OF k(1)] seg(1) by auto
  have ok: "op_status res j = Some NFS_OK" if "j < ?e" for j
    using vs that seg_end_mono [of "Suc k" "length vs" segs] k(2) by (simp add: chunk_values_def)
  have "take (?e - ?s) (drop ?s req) = ops @ [snd (target t)]"
    unfolding e(2) req using segment_slice [OF k(1)] seg(1) by metis
  then have rd: "rd res (?g + k, ?s, ?e) = Some (Some (val (nth_op res (?e - 1))))"
    using reads [unfolded reads_items_def, THEN conjunct1, rule_format, of req res ?s ops ?e t "?g + k"] acc e(1) ok seg(2) by auto
  have nth: "nth_op res (?e - 1) = vs ! k" using vs k(2) by (simp add: chunk_values_def)
  have lens: "layout 1 (lens ?g (take (Suc k) segs)) = layout 1 (lens ?g (take k segs)) @ [(?g + k, ?s, ?e)]"
    using k(1) seg_end_Suc [OF k(1)]
    by (simp add: take_Suc_conv_app_nth lens_snoc seg_end_def)
  have "length (vs0 @ take k vs) = ?g + k" "?g + k < n" using k n by auto
  then show ?case unfolding lens store_ranges_append using Suc.IH k(2) rd nth slots_snoc [of "vs0 @ take k vs" n val "vs ! k"]
    by (simp add: take_Suc_conv_app_nth)
qed

lemma filter_ranges:
  assumes "fill_ranges g segs ranges" "k \<le> length segs"
  shows "filter (\<lambda>r. fst r < g + k) ranges = layout 1 (lens g (take k segs))"
proof -
  obtain tail where tail: "ranges = layout 1 (lens g segs) @ tail"
    "tail = [] \<or> tail = [(g + length segs, 1 + length (concat segs), 1 + length (concat segs))]"
    using assms(1) unfolding fill_ranges_def by blast
  have split: "lens g segs = lens g (take k segs) @ lens (g + k) (drop k segs)"
    using assms(2) lens_append [of g "take k segs" "drop k segs"] by simp
  have callers: "fst ` set (layout i (lens j segs')) = {j..<j + length segs'}" for i j segs'
    by (metis layout_callers lens_simps(1) list.set_map set_upt)
  have "fst r < g + k" if "r \<in> set (layout 1 (lens g (take k segs)))" for r
    using imageI [OF that, of fst] assms(2) unfolding callers by simp
  moreover have "\<not> fst r < g + k" if "r \<in> set (layout i (lens (g + k) (drop k segs)))" for r i
    using imageI [OF that, of fst] unfolding callers by simp
  moreover have "\<not> fst r < g + k" if "r \<in> set tail" for r using tail(2) that assms(2) by auto
  ultimately show ?thesis unfolding tail(1) split layout_append by (auto simp: filter_empty_conv filter_id_conv)
qed

section \<open>The loop\<close>

text \<open>Where a merged operation stands: the first \<open>k\<close> items were executed and have their values.\<close>

definition merged ::
  "'fs op_exec \<Rightarrow> 't item_target \<Rightarrow> (nfs_resop4 \<Rightarrow> 'r) \<Rightarrow> 't list \<Rightarrow> 'fs \<Rightarrow> nat \<Rightarrow> 'fs \<Rightarrow> 'r option list \<Rightarrow> bool" where
  "merged exec target val items fs0 k fs out \<longleftrightarrow>
     k \<le> length items \<and>
     (\<exists>vs. run_targets exec target fs0 (take k items) = Some (fs, vs) \<and> out = value_slots val vs (length items))"

text \<open>The outcome its caller sees.  A failed item is one the server refused, a malformed path,
  whose slot then holds \<open>none\<close>, or any item if the limits of the session have no room for
  one (\<open>full\<close>); \<open>final\<close> says what an error may be.\<close>

definition merged_outcome ::
  "'fs op_exec \<Rightarrow> 't item_target \<Rightarrow> ('t \<Rightarrow> bool) \<Rightarrow> (nfs_resop4 \<Rightarrow> 'r) \<Rightarrow> 'r option \<Rightarrow> 't list \<Rightarrow> bool \<Rightarrow>
   (RpcError \<Rightarrow> bool) \<Rightarrow> 'fs \<Rightarrow> 'fs \<Rightarrow> 'r PathOutcome outcome \<Rightarrow> bool" where
  "merged_outcome exec target valid val none items full final fs0 fs r \<longleftrightarrow>
     (case r of
        Done o' \<Rightarrow> \<exists>k out. merged exec target val items fs0 k fs out \<and>
          (if k = length items then po_failed o' = None \<and> po_results o' = out
           else \<exists>st. po_failed o' = Some (k, st) \<and>
             (full \<and> st = NFS4ERR_TOO_MANY_OPS \<and> po_results o' = out \<or>
              \<not> valid (items ! k) \<and> st = NFS4ERR_INVAL \<and> po_results o' = out[k := none] \<or>
              (\<exists>ro. op_refused exec fs (target (items ! k)) ro \<and> st = response_op_status ro \<and> po_results o' = out)))
      | Fail e \<Rightarrow> final e \<and> (rpc_is_transport e \<or> (\<exists>k out. merged exec target val items fs0 k fs out))
      | Stuck \<Rightarrow> False)"

text \<open>The errors of a merged operation, as they follow from the requests it sends: one that the
  client refuses, one that was lost, and a reply that rejects a request before its
  items or, if there is a malformed item, after them.\<close>

definition path_failures ::
  "'w transport \<Rightarrow> RequestSafety \<Rightarrow> bool \<Rightarrow> ('w \<Rightarrow> RpcError \<Rightarrow> bool) \<Rightarrow> bool" where
  "path_failures tp safety bad final \<longleftrightarrow>
     (\<forall>w e. local_refusal e \<longrightarrow> final w (ambiguous_message safety e)) \<and>
     (\<forall>rq w w' e. compound_call tp rq w = (w', Inl e) \<longrightarrow> final w' (ambiguous_message safety e)) \<and>
     (\<forall>rq w w' res. compound_call tp rq w = (w', Inr res) \<and> cr_status res \<noteq> NFS_OK \<and>
        (res_nops res \<le> 1 \<or> bad) \<longrightarrow> final w' (rpc_op 0 (cr_status res)))"

lemma run_targets_append:
  "run_targets exec target fs (xs @ ys) =
     (case run_targets exec target fs xs of
        None \<Rightarrow> None
      | Some (fs1, vs) \<Rightarrow> map_option (\<lambda>(fs2, vs2). (fs2, vs @ vs2)) (run_targets exec target fs1 ys))"
proof (induction xs arbitrary: fs)
  case Nil
  then show ?case by (cases "run_targets exec target fs ys") auto
next
  case (Cons x xs)
  obtain fs1 res where x: "exec fs (fst (target x)) (snd (target x)) = (fs1, res)" by fastforce
  show ?case
  proof (cases "run_targets exec target fs1 xs")
    case (Some p)
    then show ?thesis using Cons.IH [of fs1] x
      by (cases "run_targets exec target (fst p) ys") (auto split: prod.splits)
  qed (use Cons.IH [of fs1] x in simp)
qed

lemma merged_extend:
  assumes "merged exec target val items fs0 g fs (value_slots val vs0 (length items))" "length vs0 = g"
    and run: "run_targets exec target fs (take k (slice items g e)) = Some (fs', vs)" and k: "k \<le> e - g" "e \<le> length items"
  shows "merged exec target val items fs0 (g + k) fs' (value_slots val (vs0 @ vs) (length items))"
proof -
  obtain vs1 where vs1: "run_targets exec target fs0 (take g items) = Some (fs, vs1)"
    "value_slots val vs0 (length items) = value_slots val vs1 (length items)" "g \<le> length items"
    using assms(1) unfolding merged_def by blast
  have len: "length vs1 = g" using run_targets_length [OF vs1(1)] vs1(3) by simp
  have "take (g + k) items = take g items @ take k (slice items g e)"
    using k by (simp add: slice_def take_add min_def)
  then have "run_targets exec target fs0 (take (g + k) items) = Some (fs', vs1 @ vs)"
    using vs1(1) run by (simp add: run_targets_append)
  moreover have "value_slots val (vs0 @ vs) n = value_slots val (vs1 @ vs) n" if "n = length items" for n
    using vs1(2) assms(2) len that by (simp add: value_slots_def)
  moreover have "g + k \<le> length items" using k vs1(3) by linarith
  ultimately show ?thesis unfolding merged_def by auto
qed

definition safe_retry :: "('t, 'r) path_shape \<Rightarrow> 'fs op_exec \<Rightarrow> 't item_target \<Rightarrow> bool" where
  "safe_retry ps exec target \<longleftrightarrow>
     (\<forall>cl res b. ps_retry ps cl (ps_tag ps) res b path_reserve (ps_per_file ps) \<longrightarrow>
        paths_budget ps cl < b \<and>
        (resource_rejected_before_mutation (res_view res) \<or>
         (\<forall>fs t. fst (exec fs (fst (target t)) (snd (target t))) = fs)))"

lemma run_targets_harmless:
  assumes "\<And>fs t. fst (exec fs (fst (target t)) (snd (target t))) = fs"
  shows "run_targets exec target fs ts = Some (fs', vs) \<Longrightarrow> fs' = fs"
proof (induction ts arbitrary: vs)
  case (Cons t ts)
  then show ?case using assms [of fs t] by (auto split: prod.splits if_splits)
qed simp

lemma rejected_unchanged:
  assumes quiet_exec: "quiet_exec exec" and server: "path_server obs exec tp" and rq: "cp_ops rq = sq # ops" "list_all path_op ops"
    and call: "compound_call tp rq w = (w', Inr res)" "accepts (cp_ops rq) res"
    and rej: "resource_rejected_before_mutation (res_view res)"
  shows "obs w' = obs w"
  using path_effect(2) [OF server rq call(1)]
proof (elim disjE exE conjE)
  fix rs sr
  assume run: "run_ops exec (obs w) no_handles ops = (obs w', rs)"
    and res: "cr_len res = 1 + length rs" "cr_ops res = Some (sr # rs)"
  have "length rs \<le> 1" using rejected_nops [OF rej] res(1) by (simp add: res_nops_def)
  then consider "rs = []" | r where "rs = [r]" by (cases rs) auto
  then show ?thesis
  proof cases
    case 1
    then show ?thesis using run by (cases ops) (auto split: prod.splits if_splits)
  next
    case (2 r)
    have "\<not> result_ok r"
      using failed_last [OF call(2) res] 2 out_of_resources_status [OF rejected_out_of_resources [OF rej]] by simp
    then show ?thesis using run 2 quiet_exec unfolding quiet_exec_def by (cases ops) (auto split: prod.splits if_splits, blast)
  qed
qed

text \<open>The invariant of the loop: the items before \<open>g\<close> were executed, and a failure that is already
  recorded is a malformed path that is still to come; or the loop is about to leave
  after such a path.\<close>

definition paths_inv ::
  "'fs op_exec \<Rightarrow> 't item_target \<Rightarrow> ('t \<Rightarrow> bool) \<Rightarrow> (nfs_resop4 \<Rightarrow> 'r) \<Rightarrow> 'r option \<Rightarrow> nat \<Rightarrow> 't list \<Rightarrow> 'fs \<Rightarrow>
   nat \<Rightarrow> 'r option list \<Rightarrow> (nat \<times> nat) option \<Rightarrow> NfsClient \<Rightarrow> 'fs \<Rightarrow> bool" where
  "paths_inv exec target valid val none per_file items fs0 g out failed cl fs \<longleftrightarrow>
     (merged exec target val items fs0 g fs out \<and>
      (failed = None \<or> (\<exists>k. g \<le> k \<and> k < length items \<and> failed = Some (k, NFS4ERR_INVAL) \<and> \<not> valid (items ! k) \<and>
         1 + per_file \<le> nc_max_ops cl))) \<or>
     (g = length items \<and> (\<exists>k out0. k < length items \<and> \<not> valid (items ! k) \<and> failed = Some (k, NFS4ERR_INVAL) \<and>
         merged exec target val items fs0 k fs out0 \<and> out = out0[k := none]))"

definition paths_progress ::
  "'fs op_exec \<Rightarrow> 't item_target \<Rightarrow> ('t \<Rightarrow> bool) \<Rightarrow> (nfs_resop4 \<Rightarrow> 'r) \<Rightarrow> 'r option \<Rightarrow> ('t, 'r) path_shape \<Rightarrow> 't list \<Rightarrow>
   ('w \<Rightarrow> 'fs) \<Rightarrow> ('w \<Rightarrow> RpcError \<Rightarrow> bool) \<Rightarrow> 'fs \<Rightarrow> NfsClient \<Rightarrow> nat \<Rightarrow> nat \<Rightarrow>
   'w client_state \<times> ('r paths_vars, 'r PathOutcome outcome) ctl \<Rightarrow> bool" where
  "paths_progress exec target valid val none ps items obs final fs0 cl g m r \<longleftrightarrow>
     (case r of
        ((cl', w'), Again (g', m', out', failed')) \<Rightarrow>
          client_ok cl' \<and> nc_max_ops cl' = nc_max_ops cl \<and> 0 < m' \<and>
          paths_inv exec target valid val none (ps_per_file ps) items fs0 g' out' failed' cl' (obs w') \<and>
          g < length items \<and> g \<le> g' \<and>
          (g = g' \<longrightarrow> paths_budget ps cl' < paths_budget ps cl \<or> cl' = cl \<and> m' < m)
      | (st', Leave_Loop r) \<Rightarrow>
          merged_outcome exec target valid val none items (nc_max_ops cl < 1 + ps_per_file ps) (final (snd st')) fs0
            (obs (snd st')) r)"

lemma paths_inv_end:
  assumes "paths_inv exec target valid val none per_file items fs0 g out failed cl fs" "\<not> g < length items"
  shows "merged_outcome exec target valid val none items full final fs0 fs (Done \<lparr> po_results = out, po_failed = failed \<rparr>)"
proof -
  have g: "g = length items" if "merged exec target val items fs0 g fs out" using that assms(2) by (simp add: merged_def)
  from assms(1) show ?thesis unfolding paths_inv_def
  proof (elim disjE exE conjE)
    assume "merged exec target val items fs0 g fs out" "failed = None"
    then show ?thesis using g by (auto simp: merged_outcome_def)
  next
    fix k out0
    assume "k < length items" "\<not> valid (items ! k)" "failed = Some (k, NFS4ERR_INVAL)"
      "merged exec target val items fs0 k fs out0" "out = out0[k := none]"
    then show ?thesis by (auto simp: merged_outcome_def intro!: exI [of _ k] exI [of _ out0])
  qed (use assms(2) in auto)
qed

text \<open>What the inner loop leaves behind.\<close>

definition chunk_filled ::
  "'t item_target \<Rightarrow> ('t \<Rightarrow> bool) \<Rightarrow> 't list \<Rightarrow> nat \<Rightarrow> (nat \<times> nat) option \<Rightarrow> path_fill \<Rightarrow>
   nfs_argop4 list list \<Rightarrow> nfs_argop4 list \<Rightarrow> item_range list \<Rightarrow> bool" where
  "chunk_filled target valid items g failed f segs extra tail \<longleftrightarrow>
     g + length segs \<le> length items \<and> list_all valid (slice items g (g + length segs)) \<and>
     segments target (slice items g (g + length segs)) no_handles segs \<and> list_all navigation extra \<and>
     cp_ops (pf_compound f) = concat segs @ extra \<and> em_ranges (pf_map f) = layout 1 (lens g segs) @ tail \<and>
     (tail = [] \<and> extra = [] \<and> segs \<noteq> [] \<and> pf_global f = g + length segs \<and> pf_failed f = failed \<or>
      tail = [(g + length segs, 1 + length (concat segs), 1 + length (concat segs))] \<and>
      g + length segs < length items \<and> \<not> valid (items ! (g + length segs)) \<and>
      pf_global f = length items \<and> pf_failed f = Some (g + length segs, NFS4ERR_INVAL))"

lemma filled_ranges: "chunk_filled target valid items g failed f segs extra tail \<Longrightarrow> fill_ranges g segs (em_ranges (pf_map f))"
  by (auto simp: chunk_filled_def fill_ranges_def)

lemma filledI:
  assumes "filling target valid items tag g f segs \<and> pf_failed f = failed \<or> malformed_fill target valid items tag g f segs extra"
    and "em_ranges (pf_map f) \<noteq> []" "1 + length (cp_ops (pf_compound f)) \<le> usize_max"
  shows "\<exists>extra tail. chunk_filled target valid items g failed f segs extra tail"
  using assms(1)
proof (elim disjE conjE)
  assume fill: "filling target valid items tag g f segs" "pf_failed f = failed"
  have ops: "cp_ops (pf_compound f) = concat segs" using fill(1) by (simp add: filling_def appends_def)
  have map: "em_ranges (pf_map f) = layout 1 (lens g segs)"
    using fill(1) build_map_layout [of "lens g segs"] assms(3) ops by (simp add: filling_def)
  then have "segs \<noteq> []" using assms(2) by (auto simp: lens_def)
  then have "chunk_filled target valid items g failed f segs [] []" using fill ops map by (simp add: chunk_filled_def filling_def)
  then show ?thesis by blast
next
  assume fill: "malformed_fill target valid items tag g f segs extra"
  have ops: "cp_ops (pf_compound f) = concat segs @ extra" using fill by (simp add: malformed_fill_def appends_def)
  have "1 + sum_list (map snd (lens g segs)) \<le> usize_max" using assms(3) ops by simp
  from build_map_layout [OF this] have "chunk_filled target valid items g failed f segs extra
      [(g + length segs, 1 + length (concat segs), 1 + length (concat segs))]"
    using fill ops by (simp add: chunk_filled_def malformed_fill_def)
  then show ?thesis by blast
qed

text \<open>The interface of an item: the operations that are appended act in one place, and their
  value is read from a reply.\<close>

locale path_items =
  fixes ps :: "('t, 'r) path_shape" and target :: "'t item_target" and valid :: "'t \<Rightarrow> bool"
    and val :: "nfs_resop4 \<Rightarrow> 'r" and none :: "'r option"
  assumes acts: "acts (ps_add ps) target valid"
    and path: "path_op (snd (target t))"
    and reads: "reads_items (ps_read ps) target val none"
    and small: "1 + ps_per_file ps \<le> usize_max"
begin

lemma stored:
  assumes fill: "chunk_filled target valid items g failed f segs extra tail" and acc: "accepts (sq # cp_ops (pf_compound f)) res" "decoded res"
    and vs: "chunk_values segs res vs" and m: "merged exec target val items fs0 g fs out"
  shows "\<exists>vs0. out = value_slots val vs0 (length items) \<and> length vs0 = g \<and>
    store_ranges (ps_read ps) res (layout 1 (lens g (take (length vs) segs))) out = Some (value_slots val (vs0 @ vs) (length items))"
proof -
  obtain vs0 where vs0: "run_targets exec target fs0 (take g items) = Some (fs, vs0)" "out = value_slots val vs0 (length items)"
    "g \<le> length items" using m unfolding merged_def by blast
  have len: "length vs0 = g" using run_targets_length [OF vs0(1)] vs0(3) by simp
  have "store_ranges (ps_read ps) res (layout 1 (lens (length vs0) (take (length vs) segs))) (value_slots val vs0 (length items)) =
      Some (value_slots val (vs0 @ take (length vs) vs) (length items))"
    using fill len by (intro store_segments [OF reads acc, where ?sq = sq and ?extra = extra, OF _ _ vs]) (auto simp: chunk_filled_def)
  then show ?thesis using vs0(2) len by auto
qed

lemma store_empty:
  assumes "c < length out" "out ! c = None"
  shows "store_ranges (ps_read ps) res [(c, i, i)] out = Some (out[c := none])"
  using assms reads list_update_id [of "out" c] by (cases none) (auto simp: reads_items_def)

text \<open>A request whose items were all executed.\<close>

lemma finish_step:
  assumes fill: "chunk_filled target valid items g failed f segs extra tail" and g: "g < length items"
    and did: "merged exec target val items fs0 (g + length segs) (obs w') (value_slots val vs (length items))"
    and stale: "failed = None \<or> (\<exists>k. g \<le> k \<and> k < length items \<and> failed = Some (k, NFS4ERR_INVAL) \<and> \<not> valid (items ! k) \<and>
         1 + ps_per_file ps \<le> nc_max_ops cl')"
    and cl: "client_ok cl'" "nc_max_ops cl' = nc_max_ops cl"
    and stored: "store_ranges (ps_read ps) res (layout 1 (lens g segs)) out = Some (value_slots val vs (length items))"
  shows "paths_progress exec target valid val none ps items obs final fs0 cl g m
    (try_in (of_option (store_ranges (ps_read ps) res (em_ranges (pf_map f)) out)) (\<lambda>out.
       if g = pf_global f then leave_paths out (get_or_insert (pf_failed f) (g, NFS4ERR_TOO_MANY_OPS))
       else again (pf_global f, usize_max, out, pf_failed f)) (cl', w'))"
proof -
  note fills = fill [unfolded chunk_filled_def]
  let ?n = "length items" and ?k = "g + length segs"
  have ranges: "em_ranges (pf_map f) = layout 1 (lens g segs) @ tail" using fills by blast
  obtain vs1 where vs1: "run_targets exec target fs0 (take ?k items) = Some (obs w', vs1)" "value_slots val vs ?n = value_slots val vs1 ?n" "?k \<le> ?n"
    using did unfolding merged_def by blast
  have len: "length vs1 = ?k" using run_targets_length [OF vs1(1)] vs1(3) by simp
  from fills have "tail = [] \<and> segs \<noteq> [] \<and> pf_global f = ?k \<and> pf_failed f = failed \<or>
      tail = [(?k, 1 + length (concat segs), 1 + length (concat segs))] \<and> ?k < ?n \<and> \<not> valid (items ! ?k) \<and>
      pf_global f = ?n \<and> pf_failed f = Some (?k, NFS4ERR_INVAL)" by blast
  then show ?thesis
  proof (elim disjE conjE)
    assume f: "tail = []" "segs \<noteq> []" "pf_global f = ?k" "pf_failed f = failed"
    have "?k \<le> k" if "g \<le> k" "k < ?n" "\<not> valid (items ! k)" for k
    proof (rule ccontr)
      assume "\<not> ?k \<le> k"
      then have "items ! k \<in> set (slice items g ?k)" using that vs1(3)
        by (auto simp: slice_def in_set_conv_nth intro!: exI [of _ "k - g"])
      then show False using fills that(3) by (auto simp: list_all_iff)
    qed
    then have "failed = None \<or> (\<exists>k. ?k \<le> k \<and> k < ?n \<and> failed = Some (k, NFS4ERR_INVAL) \<and> \<not> valid (items ! k) \<and>
         1 + ps_per_file ps \<le> nc_max_ops cl')" using stale by blast
    then show ?thesis using f stored did cl g
      by (auto simp: ranges paths_progress_def paths_inv_def try_in_def of_option_def again_def u64_max_def)
  next
    assume f: "tail = [(?k, 1 + length (concat segs), 1 + length (concat segs))]" "?k < ?n" "\<not> valid (items ! ?k)"
      "pf_global f = ?n" "pf_failed f = Some (?k, NFS4ERR_INVAL)"
    have "store_ranges (ps_read ps) res (em_ranges (pf_map f)) out = Some ((value_slots val vs ?n)[?k := none])"
      unfolding ranges store_ranges_append stored f(1) option.case vs1(2)
      by (rule store_empty) (use f(2) len in \<open>simp_all add: slots_nth\<close>)
    then show ?thesis using f did cl g
      by (auto simp: paths_progress_def paths_inv_def try_in_def of_option_def again_def u64_max_def)
  qed
qed

lemma settle_step:
  assumes quiet_exec: "quiet_exec exec" and server: "path_server obs exec tp" and dec: "decoded_transport tp"
    and fill: "chunk_filled target valid items g failed f segs extra tail" and g: "g < length items"
    and inv: "merged exec target val items fs0 g (obs w) out"
      "failed = None \<or> (\<exists>k. g \<le> k \<and> k < length items \<and> failed = Some (k, NFS4ERR_INVAL) \<and> \<not> valid (items ! k) \<and>
         1 + ps_per_file ps \<le> nc_max_ops cl')"
    and cl: "client_ok cl'" "nc_max_ops cl' = nc_max_ops cl"
    and final: "path_failures tp (ps_safety ps) (\<not> list_all valid items) final"
    and rq: "cp_ops rq = sq # cp_ops (pf_compound f)" and call: "compound_call tp rq w = (w', Inr res)"
  shows "paths_progress exec target valid val none ps items obs final fs0 cl g m (paths_settle ps g f out res (cl', w'))"
proof -
  note fills = fill [unfolded chunk_filled_def]
  let ?n = "length items" and ?ts = "slice items g (g + length segs)"
  have acc: "accepts (cp_ops rq) res" "decoded res" using compound_call_decoded [OF dec call] by auto
  have ts: "length ?ts = length segs" using fills by (auto simp: slice_def)
  have cops: "cp_ops rq = sq # concat segs @ extra" using rq fills by simp
  have "chunk_outcome exec target (obs w) (obs w') g ?ts segs extra res (first_failed_range res (pf_map f))"
    using fills by (intro chunk_attributed [OF quiet_exec server path _ _ cops filled_ranges [OF fill] call acc(1)]) auto
  note outcome = this [unfolded chunk_outcome_def]
  note stored' = stored [OF fill acc [unfolded rq] _ inv(1)]
  show ?thesis
  proof (cases "first_failed_range res (pf_map f)")
    case (Inl e)
    then obtain k vs where k: "k \<le> length ?ts" "run_targets exec target (obs w) (take k ?ts) = Some (obs w', vs)"
      and e: "cr_status res \<noteq> NFS_OK" "e = rpc_op 0 (cr_status res)" "res_nops res \<le> 1 \<or> extra \<noteq> []"
      using outcome by auto
    have "\<not> list_all valid items" if "extra \<noteq> []" using fills that by (auto simp: list_all_length)
    then have fin: "final w' e" using final call e unfolding path_failures_def by blast
    obtain vs0 where vs0: "out = value_slots val vs0 ?n" "length vs0 = g" using inv(1) run_targets_length by (fastforce simp: merged_def)
    have "merged exec target val items fs0 (g + k) (obs w') (value_slots val (vs0 @ vs) ?n)"
      using inv(1) vs0 k ts fills by (intro merged_extend [OF _ vs0(2) k(2)]) auto
    then show ?thesis using Inl fin by (auto simp: paths_settle_def paths_progress_def try_in_def merged_outcome_def of_sum_def)
  next
    case (Inr failure)
    show ?thesis
    proof (cases failure)
      case (Some p)
      obtain caller st where p: "p = (caller, st)" by fastforce
      obtain k vs where k: "k < length ?ts" "caller = g + k" "run_targets exec target (obs w) (take k ?ts) = Some (obs w', vs)"
        "chunk_values segs res vs" and refused: "\<exists>ro. op_refused exec (obs w') (target (?ts ! k)) ro \<and> st = response_op_status ro"
        using outcome Inr Some p by auto
      have item: "?ts ! k = items ! (g + k)" using k(1) fills by (auto simp: slice_def)
      have len: "length vs = k" using run_targets_length [OF k(3)] k(1) by simp
      obtain vs0 where vs0: "out = value_slots val vs0 ?n" "length vs0 = g"
        "store_ranges (ps_read ps) res (layout 1 (lens g (take k segs))) out = Some (value_slots val (vs0 @ vs) ?n)"
        using stored' [OF k(4)] len by auto
      have "filter (\<lambda>r. fst r < caller) (em_ranges (pf_map f)) = layout 1 (lens g (take k segs))"
        unfolding k(2) using k(1) ts by (intro filter_ranges [OF filled_ranges [OF fill]]) simp
      moreover have "merged exec target val items fs0 (g + k) (obs w') (value_slots val (vs0 @ vs) ?n)"
        using inv(1) vs0 k ts fills by (intro merged_extend [OF _ vs0(2) k(3)]) auto
      moreover have "g + k < ?n" using k(1) ts fills by linarith
      ultimately show ?thesis using Inr Some p vs0(3) k(2) refused [unfolded item]
        by (auto simp: paths_settle_def paths_progress_def try_in_def merged_outcome_def leave_paths_def leave_with_def
            of_sum_def of_option_def ret_def
            intro!: exI [of _ "g + k"])
    next
      case None
      then obtain vs where vs: "run_targets exec target (obs w) ?ts = Some (obs w', vs)" "chunk_values segs res vs"
        using outcome Inr by auto
      have len: "length vs = length segs" using run_targets_length [OF vs(1)] ts by simp
      obtain vs0 where vs0: "out = value_slots val vs0 ?n" "length vs0 = g"
        "store_ranges (ps_read ps) res (layout 1 (lens g segs)) out = Some (value_slots val (vs0 @ vs) ?n)"
        using stored' [OF vs(2)] len by auto
      have did: "merged exec target val items fs0 (g + length segs) (obs w') (value_slots val (vs0 @ vs) ?n)"
        using inv(1) vs0 ts fills vs(1) by (intro merged_extend [OF _ vs0(2), where ?k = "length segs" and ?e = "g + length segs"]) auto
      show ?thesis
        using finish_step [where ?obs = obs and ?w' = w', OF fill g did inv(2) cl vs0(3)] Inr None
        by (simp add: paths_settle_def try_in_def [of "of_sum _"] of_sum_def)
    qed
  qed
qed

lemma fill_ops:
  assumes "filling target valid items tag g f segs \<or> malformed_fill target valid items tag g f segs extra"
  shows "list_all path_op (cp_ops (pf_compound f))"
proof -
  from assms obtain extra where "segments target (slice items g (g + length segs)) no_handles segs"
    "cp_ops (pf_compound f) = concat segs @ extra" "list_all navigation extra"
    by (auto simp: filling_def malformed_fill_def appends_def)
  then show ?thesis using segments_path_ops [of target, OF _ path] navigation_path_ops by simp
qed

text \<open>What is sent again changed nothing.\<close>

lemma retry_unchanged:
  assumes quiet_exec: "quiet_exec exec" and server: "path_server obs exec tp" and safe: "safe_retry ps exec target"
    and fill: "chunk_filled target valid items g failed f segs extra tail"
    and rq: "cp_ops rq = sq # cp_ops (pf_compound f)" and call: "compound_call tp rq w = (w', Inr res)" "accepts (cp_ops rq) res"
    and retry: "ps_retry ps cl (ps_tag ps) res b path_reserve (ps_per_file ps)"
  shows "obs w' = obs w \<and> paths_budget ps cl < b"
proof -
  note fills = fill [unfolded chunk_filled_def]
  have cops: "cp_ops rq = sq # concat segs @ extra" using rq fills by simp
  have ops: "list_all path_op (concat segs @ extra)"
    using fills segments_path_ops [of target, OF _ path] navigation_path_ops by auto
  have "chunk_outcome exec target (obs w) (obs w') g (slice items g (g + length segs)) segs extra res (first_failed_range res (pf_map f))"
    using fills by (intro chunk_attributed [OF quiet_exec server path _ _ cops filled_ranges [OF fill] call]) auto
  then obtain k vs where run: "run_targets exec target (obs w) (take k (slice items g (g + length segs))) = Some (obs w', vs)"
    by (auto simp: chunk_outcome_def split: sum.splits option.splits dest!: spec [of _ "length segs"]) (metis take_all_iff order_refl)+
  show ?thesis using safe [unfolded safe_retry_def, rule_format, OF retry]
    rejected_unchanged [OF quiet_exec server cops ops call] run_targets_harmless [OF _ run] by blast
qed

lemma send_step:
  assumes quiet_exec: "quiet_exec exec" and server: "path_server obs exec tp" and dec: "decoded_transport tp"
    and safe: "safe_retry ps exec target"
    and final: "path_failures tp (ps_safety ps) (\<not> list_all valid items) final" and ok: "client_ok cl" and g: "g < length items"
    and inv: "merged exec target val items fs0 g (obs w) out"
      "failed = None \<or> (\<exists>k. g \<le> k \<and> k < length items \<and> failed = Some (k, NFS4ERR_INVAL) \<and> \<not> valid (items ! k))"
    and lim: "1 + ps_per_file ps \<le> nc_max_ops cl"
    and fill: "filling target valid items tag g f segs \<and> pf_failed f = failed \<or> malformed_fill target valid items tag g f segs extra"
    and ranges: "em_ranges (pf_map f) \<noteq> []" and c: "cp_ops c = cp_ops (pf_compound f)"
  shows "paths_progress exec target valid val none ps items obs final fs0 cl g m
    (paths_send tp ps (paths_budget ps cl) g f out c (cl, w))"
proof -
  have ops: "list_all path_op (cp_ops (pf_compound f))" by (rule fill_ops) (use fill in blast)
  from ok show ?thesis
  proof (cases rule: request_cases [where ?tp = tp and ?c = c and ?w = w])
    case (refused e)
    moreover have "final w (ambiguous_message (ps_safety ps) e)" using final refused(2) by (simp add: path_failures_def)
    ultimately show ?thesis using inv(1)
      by (auto simp: paths_send_def paths_progress_def try_in_def map_err_def call_compound_with_safety_def merged_outcome_def)
  next
    case (failed w' rq e)
    have "rpc_is_transport e" using path_effect(1) [OF server _ ops failed(3)] failed(2) c by auto
    moreover have "final w' (ambiguous_message (ps_safety ps) e)" using final failed(3) by (auto simp: path_failures_def)
    ultimately show ?thesis using failed(1)
      by (auto simp: paths_send_def paths_progress_def try_in_def map_err_def call_compound_with_safety_def merged_outcome_def
          ambiguous_message_def rpc_is_transport_def)
  next
    case (answered w' rq res s')
    let ?cl = "observe_reply (cp_tag c) (1 + length (cp_ops c)) res (cl \<lparr> nc_session := s' \<rparr>)"
    have ok': "client_ok ?cl" "nc_max_ops ?cl = nc_max_ops cl" using observed_client [OF ok refl] by auto
    have "1 + length (cp_ops (pf_compound f)) \<le> usize_max"
      using answered(7) c ok by (simp add: client_ok_def MAX_COMPOUND_OPS_def u64_max_def)
    from filledI [OF fill ranges this] obtain extra tail where
      chunk_filled: "chunk_filled target valid items g failed f segs extra tail" by blast
    have rq: "cp_ops rq = session_sequence (nc_session cl) # cp_ops (pf_compound f)" using answered(2) c by simp
    have call: "call_compound_with_safety tp c (ps_safety ps) (cl, w) = ((?cl, w'), Done res)"
      using answered(1) by (simp add: map_err_def call_compound_with_safety_def)
    have send: "paths_send tp ps (paths_budget ps cl) g f out c (cl, w) =
        (if ps_retry ps ?cl (ps_tag ps) res (paths_budget ps cl) path_reserve (ps_per_file ps)
         then again (g, usize_max, out, pf_failed f) (?cl, w') else paths_settle ps g f out res (?cl, w'))"
      by (simp add: paths_send_def try_in_def call)
    have "paths_progress exec target valid val none ps items obs final fs0 cl g m (again (g, usize_max, out, pf_failed f) (?cl, w'))"
      if "ps_retry ps ?cl (ps_tag ps) res (paths_budget ps cl) path_reserve (ps_per_file ps)"
    proof -
      have same: "obs w' = obs w" "paths_budget ps ?cl < paths_budget ps cl"
        using retry_unchanged [OF quiet_exec server safe chunk_filled rq answered(4,5) that] by auto
      have "pf_failed f = failed \<or> (g + length segs < length items \<and> \<not> valid (items ! (g + length segs)) \<and>
          pf_failed f = Some (g + length segs, NFS4ERR_INVAL))" using chunk_filled by (auto simp: chunk_filled_def)
      then show ?thesis using same ok' inv lim g
        by (auto simp: paths_progress_def again_def paths_inv_def u64_max_def)
    qed
    moreover have "paths_progress exec target valid val none ps items obs final fs0 cl g m (paths_settle ps g f out res (?cl, w'))"
      by (rule settle_step [OF quiet_exec server dec chunk_filled g inv(1) _ ok' final rq answered(4)]) (use inv(2) lim ok'(2) in auto)
    ultimately show ?thesis unfolding send by simp
  qed
qed

lemma budget_bounds:
  assumes "client_ok cl"
  shows "1 + ps_per_file ps \<le> paths_budget ps cl \<longleftrightarrow> 1 + ps_per_file ps \<le> nc_max_ops cl"
  using small assms
  by (auto simp: paths_budget_def merged_limit_def op_budget_for_def compound_budget_new_def client_ok_def sat_add_def Let_def min_def max_def)

lemma fill_start:
  assumes g: "g < length items" "0 < m"
    and f: "f = fill_paths cl (ps_per_file ps) (ps_est ps) budget m (ps_add ps) items
      \<lparr> pf_cursor = cursor_default, pf_compound = tagged (ps_tag ps), pf_map = map_new, pf_payload = 0,
        pf_global = g, pf_failed = failed \<rparr>"
  shows "(\<exists>segs extra. filling target valid items (ps_tag ps) g f segs \<and> length segs \<le> m \<and> pf_failed f = failed \<or>
      malformed_fill target valid items (ps_tag ps) g f segs extra) \<and>
    (em_ranges (pf_map f) = [] \<longleftrightarrow> \<not> 1 + ps_per_file ps \<le> budget) \<and>
    (em_ranges (pf_map f) = [] \<longrightarrow> pf_failed f = failed)"
proof -
  let ?fill = "fill_paths cl (ps_per_file ps) (ps_est ps) budget m (ps_add ps) items"
  let ?start = "\<lparr> pf_cursor = cursor_default, pf_compound = tagged (ps_tag ps), pf_map = map_new, pf_payload = 0,
      pf_global = g, pf_failed = failed \<rparr>"
  have track: "tracks cursor_default no_handles" by (simp add: tracks_def cursor_default_def)
  have start: "filling target valid items (ps_tag ps) g ?start []"
    using g(1) track by (simp add: filling_def appends_def lens_def build_map_def slice_def)
  have result: "(\<exists>segs'. filling target valid items (ps_tag ps) g f segs' \<and> length segs' \<le> m \<and> pf_failed f = failed) \<or>
      (\<exists>segs' extra. malformed_fill target valid items (ps_tag ps) g f segs' extra)"
    using fill_paths_result [OF acts start, of m cl "ps_per_file ps" "ps_est ps" budget] f by (simp add: Let_def)
  show ?thesis
  proof (cases "1 + ps_per_file ps \<le> budget")
    case False
    then have "f = ?start" unfolding f by (subst fill_paths.simps) (simp add: map_new_def)
    then show ?thesis using start False by (auto simp: map_new_def intro: exI [of _ "[]"])
  next
    case True
    obtain cu c m' ok where add: "ps_add ps cursor_default (tagged (ps_tag ps)) (map_begin map_new g) (items ! g) = ((cu, c, m'), ok)"
      by (metis prod.exhaust)
    let ?next = "?start \<lparr> pf_cursor := cu, pf_compound := c, pf_map := map_end m', pf_payload := ps_est ps, pf_global := g + 1 \<rparr>"
    have "em_ranges (pf_map f) \<noteq> []"
    proof (cases ok)
      case False
      then have "em_ranges (pf_map f) = em_ranges m'" unfolding f using True g add
        by (subst fill_paths.simps) (simp add: map_new_def)
      moreover have "em_ranges m' \<noteq> []"
        using filling_step [OF acts start, of cu c m' ok] g(1) add False by (auto simp: malformed_fill_def)
      ultimately show ?thesis by simp
    next
      case ok: True
      then obtain seg where seg: "filling target valid items (ps_tag ps) g ?next [seg]"
        using filling_step [OF acts start, of cu c m' ok "ps_est ps"] g(1) add by auto
      have "?fill ?start = (if budget < em_next (map_end m') + ps_per_file ps \<and> g + 1 < length items then ?next else ?fill ?next)"
        using True g add ok by (subst fill_paths.simps) (simp add: map_new_def Let_def)
      then have "f = ?next \<or> f = ?fill ?next" unfolding f by auto
      then have "(\<exists>segs'. filling target valid items (ps_tag ps) g f segs' \<and> 1 \<le> length segs') \<or>
          (\<exists>segs' extra. malformed_fill target valid items (ps_tag ps) g f segs' extra)"
        using fill_paths_result [OF acts seg, of m cl "ps_per_file ps" "ps_est ps" budget] seg g(2) by (auto simp: Let_def)
      then show ?thesis
      proof (elim disjE exE conjE)
        fix segs' assume "filling target valid items (ps_tag ps) g f segs'" "1 \<le> length segs'"
        then show ?thesis using build_map_count [of "lens g segs'"] by (auto simp: filling_def)
      qed (simp add: malformed_fill_def)
    qed
    then show ?thesis using result True by blast
  qed
qed

lemma body_step:
  assumes quiet_exec: "quiet_exec exec" and server: "path_server obs exec tp" and dec: "decoded_transport tp"
    and safe: "safe_retry ps exec target"
    and final: "path_failures tp (ps_safety ps) (\<not> list_all valid items) final" and ok: "client_ok cl" and m: "0 < m"
    and inv: "paths_inv exec target valid val none (ps_per_file ps) items fs0 g out failed cl (obs w)"
  shows "paths_progress exec target valid val none ps items obs final fs0 cl g m (paths_body tp ps items (g, m, out, failed) (cl, w))"
proof (cases "g < length items")
  case False
  then show ?thesis using paths_inv_end [OF inv False]
    by (simp add: paths_body_def paths_progress_def leave_paths_def leave_with_def ret_def)
next
  case g: True
  have run: "merged exec target val items fs0 g (obs w) out"
    and stale: "failed = None \<or> (\<exists>k. g \<le> k \<and> k < length items \<and> failed = Some (k, NFS4ERR_INVAL) \<and> \<not> valid (items ! k) \<and>
       1 + ps_per_file ps \<le> nc_max_ops cl)" using inv g by (auto simp: paths_inv_def)
  define f where "f = fill_paths cl (ps_per_file ps) (ps_est ps) (paths_budget ps cl) m (ps_add ps) items
      \<lparr> pf_cursor = cursor_default, pf_compound = tagged (ps_tag ps), pf_map = map_new, pf_payload = 0,
        pf_global = g, pf_failed = failed \<rparr>"
  note start = fill_start [OF g m f_def]
  let ?count = "length (em_ranges (pf_map f))"
  have body: "paths_body tp ps items (g, m, out, failed) (cl, w) =
      (if em_ranges (pf_map f) = [] then leave_paths out (get_or_insert (pf_failed f) (g, NFS4ERR_TOO_MANY_OPS)) (cl, w)
       else if pf_failed f = None
       then try_in (of_option (merged_paths_need_repack tp cl (ps_tag ps) (1 + ps_per_file ps) (pf_compound f) ?count)) (\<lambda>(c, repack).
              if repack then again (g, ?count - 1, out, pf_failed f)
              else paths_send tp ps (paths_budget ps cl) g f out c) (cl, w)
       else paths_send tp ps (paths_budget ps cl) g f out (pf_compound f) (cl, w))"
    using g by (simp only: paths_body_def Let_def prod.case fst_conv f_def simp_thms if_False)
  show ?thesis
  proof (cases "em_ranges (pf_map f) = []")
    case True
    then have "pf_failed f = None" "nc_max_ops cl < 1 + ps_per_file ps" using start stale budget_bounds [OF ok] by auto
    then show ?thesis using True g run
      by (auto simp: body paths_progress_def leave_paths_def leave_with_def ret_def get_or_insert_def merged_outcome_def
          intro!: exI [of _ g])
  next
    case False
    obtain segs extra where fill: "filling target valid items (ps_tag ps) g f segs \<and> length segs \<le> m \<and> pf_failed f = failed \<or>
        malformed_fill target valid items (ps_tag ps) g f segs extra" using start by blast
    have lim: "1 + ps_per_file ps \<le> nc_max_ops cl" using start False budget_bounds [OF ok] by blast
    have send: "paths_progress exec target valid val none ps items obs final fs0 cl g m (paths_send tp ps (paths_budget ps cl) g f out c (cl, w))"
      if "cp_ops c = cp_ops (pf_compound f)" for c
      using fill stale by (intro send_step [where ?failed = failed, OF quiet_exec server dec safe final ok g run _ lim _ False that]) auto
    have repack: "\<exists>c repack. merged_paths_need_repack tp cl (ps_tag ps) (1 + ps_per_file ps) (pf_compound f) ?count = Some (c, repack) \<and>
        cp_ops c = cp_ops (pf_compound f) \<and> (repack \<longrightarrow> 1 < ?count)"
      using compound_request_fits_total [of tp cl "pf_compound f"] by (auto simp: merged_paths_need_repack_def)
    have "?count \<le> m" if "pf_failed f = None"
      using fill that build_map_count [of "lens g segs"] by (auto simp: filling_def malformed_fill_def)
    then have "paths_progress exec target valid val none ps items obs final fs0 cl g m (again (g, ?count - 1, out, pf_failed f) (cl, w))"
      if "1 < ?count" "pf_failed f = None"
      using that run ok g by (auto simp: paths_progress_def again_def paths_inv_def)
    then show ?thesis using False send repack by (auto simp: body try_in_def of_option_def)
  qed
qed

lemma paths_op_outcome:
  assumes "quiet_exec exec" "path_server obs exec tp" "decoded_transport tp" "safe_retry ps exec target"
    and "path_failures tp (ps_safety ps) (\<not> list_all valid items) final" and ok: "client_ok cl"
    and result: "paths_op tp ps items (cl, w) = ((cl', w'), r)"
  shows "merged_outcome exec target valid val none items (nc_max_ops cl < 1 + ps_per_file ps) (final w') (obs w) (obs w') r"
proof -
  let ?body = "paths_body tp ps items"
  let ?I = "\<lambda>(g, m, out, failed) (cl1, w1). client_ok cl1 \<and> nc_max_ops cl1 = nc_max_ops cl \<and> 0 < m \<and>
      paths_inv exec target valid val none (ps_per_file ps) items (obs w) g out failed cl1 (obs w1)"
  let ?Q = "\<lambda>s r. merged_outcome exec target valid val none items (nc_max_ops cl < 1 + ps_per_file ps) (final (snd s)) (obs w)
      (obs (snd s)) r"
  let ?R = "inv_image (less_than <*lex*> less_than <*lex*> less_than)
      (\<lambda>((g, m, out, failed), (cl, w1)). (length items - g, paths_budget ps cl, m))"
  have "?Q (fst (paths_op tp ps items (cl, w))) (snd (paths_op tp ps items (cl, w)))" unfolding paths_op_def
  proof (rule loop_op_rule [where I = ?I and R = ?R and Q = ?Q])
    show "?I (0, usize_max, replicate (length items) None, None) (cl, w)"
      using ok by (simp add: paths_inv_def merged_def slots_Nil u64_max_def)
    show "?I l' s' \<and> ((l', s'), (l, s)) \<in> ?R" if a: "?I l s" "?body l s = (s', Again l')" for l s l' s'
    proof -
      obtain g m "out" failed g' m' out' failed' where l: "l = (g, m, out, failed)" "l' = (g', m', out', failed')" by (metis prod.exhaust)
      obtain cl1 w1 cl2 w2 where s: "s = (cl1, w1)" "s' = (cl2, w2)" by fastforce
      have prog: "paths_progress exec target valid val none ps items obs final (obs w) cl1 g m (?body l s)"
        unfolding l s using a(1) l(1) s(1) by (intro body_step [OF assms(1-5)]) auto
      moreover have "nc_max_ops cl1 = nc_max_ops cl" using a(1) l s by auto
      ultimately show ?thesis using prog [unfolded a(2)] unfolding l s by (auto simp: paths_progress_def)
    qed
    show "?Q s' r"
      if a: "?I l s" "?body l s = (s', Leave_Loop r)" for l s s' r
    proof -
      obtain g m "out" failed where l: "l = (g, m, out, failed)" by (metis prod.exhaust)
      obtain cl1 w1 where s: "s = (cl1, w1)" by fastforce
      have "nc_max_ops cl1 = nc_max_ops cl" using a(1) l s by auto
      moreover have "paths_progress exec target valid val none ps items obs final (obs w) cl1 g m (?body l s)"
        unfolding l s using a(1) l s by (intro body_step [OF assms(1-5)]) auto
      ultimately show ?thesis unfolding a(2) by (cases s') (simp add: paths_progress_def)
    qed
  qed auto
  then show ?thesis by (simp add: result)
qed

end

section \<open>The three kinds of items\<close>

lemma mark_reads: "reads_items mark_range target (\<lambda>_. ()) (Some ())"
  by (simp add: reads_items_def mark_range_def)

text \<open>The attribute list of a result.\<close>

definition attr_list :: "nfs_resop4 \<Rightarrow> wire" where
  "attr_list ro = (case ro_body ro of B_Attr bm v \<Rightarrow> (case field_slice v of Some b \<Rightarrow> b | None \<Rightarrow> []) | _ \<Rightarrow> [])"

lemma navigation_not_getattr: "navigation op \<Longrightarrow> argop op \<noteq> NFS4_OP_GETATTR"
  by (cases op) (simp_all add: navigation_def nfs_op_defs)

lemma r_getattr_value: "r_getattr res j = Some b \<Longrightarrow> expect_op res j NFS4_OP_GETATTR = Some ro \<Longrightarrow> attr_list ro = b"
  by (auto simp: r_getattr_def attr_list_def split: resbody.splits)

lemma last_getattr_skip:
  assumes acc: "accepts req res" and nav: "\<And>j. j \<in> set js \<Longrightarrow> j < res_nops res \<and> argop (req ! j) \<noteq> NFS4_OP_GETATTR"
  shows "last_getattr res (js @ ks) found = last_getattr res ks found"
  using nav
proof (induction js)
  case (Cons j js)
  then show ?case using accepts_op [OF acc, of j] by auto
qed simp

lemma getattr_reads: "reads_items getattr_range getattr_target attr_list None"
  unfolding reads_items_def
proof (intro conjI allI impI; (elim conjE)?)
  fix req res and c s e :: nat and ops t
  assume acc: "accepts req res" "decoded res" and e: "s + length ops + 1 = e"
    and ok: "\<forall>j. s \<le> j \<and> j < e \<longrightarrow> op_status res j = Some NFS_OK"
    and req: "take (e - s) (drop s req) = ops @ [snd (getattr_target t)]" and nav: "list_all navigation ops"
  have nth: "req ! (s + i) = (ops @ [snd (getattr_target t)]) ! i" if "i \<le> length ops" for i
  proof -
    have "length (take (e - s) (drop s req)) = length ops + 1" using req by simp
    then show ?thesis using that e arg_cong [OF req, of "\<lambda>xs. xs ! i"] by simp
  qed
  have in_reply: "j < res_nops res" if "s \<le> j" "j < e" for j
    using ok that by (fastforce simp: op_status_def resop_def split: if_splits)
  have skip: "last_getattr res ([s..<e - 1] @ [e - 1]) None = last_getattr res [e - 1] None"
  proof (rule last_getattr_skip [OF acc(1)])
    fix j assume j: "j \<in> set [s..<e - 1]"
    have i: "s + (j - s) = j" "j - s < length ops" using j e by auto
    then have "req ! j = ops ! (j - s)" using nth [of "j - s"] by (simp add: nth_append)
    moreover have "navigation (ops ! (j - s))" using nav i(2) by (simp add: list_all_length)
    ultimately show "j < res_nops res \<and> argop (req ! j) \<noteq> NFS4_OP_GETATTR"
      using navigation_not_getattr in_reply j by auto
  qed
  have arg: "argop (req ! (e - 1)) = NFS4_OP_GETATTR" using nth [of "length ops"] e by (auto simp: getattr_target_def)
  have last: "op_status res (e - 1) = Some NFS_OK" "e - 1 < res_nops res" using ok in_reply e by auto
  obtain b where b: "r_getattr res (e - 1) = Some b" using accessor_total(4) [OF acc last(1) arg] by blast
  have "response_op_status (nth_op res (e - 1)) = NFS_OK"
    using last accepts_op(1) [OF acc(1) last(2)] by (simp add: op_status_def)
  from r_getattr_value [OF b expect_op_accepts [OF acc(1) last(2) this arg]]
  have "last_getattr res [e - 1] None = Some (Some (attr_list (nth_op res (e - 1))))"
    using accepts_op(1,2) [OF acc(1) last(2)] arg b by simp
  moreover have "[s..<e] = [s..<e - 1] @ [e - 1]" using e by (metis add_diff_cancel_right' le_add1 upt_Suc_append Suc_eq_plus1)
  ultimately show "getattr_range res (c, s, e) = Some (Some (attr_list (nth_op res (e - 1))))"
    using skip by (simp add: getattr_range_def)
qed (simp add: getattr_range_def)

lemma target_path_ops: "path_op (snd (remove_target p))" "path_op (snd (rename_target q))" "path_op (snd (getattr_target t))"
  by (simp_all add: path_op_def remove_target_def rename_target_def getattr_target_def)

interpretation removals: path_items remove_shape remove_target valid_path "\<lambda>_. ()" "Some ()"
  by unfold_locales (simp_all add: remove_shape_def acts_remove target_path_ops mark_reads u64_max_def)

interpretation renames: path_items rename_shape rename_target valid_pair "\<lambda>_. ()" "Some ()"
  by unfold_locales (simp_all add: rename_shape_def acts_rename target_path_ops mark_reads u64_max_def)

interpretation queries: path_items getattr_shape getattr_target valid_ref attr_list None
  by unfold_locales (simp_all add: getattr_shape_def acts_getattr target_path_ops getattr_reads u64_max_def)

lemma mutation_retry: "safe_retry remove_shape exec target" "safe_retry rename_shape exec target'"
  by (auto simp: safe_retry_def remove_shape_def rename_shape_def can_retry_merged_resource_def paths_budget_def)

text \<open>A server whose GETATTR changes nothing.\<close>

definition getattr_pure :: "'fs op_exec \<Rightarrow> bool" where
  "getattr_pure exec \<longleftrightarrow> (\<forall>fs r bm. fst (exec fs r (A_Getattr bm)) = fs)"

lemma query_retry: "getattr_pure exec \<Longrightarrow> safe_retry getattr_shape exec getattr_target"
  by (auto simp: safe_retry_def getattr_shape_def can_retry_read_only_merged_resource_def paths_budget_def getattr_pure_def getattr_target_def)

text \<open>What an error of a merged operation is, by the log of what it sent.\<close>

definition paths_failure ::
  "'w transport \<Rightarrow> RequestSafety \<Rightarrow> bool \<Rightarrow> (Compound \<times> 'w) list \<Rightarrow> RpcError \<Rightarrow> bool" where
  "paths_failure tp safety bad log e \<longleftrightarrow>
     (\<exists>e0. local_refusal e0 \<and> e = ambiguous_message safety e0) \<or>
     (\<exists>rq w w' r. (rq, w) \<in> set log \<and> compound_call tp rq w = (w', r) \<and>
        (case r of
           Inl e0 \<Rightarrow> e = ambiguous_message safety e0
         | Inr res \<Rightarrow> cr_status res \<noteq> NFS_OK \<and> e = rpc_op 0 (cr_status res) \<and> (res_nops res \<le> 1 \<or> bad)))"

lemma logged_failures: "path_failures (logging tp) safety bad (\<lambda>wl. paths_failure tp safety bad (snd wl))"
  unfolding path_failures_def
proof (intro conjI allI impI; (elim conjE)?)
  fix wl :: "'a \<times> (Compound \<times> 'a) list" and e
  assume "local_refusal e"
  then show "paths_failure tp safety bad (snd wl) (ambiguous_message safety e)" by (auto simp: paths_failure_def)
next
  fix rq and wl wl' :: "'a \<times> (Compound \<times> 'a) list" and e
  assume "compound_call (logging tp) rq wl = (wl', Inl e)"
  then obtain w1 where "compound_call tp rq (fst wl) = (w1, Inl e)" "(rq, fst wl) \<in> set (snd wl')"
    by (cases wl) (auto simp: logging_call split: prod.splits)
  then show "paths_failure tp safety bad (snd wl') (ambiguous_message safety e)"
    unfolding paths_failure_def by (intro disjI2 exI conjI) auto
next
  fix rq and wl wl' :: "'a \<times> (Compound \<times> 'a) list" and res
  assume "compound_call (logging tp) rq wl = (wl', Inr res)" and res: "cr_status res \<noteq> NFS_OK" "res_nops res \<le> 1 \<or> bad"
  then obtain w1 where "compound_call tp rq (fst wl) = (w1, Inr res)" "(rq, fst wl) \<in> set (snd wl')"
    by (cases wl) (auto simp: logging_call split: prod.splits)
  then show "paths_failure tp safety bad (snd wl') (rpc_op 0 (cr_status res))"
    unfolding paths_failure_def using res by (intro disjI2 exI conjI) auto
qed

lemma logging_path_server: "path_server obs exec tp \<Longrightarrow> path_server (\<lambda>wl. obs (fst wl)) exec (logging tp)"
  unfolding path_server_def
proof (intro allI impI, elim conjE)
  fix c sq ops r and wl wl' :: "'a \<times> (Compound \<times> 'a) list"
  assume server: "\<forall>c w sq ops w' r. cp_ops c = sq # ops \<and> list_all path_op ops \<and> tp_rpc tp c w = (w', r) \<longrightarrow>
      (case r of Inl e \<Rightarrow> rpc_is_transport e
       | Inr res \<Rightarrow> (obs w' = obs w \<and> cr_status res \<noteq> NFS_OK \<and> res_nops res \<le> 1) \<or>
           (case run_ops exec (obs w) no_handles ops of
              (fs, rs) \<Rightarrow> obs w' = fs \<and> cr_len res = 1 + length rs \<and> (\<exists>sr. cr_ops res = Some (sr # rs))))"
    and ops: "cp_ops c = sq # ops" "list_all path_op ops" and call: "tp_rpc (logging tp) c wl = (wl', r)"
  have "tp_rpc tp c (fst wl) = (fst wl', r)" using call by (cases wl) (auto simp: logging_def split: prod.splits)
  from server [rule_format, OF conjI [OF ops(1) conjI [OF ops(2) this]]]
  show "case r of Inl e \<Rightarrow> rpc_is_transport e
       | Inr res \<Rightarrow> (obs (fst wl') = obs (fst wl) \<and> cr_status res \<noteq> NFS_OK \<and> res_nops res \<le> 1) \<or>
           (case run_ops exec (obs (fst wl)) no_handles ops of
              (fs, rs) \<Rightarrow> obs (fst wl') = fs \<and> cr_len res = 1 + length rs \<and> (\<exists>sr. cr_ops res = Some (sr # rs)))" .
qed

section \<open>Properties\<close>

text \<open>C40 (merged paths).  Removing, renaming or querying many paths in merged requests always ends.
  An outcome without failure means that exactly the listed operations took effect, in
  order and each in the directory its own path names, and that every query has the
  attribute list the server gives for this very path or handle, also if a request was
  sent again.  An outcome that names a failed item means that exactly the items before
  it took effect, so a caller may go on with the rest.  The failed item is one the
  server refused, with the status it gave, or a malformed path, or the first one when
  the limits of the session have no room for any.  The call fails as a whole only when
  the client refuses a request, when a request it sent was lost, or when the reply to
  one rejects it before the items (after them, too, if a path is malformed).  Unless a
  request was lost, some prefix of the items took effect then, never an item twice or
  out of order.\<close>

theorem merged_paths_in_order:
  assumes "quiet_exec exec" "path_server obs exec tp" "decoded_transport tp" "client_ok cl"
    and "removev_path_compound (logging tp) paths (cl, (w, [])) = ((cl1, (w1, log1)), r1)"
    and "renamev_path_compound (logging tp) pairs (cl, (w, [])) = ((cl2, (w2, log2)), r2)"
    and "getattr_path_compound (logging tp) ops (cl, (w, [])) = ((cl3, (w3, log3)), r3)"
  shows "merged_outcome exec remove_target valid_path (\<lambda>_. ()) (Some ()) paths (nc_max_ops cl < 4)
      (paths_failure tp NonIdempotentMutation (\<not> list_all valid_path paths) log1) (obs w) (obs w1) r1 \<and>
    merged_outcome exec rename_target valid_pair (\<lambda>_. ()) (Some ()) pairs (nc_max_ops cl < 9)
      (paths_failure tp NonIdempotentMutation (\<not> list_all valid_pair pairs) log2) (obs w) (obs w2) r2 \<and>
    (getattr_pure exec \<longrightarrow>
      merged_outcome exec getattr_target valid_ref attr_list None ops (nc_max_ops cl < 5)
        (paths_failure tp IdempotentMutation (\<not> list_all valid_ref ops) log3) (obs w) (obs w3) r3)"
proof (intro conjI impI)
  note server = logging_path_server [OF assms(2)] and dec = logging_decoded [OF assms(3)]
  show "merged_outcome exec remove_target valid_path (\<lambda>_. ()) (Some ()) paths (nc_max_ops cl < 4)
      (paths_failure tp NonIdempotentMutation (\<not> list_all valid_path paths) log1) (obs w) (obs w1) r1"
    using removals.paths_op_outcome [OF assms(1) server dec mutation_retry(1) logged_failures assms(4)
        assms(5) [unfolded removev_path_compound_def]] by (simp add: remove_shape_def)
  show "merged_outcome exec rename_target valid_pair (\<lambda>_. ()) (Some ()) pairs (nc_max_ops cl < 9)
      (paths_failure tp NonIdempotentMutation (\<not> list_all valid_pair pairs) log2) (obs w) (obs w2) r2"
    using renames.paths_op_outcome [OF assms(1) server dec mutation_retry(2) logged_failures assms(4)
        assms(6) [unfolded renamev_path_compound_def]] by (simp add: rename_shape_def)
  assume "getattr_pure exec"
  then show "merged_outcome exec getattr_target valid_ref attr_list None ops (nc_max_ops cl < 5)
      (paths_failure tp IdempotentMutation (\<not> list_all valid_ref ops) log3) (obs w) (obs w3) r3"
    using queries.paths_op_outcome [OF assms(1) server dec query_retry logged_failures assms(4)
        assms(7) [unfolded getattr_path_compound_def]] by (simp add: getattr_shape_def)
qed

text \<open>A server that knows the names in its tree.\<close>

definition names_exec :: "bytes list list op_exec" where
  "names_exec st r op =
     (let yes = \<lparr> ro_op = argop op, ro_status = 0, ro_body = granting_body op \<rparr>;
          no = \<lparr> ro_op = argop op, ro_status = 2, ro_body = B_None \<rparr>
      in case op of
           A_Remove name \<Rightarrow>
             (case rg_current r of
                Some (Below dir) \<Rightarrow> if dir @ [name] \<in> set st then (removeAll (dir @ [name]) st, yes) else (st, no)
              | _ \<Rightarrow> (st, no))
         | A_Rename old new \<Rightarrow>
             (case (rg_saved r, rg_current r) of
                (Some (Below src), Some (Below dst)) \<Rightarrow>
                  if src @ [old] \<in> set st then ((dst @ [new]) # removeAll (src @ [old]) st, yes) else (st, no)
              | _ \<Rightarrow> (st, no))
         | _ \<Rightarrow> (st, yes))"

definition names_server :: "bytes list list transport" where
  "names_server =
     \<lparr> tp_encode = tp_encode granting_server,
       tp_rpc = (\<lambda>c w.
         case run_ops names_exec w no_handles (tl (cp_ops c)) of
           (w', rs) \<Rightarrow>
             let all = \<lparr> ro_op = argop (hd (cp_ops c)), ro_status = 0, ro_body = granting_body (hd (cp_ops c)) \<rparr> # rs
             in (w', Inr \<lparr> cr_status = ro_status (last all), cr_len = length all, cr_ops = Some all \<rparr>)) \<rparr>"

lemma names_quiet: "quiet_exec names_exec"
  unfolding quiet_exec_def
proof (intro allI impI, elim conjE)
  fix st r op st' res
  assume "names_exec st r op = (st', res)" "navigation op \<or> \<not> result_ok res"
  then show "st' = st"
    by (cases op) (auto simp: names_exec_def Let_def navigation_def simp del: argop.simps split: option.splits place.splits if_splits)
qed

lemma names_path_server: "path_server (\<lambda>w. w) names_exec names_server"
  by (auto simp: path_server_def names_server_def Let_def split: prod.splits)

lemma run_ops_all:
  assumes "\<And>fs r op fs' res. exec fs r op = (fs', res) \<Longrightarrow> P res"
  shows "run_ops exec fs r ops = (fs', rs) \<Longrightarrow> list_all P rs"
  using assms by (induction ops arbitrary: fs r rs) (auto split: prod.splits if_splits)

lemma granting_op_decoded: "decoded_op \<lparr> ro_op = argop op, ro_status = 0, ro_body = granting_body op \<rparr>"
  by (cases op) (auto simp: decoded_op_def granting_body_def field_ok_def nfs_op_defs)

lemma names_exec_result:
  "names_exec st r op = (st', res) \<Longrightarrow>
     res = \<lparr> ro_op = argop op, ro_status = 0, ro_body = granting_body op \<rparr> \<or>
     res = \<lparr> ro_op = argop op, ro_status = 2, ro_body = B_None \<rparr>"
  unfolding names_exec_def Let_def by (auto split: nfs_argop4.splits option.splits place.splits if_splits)

lemma refusing_op_decoded: "decoded_op \<lparr> ro_op = n, ro_status = 2, ro_body = B_None \<rparr>"
  by (simp add: decoded_op_def NFS_OK_def)

lemma names_exec_decoded: "names_exec st r op = (st', res) \<Longrightarrow> decoded_op res"
  using names_exec_result [of st r op st' res] granting_op_decoded [of op] refusing_op_decoded [of "argop op"] by blast

lemma names_server_decoded: "decoded_transport names_server"
  unfolding decoded_transport_def
proof (intro allI impI)
  fix c w w' res assume call: "tp_rpc names_server c w = (w', Inr res)"
  obtain w1 rs where run: "run_ops names_exec w no_handles (tl (cp_ops c)) = (w1, rs)" by fastforce
  have "list_all decoded_op rs" by (rule run_ops_all [OF names_exec_decoded run])
  then show "decoded res" using call run granting_op_decoded
    by (auto simp: names_server_def Let_def decoded_def res_nops_def nth_op_def list_all_length nth_Cons')
qed

lemma names_getattr_pure: "getattr_pure names_exec"
  by (simp add: getattr_pure_def names_exec_def Let_def)

theorem merged_paths_in_order_witness:
  "\<exists>cl1 w1 log1 r1 cl3 w3 log3 r3.
    removev_path_compound (logging names_server) [''a/b'', ''a/c''] (fresh_client, ([[''a'', ''b'']], [])) =
      ((cl1, (w1, log1)), r1) \<and>
    merged_outcome names_exec remove_target valid_path (\<lambda>_. ()) (Some ()) [''a/b'', ''a/c''] (nc_max_ops fresh_client < 4)
      (paths_failure names_server NonIdempotentMutation (\<not> list_all valid_path [''a/b'', ''a/c'']) log1) [[''a'', ''b'']] w1 r1 \<and>
    getattr_path_compound (logging names_server) [\<lparr> pg_file = HandleRef ''h'', pg_attrs = [4] \<rparr>]
      (fresh_client, ([[''a'', ''b'']], [])) = ((cl3, (w3, log3)), r3) \<and>
    merged_outcome names_exec getattr_target valid_ref attr_list None [\<lparr> pg_file = HandleRef ''h'', pg_attrs = [4] \<rparr>]
      (nc_max_ops fresh_client < 5) (paths_failure names_server IdempotentMutation
        (\<not> list_all valid_ref [\<lparr> pg_file = HandleRef ''h'', pg_attrs = [4] \<rparr>]) log3) [[''a'', ''b'']] w3 r3"
proof -
  let ?st = "(fresh_client, ([[''a'', ''b'']], []))"
  obtain cl1 w1 log1 r1 where one: "removev_path_compound (logging names_server) [''a/b'', ''a/c''] ?st =
      ((cl1, (w1, log1)), r1)" by (metis prod.exhaust)
  obtain cl2 w2 log2 r2 where two: "renamev_path_compound (logging names_server) [] ?st =
      ((cl2, (w2, log2)), r2)" by (metis prod.exhaust)
  obtain cl3 w3 log3 r3 where three: "getattr_path_compound (logging names_server)
      [\<lparr> pg_file = HandleRef ''h'', pg_attrs = [4] \<rparr>] ?st = ((cl3, (w3, log3)), r3)" by (metis prod.exhaust)
  from merged_paths_in_order [OF names_quiet names_path_server names_server_decoded fresh_client_ok one two three]
    names_getattr_pure one three
  show ?thesis by blast
qed

end
