(* ===== verification/Vfs_Traversal.thy ===== *)
theory Vfs_Traversal
  imports Vfs_Attrs "HOL-Library.Char_ord" "HOL-Library.List_Lexorder" "HOL-Library.Option_ord"
    "HOL-Library.Multiset"
begin

text \<open>
  Resource policies and the event walk: \<^verbatim>\<open>crates/vfsi-core/src/api/support.rs\<close>,
  \<^verbatim>\<open>api/visit.rs\<close>, \<^verbatim>\<open>api/traversal.rs\<close> and \<^verbatim>\<open>internal/budget.rs\<close>.

  The filesystem (\<^verbatim>\<open>read_dir\<close>) and the visitor (\<^verbatim>\<open>callback\<close>) of \<^verbatim>\<open>walk_events\<close> are
  arbitrary functions on a state of any type.  Nothing is assumed about the tree:
  it may be infinite or cyclic.  The loop is a total function, because every
  directory read is paid from the entry budget.
\<close>

section \<open>Limits\<close>

definition DEFAULT_READ_MAX_BYTES :: nat where "DEFAULT_READ_MAX_BYTES = 16 * 1024 * 1024"
definition DEFAULT_READ_STREAM_CHUNK_BYTES :: nat where "DEFAULT_READ_STREAM_CHUNK_BYTES = 1024 * 1024"
definition DEFAULT_DIRECTORY_MAX_ENTRIES :: nat where "DEFAULT_DIRECTORY_MAX_ENTRIES = 100000"
definition DEFAULT_DIRECTORY_MAX_PATH_BYTES :: nat where
  "DEFAULT_DIRECTORY_MAX_PATH_BYTES = 16 * 1024 * 1024"
definition DEFAULT_WALK_MAX_DEPTH :: nat where "DEFAULT_WALK_MAX_DEPTH = 128"

definition u16_max :: nat where "u16_max = 65535"

text \<open>A \<^verbatim>\<open>NonZeroU16\<close>: one more than the depth, or the maximum for unlimited.\<close>

datatype DepthLimit = DepthLimit (depth_raw: nat)

definition depth_limit_new :: "nat \<Rightarrow> DepthLimit option" where
  "depth_limit_new depth = (if depth \<le> u16_max - 2 then Some (DepthLimit (depth + 1)) else None)"

definition depth_limit_unlimited :: DepthLimit where
  "depth_limit_unlimited = DepthLimit u16_max"

definition depth_limit_is_unlimited :: "DepthLimit \<Rightarrow> bool" where
  "depth_limit_is_unlimited d \<longleftrightarrow> depth_raw d = u16_max"

definition depth_limit_get :: "DepthLimit \<Rightarrow> nat" where
  "depth_limit_get d = (if depth_limit_is_unlimited d then usize_max else depth_raw d - 1)"

definition depth_limit_default :: DepthLimit where
  "depth_limit_default = DepthLimit (DEFAULT_WALK_MAX_DEPTH + 1)"

record StreamOptions =
  so_chunk_size :: nat

definition stream_options_new :: StreamOptions where
  "stream_options_new = \<lparr> so_chunk_size = DEFAULT_READ_STREAM_CHUNK_BYTES \<rparr>"

definition stream_with_chunk_size :: "StreamOptions \<Rightarrow> nat \<Rightarrow> StreamOptions" where
  "stream_with_chunk_size o' bytes = o' \<lparr> so_chunk_size := bytes \<rparr>"

record ResourceLimits =
  rl_max_read_bytes :: nat
  rl_stream_chunk_bytes :: nat
  rl_max_directory_entries :: nat
  rl_max_directory_path_bytes :: nat
  rl_max_walk_depth :: DepthLimit

definition resource_limits_default :: ResourceLimits where
  "resource_limits_default =
     \<lparr> rl_max_read_bytes = DEFAULT_READ_MAX_BYTES,
       rl_stream_chunk_bytes = DEFAULT_READ_STREAM_CHUNK_BYTES,
       rl_max_directory_entries = DEFAULT_DIRECTORY_MAX_ENTRIES,
       rl_max_directory_path_bytes = DEFAULT_DIRECTORY_MAX_PATH_BYTES,
       rl_max_walk_depth = depth_limit_default \<rparr>"

section \<open>Listing options\<close>

record VisitFlags =
  vis_recursive :: bool
  vis_truncate :: bool
  vis_entries_unlimited :: bool
  vis_bytes_unlimited :: bool
  vis_no_follow :: bool

definition visit_flags_new :: VisitFlags where
  "visit_flags_new =
     \<lparr> vis_recursive = False, vis_truncate = False, vis_entries_unlimited = False,
       vis_bytes_unlimited = False, vis_no_follow = False \<rparr>"

record ListDirOptions =
  ld_flags :: VisitFlags
  ld_entries :: "nat option"
  ld_bytes :: "nat option"
  ld_depth :: "DepthLimit option"
  ld_fields :: "32 word option"

definition list_new :: ListDirOptions where
  "list_new = \<lparr> ld_flags = visit_flags_new, ld_entries = None, ld_bytes = None, ld_depth = None,
     ld_fields = None \<rparr>"

definition list_unlimited :: ListDirOptions where
  "list_unlimited =
     \<lparr> ld_flags = visit_flags_new \<lparr> vis_entries_unlimited := True, vis_bytes_unlimited := True \<rparr>,
       ld_entries = None, ld_bytes = None, ld_depth = Some depth_limit_unlimited, ld_fields = None \<rparr>"

definition list_with_recursive :: "bool \<Rightarrow> ListDirOptions \<Rightarrow> ListDirOptions" where
  "list_with_recursive v o' = o' \<lparr> ld_flags := (ld_flags o') \<lparr> vis_recursive := v \<rparr> \<rparr>"

definition list_with_allow_symlink_components :: "bool \<Rightarrow> ListDirOptions \<Rightarrow> ListDirOptions" where
  "list_with_allow_symlink_components v o' =
     o' \<lparr> ld_flags := (ld_flags o') \<lparr> vis_no_follow := (\<not> v) \<rparr> \<rparr>"

text \<open>\<^verbatim>\<open>NonZeroUsize::new(value + 1)\<close>, or \<^verbatim>\<open>None\<close> on overflow.\<close>

definition list_with_max_entries :: "nat \<Rightarrow> ListDirOptions \<Rightarrow> ListDirOptions" where
  "list_with_max_entries v o' =
     o' \<lparr> ld_entries := checked_add v 1,
         ld_flags := (ld_flags o') \<lparr> vis_entries_unlimited := (v = usize_max) \<rparr> \<rparr>"

definition list_with_max_path_bytes :: "nat \<Rightarrow> ListDirOptions \<Rightarrow> ListDirOptions" where
  "list_with_max_path_bytes v o' =
     o' \<lparr> ld_bytes := checked_add v 1,
         ld_flags := (ld_flags o') \<lparr> vis_bytes_unlimited := (v = usize_max) \<rparr> \<rparr>"

definition list_with_max_depth :: "DepthLimit \<Rightarrow> ListDirOptions \<Rightarrow> ListDirOptions" where
  "list_with_max_depth v o' = o' \<lparr> ld_depth := Some v \<rparr>"

definition list_with_truncate :: "bool \<Rightarrow> ListDirOptions \<Rightarrow> ListDirOptions" where
  "list_with_truncate v o' = o' \<lparr> ld_flags := (ld_flags o') \<lparr> vis_truncate := v \<rparr> \<rparr>"

definition list_with_fields :: "32 word \<Rightarrow> ListDirOptions \<Rightarrow> ListDirOptions" where
  "list_with_fields v o' = o' \<lparr> ld_fields := Some v \<rparr>"

definition list_recursive :: "ListDirOptions \<Rightarrow> bool" where
  "list_recursive o' = vis_recursive (ld_flags o')"

definition list_allow_symlink_components :: "ListDirOptions \<Rightarrow> bool" where
  "list_allow_symlink_components o' = (\<not> vis_no_follow (ld_flags o'))"

definition list_fields :: "ListDirOptions \<Rightarrow> 32 word" where
  "list_fields o' = (case ld_fields o' of Some f \<Rightarrow> f | None \<Rightarrow> attr_mask_stat) OR AM_MODE"

definition list_max_entries :: "ListDirOptions \<Rightarrow> nat option" where
  "list_max_entries o' =
     (if vis_entries_unlimited (ld_flags o') then Some usize_max
      else map_option (\<lambda>v. v - 1) (ld_entries o'))"

definition list_max_path_bytes :: "ListDirOptions \<Rightarrow> nat option" where
  "list_max_path_bytes o' =
     (if vis_bytes_unlimited (ld_flags o') then Some usize_max
      else map_option (\<lambda>v. v - 1) (ld_bytes o'))"

definition unwrap_or :: "'a option \<Rightarrow> 'a \<Rightarrow> 'a" where
  "unwrap_or v d = (case v of Some x \<Rightarrow> x | None \<Rightarrow> d)"

definition list_max_entries_or :: "ListDirOptions \<Rightarrow> nat \<Rightarrow> nat" where
  "list_max_entries_or o' d = unwrap_or (list_max_entries o') d"

definition list_max_path_bytes_or :: "ListDirOptions \<Rightarrow> nat \<Rightarrow> nat" where
  "list_max_path_bytes_or o' d = unwrap_or (list_max_path_bytes o') d"

definition list_max_depth_or :: "ListDirOptions \<Rightarrow> DepthLimit \<Rightarrow> DepthLimit" where
  "list_max_depth_or o' d = unwrap_or (ld_depth o') d"

definition list_truncate :: "ListDirOptions \<Rightarrow> bool" where
  "list_truncate o' = vis_truncate (ld_flags o')"

definition list_resolve :: "ListDirOptions \<Rightarrow> ResourceLimits \<Rightarrow> ListDirOptions" where
  "list_resolve o' limits =
     (let entries = list_max_entries_or o' (rl_max_directory_entries limits);
          bytes = list_max_path_bytes_or o' (rl_max_directory_path_bytes limits);
          o'' = o' \<lparr> ld_depth := Some (list_max_depth_or o' (rl_max_walk_depth limits)) \<rparr>
      in list_with_max_path_bytes bytes (list_with_max_entries entries o''))"

definition list_walk_options :: "ListDirOptions \<Rightarrow> ResourceLimits \<Rightarrow> ListDirOptions" where
  "list_walk_options o' limits = list_resolve (list_with_recursive True o') limits"

definition list_directory_options :: "ListDirOptions \<Rightarrow> ResourceLimits \<Rightarrow> ListDirOptions" where
  "list_directory_options o' limits = list_resolve (list_with_recursive False o') limits"

definition limits_directory_options :: "ResourceLimits \<Rightarrow> ListDirOptions" where
  "limits_directory_options l =
     list_with_max_path_bytes (rl_max_directory_path_bytes l)
       (list_with_max_entries (rl_max_directory_entries l) list_new)"

definition limits_walk_options :: "ResourceLimits \<Rightarrow> ListDirOptions" where
  "limits_walk_options l =
     list_with_max_depth (rl_max_walk_depth l)
       (list_with_max_path_bytes (rl_max_directory_path_bytes l)
         (list_with_max_entries (rl_max_directory_entries l) (list_with_recursive True list_new)))"

record WalkOptions =
  wo_listing :: ListDirOptions
  wo_enter_leave :: bool
  wo_sort_by_name :: bool

definition walk_options_new :: "ListDirOptions \<Rightarrow> WalkOptions" where
  "walk_options_new listing =
     \<lparr> wo_listing = listing, wo_enter_leave = False, wo_sort_by_name = False \<rparr>"

section \<open>The traversal budget\<close>

record TraversalBudget =
  tb_entries :: nat
  tb_bytes :: nat

definition limit_error :: VfError where
  "limit_error = vf_errno (Some 0) EFBIG"

definition budget_new :: "nat \<Rightarrow> nat \<Rightarrow> TraversalBudget" where
  "budget_new entries bytes = \<lparr> tb_entries = entries, tb_bytes = bytes \<rparr>"

definition budget_remaining_options :: "TraversalBudget \<Rightarrow> ListDirOptions \<Rightarrow> ListDirOptions" where
  "budget_remaining_options b o' =
     list_with_max_path_bytes (tb_bytes b) (list_with_max_entries (tb_entries b) o')"

definition budget_charge_bytes :: "TraversalBudget \<Rightarrow> nat \<Rightarrow> VfError + TraversalBudget" where
  "budget_charge_bytes b n =
     (case checked_sub (tb_bytes b) n of
        None \<Rightarrow> Inl limit_error
      | Some rest \<Rightarrow> Inr (b \<lparr> tb_bytes := rest \<rparr>))"

fun sum_path_bytes :: "nat \<Rightarrow> bytes list \<Rightarrow> nat option" where
  "sum_path_bytes tot [] = Some tot"
| "sum_path_bytes tot (path # paths) =
     Option.bind (checked_add tot (length path)) (\<lambda>t. sum_path_bytes t paths)"

definition budget_charge_paths :: "TraversalBudget \<Rightarrow> bytes list \<Rightarrow> VfError + TraversalBudget" where
  "budget_charge_paths b paths =
     (if tb_entries b = 0 then Inl limit_error
      else case sum_path_bytes 0 paths of
             None \<Rightarrow> Inl limit_error
           | Some n \<Rightarrow>
               (case budget_charge_bytes b n of
                  Inl e \<Rightarrow> Inl e
                | Inr b' \<Rightarrow> Inr (b' \<lparr> tb_entries := tb_entries b' - 1 \<rparr>)))"

definition budget_charge :: "TraversalBudget \<Rightarrow> bytes \<Rightarrow> VfError + TraversalBudget" where
  "budget_charge b path = budget_charge_paths b [path]"

definition budget_charge_path :: "TraversalBudget \<Rightarrow> bytes \<Rightarrow> VfError + TraversalBudget" where
  "budget_charge_path b path = budget_charge_bytes b (length path)"

section \<open>The event walk\<close>

datatype WalkControl = Continue | SkipSubtree | Stop

datatype WalkEventKind = Enter | Entry | Leave

datatype TraversalCompletion = Complete | Stopped

record WalkEvent =
  we_kind :: WalkEventKind
  we_entry :: DirEntry
  we_depth :: nat

definition walk_event :: "DirEntry \<Rightarrow> nat \<Rightarrow> WalkEvent" where
  "walk_event entry depth =
     \<lparr> we_kind = (if attrs_is_dir (de_metadata entry) then Enter else Entry),
       we_entry = entry, we_depth = depth \<rparr>"

fun walk_charge :: "TraversalBudget \<Rightarrow> DirEntry list \<Rightarrow> VfError + TraversalBudget" where
  "walk_charge b [] = Inr b"
| "walk_charge b (entry # entries) =
     (case budget_charge b (de_path entry) of
        Inl e \<Rightarrow> Inl (vf_with_context e ''walk_events'' (de_path entry))
      | Inr b' \<Rightarrow> walk_charge b' entries)"

definition walk_sorted :: "bool \<Rightarrow> DirEntry list \<Rightarrow> DirEntry list" where
  "walk_sorted sort_by_name entries =
     (if sort_by_name then sort_key dir_entry_file_name entries else entries)"

text \<open>What can happen after a visited directory is admitted: the new budget and the
  pending events above the rest of the stack (its top comes first), or the
  outcome of the walk.\<close>

type_synonym 's read_dir = "bytes \<Rightarrow> ListDirOptions \<Rightarrow> 's \<Rightarrow> 's \<times> (VfError + DirEntry list)"
type_synonym 's walk_callback = "WalkEvent \<Rightarrow> 's \<Rightarrow> 's \<times> (VfError + WalkControl)"

definition walk_descend ::
  "ListDirOptions \<Rightarrow> bool \<Rightarrow> 's read_dir \<Rightarrow> WalkEvent \<Rightarrow> WalkControl \<Rightarrow> TraversalBudget \<Rightarrow> 's
     \<Rightarrow> 's \<times> (VfError + TraversalBudget \<times> WalkEvent list)" where
  "walk_descend opts sort_by_name read_dir event decision budget s =
     (let leave = event \<lparr> we_kind := Leave \<rparr>
      in if decision = SkipSubtree then (s, Inr (budget, [leave]))
         else if depth_limit_get (list_max_depth_or opts depth_limit_default) < we_depth event
         then if list_truncate opts then (s, Inr (budget, [leave]))
              else (s, Inl (vf_with_context (vf_errno (Some 0) EFBIG) ''walk_events'' (de_path (we_entry event))))
         else case read_dir (de_path (we_entry event)) (budget_remaining_options budget list_new) s of
                (s', Inl e) \<Rightarrow> (s', Inl e)
              | (s', Inr entries) \<Rightarrow>
                  (case walk_charge budget entries of
                     Inl e \<Rightarrow> (s', Inl e)
                   | Inr budget' \<Rightarrow>
                       (s', Inr (budget',
                          map (\<lambda>entry. walk_event entry (we_depth event + 1))
                            (walk_sorted sort_by_name entries) @ [leave]))))"

definition walk_weight :: "WalkEvent list \<Rightarrow> nat" where
  "walk_weight pending = sum_list (map (\<lambda>e. if we_kind e = Enter then 2 else 1) pending)"

lemma walk_charge_entries:
  "walk_charge b entries = Inr b' \<Longrightarrow> tb_entries b' + length entries = tb_entries b"
proof (induction b entries arbitrary: b' rule: walk_charge.induct)
  case (2 b entry entries)
  then show ?case
    by (auto simp: budget_charge_def budget_charge_paths_def budget_charge_bytes_def
        split: sum.splits if_splits option.splits bind_splits)
qed simp

lemma walk_weight_children:
  "walk_weight (map (\<lambda>entry. walk_event entry d) entries) \<le> 2 * length entries"
  by (induction entries) (auto simp: walk_weight_def)

lemma walk_weight_append [simp]: "walk_weight (xs @ ys) = walk_weight xs + walk_weight ys"
  by (simp add: walk_weight_def)

lemma walk_weight_Cons [simp]:
  "walk_weight (e # es) = (if we_kind e = Enter then 2 else 1) + walk_weight es"
  by (simp add: walk_weight_def)

lemma walk_weight_Nil [simp]: "walk_weight [] = 0"
  by (simp add: walk_weight_def)

lemma walk_sorted_length [simp]: "length (walk_sorted b entries) = length entries"
  by (simp add: walk_sorted_def)

lemma walk_descend_measure:
  assumes "walk_descend opts sortd rd event decision b s = (s', Inr (b', new))"
  shows "2 * tb_entries b' + walk_weight new \<le> 2 * tb_entries b + 1"
proof -
  have "2 * tb_entries b' + walk_weight (map (\<lambda>entry. walk_event entry d) (walk_sorted sortd entries)) + 1
      \<le> 2 * tb_entries b + 1" if "walk_charge b entries = Inr b'" for entries d
    using walk_charge_entries [OF that] walk_weight_children [of d "walk_sorted sortd entries"] by simp
  then show ?thesis
    using assms by (auto simp: walk_descend_def Let_def split: if_splits prod.splits sum.splits)
qed

function walk_loop ::
  "ListDirOptions \<Rightarrow> bool \<Rightarrow> 's read_dir \<Rightarrow> 's walk_callback \<Rightarrow> TraversalBudget \<Rightarrow> WalkEvent list \<Rightarrow> 's
     \<Rightarrow> 's \<times> (VfError + TraversalCompletion)" where
  "walk_loop opts sortd read_dir callback budget [] s = (s, Inr Complete)"
| "walk_loop opts sortd read_dir callback budget (event # pending) s =
     (case callback event s of
        (s1, Inl e) \<Rightarrow> (s1, Inl e)
      | (s1, Inr decision) \<Rightarrow>
          (if decision = Stop then (s1, Inr Stopped)
           else if we_kind event = Enter
           then case walk_descend opts sortd read_dir event decision budget s1 of
                  (s2, Inl e) \<Rightarrow> (s2, Inl e)
                | (s2, Inr (budget', new)) \<Rightarrow>
                    walk_loop opts sortd read_dir callback budget' (new @ pending) s2
           else walk_loop opts sortd read_dir callback budget pending s1))"
  by pat_completeness auto
termination
proof (relation "measure (\<lambda>(_, _, _, _, b, pending, _). 2 * tb_entries b + walk_weight pending)",
    goal_cases)
  case (2 opts sortd rd cb budget event pending s s1 r decision s2 r' bn b' new)
  then show ?case
    using walk_descend_measure [of opts sortd rd event decision budget s1 s2 b' new] by simp
qed simp_all

definition walk_events ::
  "DirEntry \<Rightarrow> ListDirOptions \<Rightarrow> bool \<Rightarrow> 's read_dir \<Rightarrow> 's walk_callback \<Rightarrow> 's
     \<Rightarrow> 's \<times> (VfError + TraversalCompletion)" where
  "walk_events root opts sort_by_name read_dir callback s =
     (case budget_charge
             (budget_new (list_max_entries_or opts DEFAULT_DIRECTORY_MAX_ENTRIES)
                (list_max_path_bytes_or opts DEFAULT_DIRECTORY_MAX_PATH_BYTES)) (de_path root) of
        Inl e \<Rightarrow> (s, Inl e)
      | Inr budget \<Rightarrow>
          walk_loop opts sort_by_name read_dir callback budget [walk_event root 0] s)"

section \<open>Options\<close>

lemma list_max_entries_roundtrip:
  "v \<le> usize_max \<Longrightarrow> list_max_entries (list_with_max_entries v o') = Some v"
  by (auto simp: list_max_entries_def list_with_max_entries_def checked_add_def)

lemma list_max_path_bytes_roundtrip:
  "v \<le> usize_max \<Longrightarrow> list_max_path_bytes (list_with_max_path_bytes v o') = Some v"
  by (auto simp: list_max_path_bytes_def list_with_max_path_bytes_def checked_add_def)

lemma list_setters_independent [simp]:
  "list_max_entries (list_with_max_path_bytes v o') = list_max_entries o'"
  "list_max_path_bytes (list_with_max_entries v o') = list_max_path_bytes o'"
  "ld_depth (list_with_max_path_bytes v o') = ld_depth o'"
  "ld_depth (list_with_max_entries v o') = ld_depth o'"
  by (simp_all add: list_max_entries_def list_max_path_bytes_def list_with_max_entries_def
      list_with_max_path_bytes_def)

section \<open>Charging\<close>

lemma sum_path_bytes_Some: "sum_path_bytes t paths = Some n \<Longrightarrow> n = t + sum_list (map length paths)"
  by (induction t paths rule: sum_path_bytes.induct) (auto split: bind_splits)

lemma budget_charge_paths_Inr:
  "budget_charge_paths b paths = Inr b' \<Longrightarrow>
     tb_entries b = tb_entries b' + 1 \<and> tb_bytes b = tb_bytes b' + sum_list (map length paths)"
  using sum_path_bytes_Some [of 0 paths]
  by (auto simp: budget_charge_paths_def budget_charge_bytes_def split: if_splits option.splits sum.splits)

lemma walk_charge_Inr:
  "walk_charge b es = Inr b' \<Longrightarrow>
     tb_entries b = tb_entries b' + length es \<and>
     tb_bytes b = tb_bytes b' + sum_list (map (length \<circ> de_path) es)"
proof (induction es arbitrary: b b')
  case (Cons e es)
  then obtain b1 where b1: "budget_charge b (de_path e) = Inr b1" "walk_charge b1 es = Inr b'"
    by (auto split: sum.splits)
  have "tb_entries b = tb_entries b1 + 1 \<and> tb_bytes b = tb_bytes b1 + length (de_path e)"
    using budget_charge_paths_Inr [of b "[de_path e]" b1] b1(1) by (simp add: budget_charge_def)
  with Cons.IH [OF b1(2)] show ?case by simp
qed simp

section \<open>The trace of a walk\<close>

text \<open>The visitor and the filesystem with a log of the delivered events.\<close>

definition logged :: "'s walk_callback \<Rightarrow> ('s \<times> WalkEvent list) walk_callback" where
  "logged cb e sl = (case cb e (fst sl) of (s', r) \<Rightarrow> ((s', snd sl @ [e]), r))"

definition lifted :: "'s read_dir \<Rightarrow> ('s \<times> WalkEvent list) read_dir" where
  "lifted rd path o' sl = (case rd path o' (fst sl) of (s', r) \<Rightarrow> ((s', snd sl), r))"

definition walk_trace ::
  "DirEntry \<Rightarrow> ListDirOptions \<Rightarrow> bool \<Rightarrow> 's read_dir \<Rightarrow> 's walk_callback \<Rightarrow> 's \<Rightarrow> WalkEvent list" where
  "walk_trace root opts sort_by_name rd cb s =
     snd (fst (walk_events root opts sort_by_name (lifted rd) (logged cb) (s, [])))"

definition path_cost :: "WalkEvent list \<Rightarrow> nat" where
  "path_cost es =
     sum_list (map (\<lambda>e. if we_kind e = Leave then 0 else length (de_path (we_entry e))) es)"

definition depth_ok :: "ListDirOptions \<Rightarrow> WalkEvent \<Rightarrow> bool" where
  "depth_ok opts e \<longleftrightarrow>
     we_depth e \<le> depth_limit_get (list_max_depth_or opts depth_limit_default) + 1"

text \<open>Replaying a trace against the stack of open directories.\<close>

fun replay :: "DirEntry list \<Rightarrow> WalkEvent list \<Rightarrow> DirEntry list option" where
  "replay st [] = Some st"
| "replay st (e # es) =
     (case we_kind e of
        Enter \<Rightarrow> if we_depth e = length st then replay (we_entry e # st) es else None
      | Entry \<Rightarrow> if we_depth e = length st then replay st es else None
      | Leave \<Rightarrow>
          (case st of
             [] \<Rightarrow> None
           | d # st' \<Rightarrow> if d = we_entry e \<and> we_depth e = length st' then replay st' es else None))"

fun pending_fits :: "DirEntry list \<Rightarrow> WalkEvent list \<Rightarrow> bool" where
  "pending_fits st [] \<longleftrightarrow> st = []"
| "pending_fits st (e # es) \<longleftrightarrow>
     (if we_kind e = Leave
      then (case st of
              [] \<Rightarrow> False
            | d # st' \<Rightarrow> d = we_entry e \<and> we_depth e = length st' \<and> pending_fits st' es)
      else we_depth e = length st \<and> pending_fits st es)"

lemma path_cost_simps [simp]:
  "path_cost [] = 0"
  "path_cost (xs @ ys) = path_cost xs + path_cost ys"
  "path_cost (e # es) = (if we_kind e = Leave then 0 else length (de_path (we_entry e))) + path_cost es"
  by (simp_all add: path_cost_def)

lemma path_cost_children:
  "path_cost (map (\<lambda>x. walk_event x d) es) = sum_list (map (length \<circ> de_path) es)"
  by (induction es) (auto simp: walk_event_def)

lemma walk_sorted_sum:
  "sum_list (map f (walk_sorted b es)) = sum_list (map (f :: DirEntry \<Rightarrow> nat) es)"
proof -
  have "mset (map f (walk_sorted b es)) = mset (map f es)" by (simp add: walk_sorted_def)
  then show ?thesis by (metis sum_mset_sum_list)
qed

lemma walk_descend_cases:
  assumes "walk_descend opts sd rd event decision b s = (s', Inr (b', new))"
  obtains (leave) "b' = b" "new = [event \<lparr> we_kind := Leave \<rparr>]"
  | (children) es where "walk_charge b es = Inr b'"
      "new = map (\<lambda>x. walk_event x (we_depth event + 1)) (walk_sorted sd es) @ [event \<lparr> we_kind := Leave \<rparr>]"
      "we_depth event \<le> depth_limit_get (list_max_depth_or opts depth_limit_default)"
  using assms by (auto simp: walk_descend_def Let_def split: if_splits prod.splits sum.splits)

lemma walk_descend_cost:
  assumes "walk_descend opts sd rd event decision b s = (s', Inr (b', new))"
  shows "path_cost new + tb_bytes b' \<le> tb_bytes b"
  using assms
proof (cases rule: walk_descend_cases)
  case (children es)
  then show ?thesis
    using walk_charge_Inr [OF children(1)] by (simp add: path_cost_children walk_sorted_sum)
qed simp

lemma walk_descend_depth:
  assumes "walk_descend opts sd rd event decision b s = (s', Inr (b', new))" "depth_ok opts event"
  shows "list_all (depth_ok opts) new"
  using assms
  by (cases rule: walk_descend_cases) (auto simp: list_all_iff depth_ok_def walk_event_def)

lemma pending_fits_children:
  "pending_fits st (map (\<lambda>x. walk_event x (length st)) es @ rest) \<longleftrightarrow> pending_fits st rest"
  by (induction es) (auto simp: walk_event_def)

lemma walk_descend_fits:
  assumes "walk_descend opts sd rd event decision b s = (s', Inr (b', new))"
    and "we_depth event = length st" "pending_fits st pending"
  shows "pending_fits (we_entry event # st) (new @ pending)"
  using assms(1)
proof (cases rule: walk_descend_cases)
  case leave
  then show ?thesis using assms(2,3) by simp
next
  case (children es)
  then show ?thesis
    using assms(2,3) pending_fits_children [of "we_entry event # st"] by simp
qed

lemma walk_descend_log:
  assumes "walk_descend opts sd (lifted rd) event decision b (s, l) = (s2, out)"
  shows "snd s2 = l"
  using assms
  by (auto simp: walk_descend_def lifted_def Let_def split: if_splits prod.splits sum.splits)

text \<open>One turn of the logged loop, without the nested case expressions.\<close>

lemma walk_loop_logged_cases:
  assumes "walk_loop opts sd (lifted rd) (logged cb) b (event # pending) (s, l) = ((s', l'), r)"
  obtains (ended) "l' = l @ [event]" "r \<noteq> Inr Complete"
  | (descended) s1 decision b' new s2
      where "walk_descend opts sd (lifted rd) event decision b (s1, l @ [event]) = ((s2, l @ [event]), Inr (b', new))"
        "we_kind event = Enter"
        "walk_loop opts sd (lifted rd) (logged cb) b' (new @ pending) (s2, l @ [event]) = ((s', l'), r)"
  | (passed) s1 where "we_kind event \<noteq> Enter"
        "walk_loop opts sd (lifted rd) (logged cb) b pending (s1, l @ [event]) = ((s', l'), r)"
proof -
  obtain s1 c where cb: "cb event s = (s1, c)" by fastforce
  then have lg: "logged cb event (s, l) = ((s1, l @ [event]), c)" by (simp add: logged_def)
  show thesis
  proof (cases c)
    case (Inl e)
    then show thesis using assms lg by (intro ended) auto
  next
    case (Inr decision)
    consider "decision = Stop" | "decision \<noteq> Stop" "we_kind event = Enter"
      | "decision \<noteq> Stop" "we_kind event \<noteq> Enter" by blast
    then show thesis
    proof cases
      case 1
      then show thesis using assms lg Inr by (intro ended) auto
    next
      case 2
      obtain s2 out where d: "walk_descend opts sd (lifted rd) event decision b (s1, l @ [event]) = (s2, out)"
        by fastforce
      have log: "snd s2 = l @ [event]" using d by (rule walk_descend_log)
      show thesis
      proof (cases out)
        case (Inl e)
        then show thesis using assms lg Inr 2 d log by (intro ended) auto
      next
        case out: (Inr bn)
        then show thesis
          using assms lg Inr 2 d log by (cases s2; cases bn) (auto intro!: descended)
      qed
    next
      case 3
      then show thesis using assms lg Inr by (intro passed) auto
    qed
  qed
qed

definition walk_measure :: "TraversalBudget \<Rightarrow> WalkEvent list \<Rightarrow> nat" where
  "walk_measure b pending = 2 * tb_entries b + walk_weight pending"

lemma walk_loop_bounds:
  assumes "walk_loop opts sd (lifted rd) (logged cb) b pending (s, l) = ((s', l'), r)"
    and "list_all (depth_ok opts) pending" "list_all (depth_ok opts) l"
  shows "length l' \<le> length l + walk_measure b pending \<and>
    path_cost l' \<le> path_cost l + tb_bytes b + path_cost pending \<and> list_all (depth_ok opts) l'"
  using assms
proof (induction "walk_measure b pending" arbitrary: b pending s l rule: less_induct)
  case less
  show ?case
  proof (cases pending)
    case Nil
    then show ?thesis using less.prems by auto
  next
    case (Cons event rest)
    have ok: "depth_ok opts event" "list_all (depth_ok opts) rest"
      "list_all (depth_ok opts) (l @ [event])"
      using less.prems Cons by (simp_all add: list_all_iff)
    from less.prems(1) [unfolded Cons] show ?thesis
    proof (cases rule: walk_loop_logged_cases)
      case ended
      then show ?thesis using ok Cons by (simp add: walk_measure_def)
    next
      case (descended s1 decision b' new s2)
      have m: "walk_measure b' (new @ rest) < walk_measure b pending"
        using walk_descend_measure [OF descended(1)] descended(2) Cons by (simp add: walk_measure_def)
      have "list_all (depth_ok opts) (new @ rest)"
        using walk_descend_depth [OF descended(1) ok(1)] ok(2) by simp
      from less.hyps [OF m descended(3) this ok(3)] show ?thesis
        using m walk_descend_cost [OF descended(1)] descended(2) Cons by auto
    next
      case (passed s1)
      have m: "walk_measure b rest < walk_measure b pending"
        using Cons by (simp add: walk_measure_def)
      from less.hyps [OF m passed(2) ok(2,3)] show ?thesis using m Cons passed(1) by auto
    qed
  qed
qed

lemma walk_loop_nested:
  assumes "walk_loop opts sd (lifted rd) (logged cb) b pending (s, l) = ((s', l'), Inr Complete)"
    and "pending_fits st pending"
  shows "\<exists>t. l' = l @ t \<and> replay st t = Some []"
  using assms
proof (induction "walk_measure b pending" arbitrary: b pending s l st rule: less_induct)
  case less
  show ?case
  proof (cases pending)
    case Nil
    then show ?thesis using less.prems by auto
  next
    case (Cons event rest)
    from less.prems(1) [unfolded Cons] show ?thesis
    proof (cases rule: walk_loop_logged_cases)
      case ended
      then show ?thesis by simp
    next
      case (descended s1 decision b' new s2)
      have m: "walk_measure b' (new @ rest) < walk_measure b pending"
        using walk_descend_measure [OF descended(1)] descended(2) Cons by (simp add: walk_measure_def)
      have st: "we_depth event = length st" "pending_fits st rest"
        using less.prems(2) Cons descended(2) by auto
      from less.hyps [OF m descended(3) walk_descend_fits [OF descended(1) st]]
      obtain t where "l' = l @ [event] @ t" "replay (we_entry event # st) t = Some []" by auto
      then show ?thesis using st(1) descended(2) by (intro exI [of _ "event # t"]) simp
    next
      case (passed s1)
      have m: "walk_measure b rest < walk_measure b pending"
        using Cons by (simp add: walk_measure_def)
      show ?thesis
      proof (cases "we_kind event")
        case Leave
        then obtain st' where st: "st = we_entry event # st'" "we_depth event = length st'"
          "pending_fits st' rest"
          using less.prems(2) Cons by (auto split: list.splits)
        from less.hyps [OF m passed(2) st(3)]
        obtain t where "l' = l @ [event] @ t" "replay st' t = Some []" by auto
        then show ?thesis using st Leave by (intro exI [of _ "event # t"]) simp
      next
        case Entry
        then have st: "we_depth event = length st" "pending_fits st rest"
          using less.prems(2) Cons by auto
        from less.hyps [OF m passed(2) st(2)]
        obtain t where "l' = l @ [event] @ t" "replay st t = Some []" by auto
        then show ?thesis using st Entry by (intro exI [of _ "event # t"]) simp
      qed (use passed(1) in simp)
    qed
  qed
qed

section \<open>What a walk fetches\<close>

text \<open>The filesystem with a log of the directory reads: the options each one was asked
  with, and the entries it returned (none when it failed).\<close>

type_synonym Fetch = "ListDirOptions \<times> DirEntry list"

definition fetching :: "'s read_dir \<Rightarrow> ('s \<times> Fetch list) read_dir" where
  "fetching rd path o' sl =
     (case rd path o' (fst sl) of
        (s', r) \<Rightarrow> ((s', snd sl @ [(o', case r of Inl _ \<Rightarrow> [] | Inr es \<Rightarrow> es)]), r))"

definition unfetched :: "'s walk_callback \<Rightarrow> ('s \<times> Fetch list) walk_callback" where
  "unfetched cb e sl = (case cb e (fst sl) of (s', r) \<Rightarrow> ((s', snd sl), r))"

definition walk_fetches ::
  "DirEntry \<Rightarrow> ListDirOptions \<Rightarrow> bool \<Rightarrow> 's read_dir \<Rightarrow> 's walk_callback \<Rightarrow> 's \<Rightarrow> Fetch list" where
  "walk_fetches root opts sort_by_name rd cb s =
     snd (fst (walk_events root opts sort_by_name (fetching rd) (unfetched cb) (s, [])))"

definition entry_bytes :: "DirEntry list \<Rightarrow> nat" where
  "entry_bytes es = sum_list (map (length \<circ> de_path) es)"

text \<open>Every read is asked for exactly the entries and bytes that the reads before it
  left over, and there is no read after one that returned more than it was
  asked for.\<close>

fun fetches_within :: "nat \<Rightarrow> nat \<Rightarrow> Fetch list \<Rightarrow> bool" where
  "fetches_within n m [] \<longleftrightarrow> True"
| "fetches_within n m ((o', es) # fs) \<longleftrightarrow>
     list_max_entries o' = Some n \<and> list_max_path_bytes o' = Some m \<and>
     (fs \<noteq> [] \<longrightarrow>
        length es \<le> n \<and> entry_bytes es \<le> m \<and>
        fetches_within (n - length es) (m - entry_bytes es) fs)"

text \<open>A read that returned no more than it was asked for.\<close>

definition fetch_honest :: "Fetch \<Rightarrow> bool" where
  "fetch_honest f \<longleftrightarrow>
     length (snd f) \<le> list_max_entries_or (fst f) usize_max \<and>
     entry_bytes (snd f) \<le> list_max_path_bytes_or (fst f) usize_max"

lemma fetches_within_total:
  "\<lbrakk>fetches_within n m fs; list_all fetch_honest fs\<rbrakk> \<Longrightarrow>
     sum_list (map (length \<circ> snd) fs) \<le> n \<and> sum_list (map (entry_bytes \<circ> snd) fs) \<le> m"
proof (induction n m fs rule: fetches_within.induct)
  case (2 n m o' es fs)
  have "length es \<le> n" "entry_bytes es \<le> m"
    using 2(2,3) by (simp_all add: fetch_honest_def list_max_entries_or_def list_max_path_bytes_or_def
        unwrap_or_def)
  then show ?case using 2 by (cases "fs = []") auto
qed simp

lemma remaining_options_limits:
  assumes "tb_entries b \<le> usize_max" "tb_bytes b \<le> usize_max"
  shows "list_max_entries (budget_remaining_options b o') = Some (tb_entries b)"
    and "list_max_path_bytes (budget_remaining_options b o') = Some (tb_bytes b)"
  using assms by (simp_all add: budget_remaining_options_def list_max_entries_roundtrip
      list_max_path_bytes_roundtrip)

lemma walk_descend_fetches:
  assumes "walk_descend opts sd (fetching rd) event decision b (s, l) = ((s2, l2), out)"
    and "tb_entries b \<le> usize_max" "tb_bytes b \<le> usize_max"
  obtains (kept) "l2 = l" "\<And>b' new. out = Inr (b', new) \<Longrightarrow> b' = b"
  | (fetched) o' es where "l2 = l @ [(o', es)]" "list_max_entries o' = Some (tb_entries b)"
      "list_max_path_bytes o' = Some (tb_bytes b)"
      "\<And>b' new. out = Inr (b', new) \<Longrightarrow> walk_charge b es = Inr b'"
  using assms(1) remaining_options_limits [OF assms(2,3), of list_new]
  by (auto simp: walk_descend_def fetching_def Let_def split: if_splits prod.splits sum.splits)

lemma walk_loop_fetches:
  assumes "walk_loop opts sd (fetching rd) (unfetched cb) b pending (s, l) = ((s', l'), r)"
    and "tb_entries b \<le> usize_max" "tb_bytes b \<le> usize_max"
  shows "\<exists>fs. l' = l @ fs \<and> fetches_within (tb_entries b) (tb_bytes b) fs"
  using assms
proof (induction "walk_measure b pending" arbitrary: b pending s l rule: less_induct)
  case less
  show ?case
  proof (cases pending)
    case Nil
    then show ?thesis using less.prems by auto
  next
    case (Cons event rest)
    obtain s1 c where "cb event s = (s1, c)" by fastforce
    then have cb: "unfetched cb event (s, l) = ((s1, l), c)" by (simp add: unfetched_def)
    show ?thesis
    proof (cases "\<exists>decision. c = Inr decision \<and> decision \<noteq> Stop")
      case False
      then show ?thesis using less.prems(1) Cons cb by (cases c) auto
    next
      case True
      then obtain decision where c: "c = Inr decision" "decision \<noteq> Stop" by blast
      show ?thesis
      proof (cases "we_kind event = Enter")
        case False
        have "walk_measure b rest < walk_measure b pending" using Cons by (simp add: walk_measure_def)
        from less.hyps [OF this _ less.prems(2,3)] show ?thesis
          using less.prems(1) Cons cb c False by auto
      next
        case enter: True
        obtain s2 l2 res where d: "walk_descend opts sd (fetching rd) event decision b (s1, l) = ((s2, l2), res)"
          by (metis prod.collapse)
        have step: "\<exists>fs. l' = l2 @ fs \<and> fetches_within (tb_entries b') (tb_bytes b') fs"
          if "res = Inr (b', new)" "tb_entries b' \<le> usize_max" "tb_bytes b' \<le> usize_max" for b' new
        proof (rule less.hyps)
          show "walk_measure b' (new @ rest) < walk_measure b pending"
            using walk_descend_measure [OF d [unfolded that(1)]] enter Cons by (simp add: walk_measure_def)
          show "walk_loop opts sd (fetching rd) (unfetched cb) b' (new @ rest) (s2, l2) = ((s', l'), r)"
            using less.prems(1) Cons cb c enter d that(1) by simp
        qed (use that in simp_all)
        have stop: "l' = l2" if "res = Inl e" for e
          using less.prems(1) Cons cb c enter d that by simp
        from d less.prems(2,3) show ?thesis
        proof (cases rule: walk_descend_fetches)
          case kept
          then show ?thesis using step stop less.prems(2,3) by (cases res) auto
        next
          case (fetched o' es)
          show ?thesis
          proof (cases res)
            case (Inl e)
            then show ?thesis using stop fetched by (intro exI [of _ "[(o', es)]"]) simp
          next
            case (Inr bn)
            then obtain b' new where res: "res = Inr (b', new)" by (cases bn) simp
            have charged: "tb_entries b = tb_entries b' + length es" "tb_bytes b = tb_bytes b' + entry_bytes es"
              using walk_charge_Inr [OF fetched(4) [OF res]] by (simp_all add: entry_bytes_def)
            then obtain fs where "l' = l2 @ fs" "fetches_within (tb_entries b') (tb_bytes b') fs"
              using step [OF res] less.prems(2,3) by auto
            then show ?thesis
              using fetched(1-3) charged by (intro exI [of _ "(o', es) # fs"]) simp
          qed
        qed
      qed
    qed
  qed
qed

lemma walk_trace_bounded:
  "length (walk_trace root opts sort_by_name rd cb s)
     \<le> 2 * list_max_entries_or opts DEFAULT_DIRECTORY_MAX_ENTRIES \<and>
   path_cost (walk_trace root opts sort_by_name rd cb s)
     \<le> list_max_path_bytes_or opts DEFAULT_DIRECTORY_MAX_PATH_BYTES \<and>
   list_all (depth_ok opts) (walk_trace root opts sort_by_name rd cb s)"
proof -
  let ?b0 = "budget_new (list_max_entries_or opts DEFAULT_DIRECTORY_MAX_ENTRIES)
      (list_max_path_bytes_or opts DEFAULT_DIRECTORY_MAX_PATH_BYTES)"
  show ?thesis
  proof (cases "budget_charge ?b0 (de_path root)")
    case (Inl e)
    then show ?thesis by (simp add: walk_trace_def walk_events_def)
  next
    case (Inr b)
    obtain s' l' r where loop: "walk_loop opts sort_by_name (lifted rd) (logged cb) b
        [walk_event root 0] (s, []) = ((s', l'), r)" by (metis prod.collapse)
    have l': "walk_trace root opts sort_by_name rd cb s = l'"
      using Inr loop by (simp add: walk_trace_def walk_events_def)
    have "tb_entries ?b0 = tb_entries b + 1 \<and> tb_bytes ?b0 = tb_bytes b + length (de_path root)"
      using budget_charge_paths_Inr [of ?b0 "[de_path root]" b] Inr by (simp add: budget_charge_def)
    then show ?thesis
      using walk_loop_bounds [OF loop] unfolding l'
      by (auto simp: walk_measure_def budget_new_def depth_ok_def walk_event_def split: if_splits)
  qed
qed


lemma walk_fetches_within:
  assumes "list_max_entries_or opts DEFAULT_DIRECTORY_MAX_ENTRIES \<le> usize_max"
    and "list_max_path_bytes_or opts DEFAULT_DIRECTORY_MAX_PATH_BYTES \<le> usize_max"
  shows "fetches_within (list_max_entries_or opts DEFAULT_DIRECTORY_MAX_ENTRIES - 1)
    (list_max_path_bytes_or opts DEFAULT_DIRECTORY_MAX_PATH_BYTES - length (de_path root))
    (walk_fetches root opts sort_by_name rd cb s)"
proof -
  let ?b0 = "budget_new (list_max_entries_or opts DEFAULT_DIRECTORY_MAX_ENTRIES)
      (list_max_path_bytes_or opts DEFAULT_DIRECTORY_MAX_PATH_BYTES)"
  show ?thesis
  proof (cases "budget_charge ?b0 (de_path root)")
    case (Inl e)
    then show ?thesis by (simp add: walk_fetches_def walk_events_def)
  next
    case (Inr b)
    obtain s' l' r where loop: "walk_loop opts sort_by_name (fetching rd) (unfetched cb) b
        [walk_event root 0] (s, []) = ((s', l'), r)" by (metis prod.collapse)
    have l': "walk_fetches root opts sort_by_name rd cb s = l'"
      using Inr loop by (simp add: walk_fetches_def walk_events_def)
    have b: "tb_entries b = tb_entries ?b0 - 1" "tb_bytes b = tb_bytes ?b0 - length (de_path root)"
      using budget_charge_paths_Inr [of ?b0 "[de_path root]" b] Inr by (simp_all add: budget_charge_def)
    then show ?thesis
      using walk_loop_fetches [OF loop] assms l' by (simp add: budget_new_def)
  qed
qed

section \<open>Properties\<close>

definition example_entry :: "bytes \<Rightarrow> VfType \<Rightarrow> DirEntry" where
  "example_entry path ftype =
     \<lparr> de_path = path, de_metadata = metadata_from_attrs (vf_attrs_default \<lparr> va_ftype := ftype \<rparr>) \<rparr>"

lemmas walk_eval =
  walk_events_def example_entry_def list_new_def visit_flags_new_def walk_event_def
  attrs_is_dir_def metadata_from_attrs_def vf_attrs_default_def Let_def budget_charge_def
  budget_charge_paths_def budget_charge_bytes_def budget_new_def list_max_entries_or_def
  list_max_path_bytes_or_def list_max_entries_def list_max_path_bytes_def unwrap_or_def
  DEFAULT_DIRECTORY_MAX_ENTRIES_def DEFAULT_DIRECTORY_MAX_PATH_BYTES_def checked_add_def
  checked_sub_def u64_max_def walk_descend_def list_max_depth_or_def depth_limit_get_def
  depth_limit_default_def depth_limit_is_unlimited_def u16_max_def DEFAULT_WALK_MAX_DEPTH_def
  list_truncate_def walk_sorted_def

text \<open>C35 (bounded walk).  Whatever the filesystem and the visitor answer, and however
  large, deep or cyclic the tree is, \<^verbatim>\<open>walk_events\<close> returns after at most two
  events per entry of its budget, the paths it delivers stay within the byte
  budget, and no event lies more than one level below the depth limit.  What it
  fetches is bounded too: each directory read is asked for exactly the entries
  and bytes that the root and the reads before it left of the budget, and
  nothing is read after a directory that returned more than it was asked for.
  So all the reads of a filesystem that keeps to the limits it is given return,
  with the root, no more than the budget.\<close>

theorem walk_events_bounded:
  assumes "list_max_entries_or opts DEFAULT_DIRECTORY_MAX_ENTRIES \<le> usize_max"
    and "list_max_path_bytes_or opts DEFAULT_DIRECTORY_MAX_PATH_BYTES \<le> usize_max"
  shows "length (walk_trace root opts sort_by_name rd cb s)
      \<le> 2 * list_max_entries_or opts DEFAULT_DIRECTORY_MAX_ENTRIES \<and>
    path_cost (walk_trace root opts sort_by_name rd cb s)
      \<le> list_max_path_bytes_or opts DEFAULT_DIRECTORY_MAX_PATH_BYTES \<and>
    list_all (depth_ok opts) (walk_trace root opts sort_by_name rd cb s) \<and>
    fetches_within (list_max_entries_or opts DEFAULT_DIRECTORY_MAX_ENTRIES - 1)
      (list_max_path_bytes_or opts DEFAULT_DIRECTORY_MAX_PATH_BYTES - length (de_path root))
      (walk_fetches root opts sort_by_name rd cb s) \<and>
    (list_all fetch_honest (walk_fetches root opts sort_by_name rd cb s) \<longrightarrow>
       sum_list (map (length \<circ> snd) (walk_fetches root opts sort_by_name rd cb s))
         \<le> list_max_entries_or opts DEFAULT_DIRECTORY_MAX_ENTRIES - 1 \<and>
       sum_list (map (entry_bytes \<circ> snd) (walk_fetches root opts sort_by_name rd cb s))
         \<le> list_max_path_bytes_or opts DEFAULT_DIRECTORY_MAX_PATH_BYTES - length (de_path root))"
  using walk_trace_bounded [of root opts sort_by_name rd cb s]
    walk_fetches_within [OF assms, of root sort_by_name rd cb s]
  by (simp add: fetches_within_total)

theorem walk_events_bounded_witness:
  "sum_list (map (length \<circ> snd) (walk_fetches (example_entry ''/'' Directory)
       (list_with_max_entries 5 list_new) False
       (\<lambda>path _ n. (n, Inr (if path = ''/'' then [example_entry ''/a'' Directory] else [])))
       (\<lambda>e n. (n + 1, Inr Continue)) (0::nat))) \<le> (4::nat)"
proof -
  let ?o = "list_with_max_entries 5 list_new"
  let ?rd = "\<lambda>path _ n. (n, Inr (if path = ''/'' then [example_entry ''/a'' Directory] else []))"
  let ?cb = "\<lambda>e n. (n + 1, Inr Continue)"
  let ?fs = "walk_fetches (example_entry ''/'' Directory) ?o False ?rd ?cb (0::nat)"
  have limits: "list_max_entries_or ?o DEFAULT_DIRECTORY_MAX_ENTRIES = 5"
    "list_max_path_bytes_or ?o DEFAULT_DIRECTORY_MAX_PATH_BYTES = 16777216"
    by (simp_all add: walk_eval list_with_max_entries_def)
  have honest: "list_all fetch_honest ?fs"
    by (simp add: walk_fetches_def walk_eval list_with_max_entries_def fetching_def unfetched_def
        fetch_honest_def budget_remaining_options_def list_with_max_path_bytes_def entry_bytes_def)
  show ?thesis
    using walk_events_bounded [of ?o "example_entry ''/'' Directory" False ?rd ?cb "0::nat"] limits honest
    by (simp add: u64_max_def)
qed

text \<open>C36 (nested events).  When a walk completes, its events are well nested: every
  directory that was entered is left after all events below it, and each event
  carries the depth at which it occurs.\<close>

theorem walk_events_nested:
  assumes "snd (walk_events root opts sort_by_name (lifted rd) (logged cb) (s, [])) = Inr Complete"
  shows "replay [] (walk_trace root opts sort_by_name rd cb s) = Some []"
proof -
  let ?b0 = "budget_new (list_max_entries_or opts DEFAULT_DIRECTORY_MAX_ENTRIES)
      (list_max_path_bytes_or opts DEFAULT_DIRECTORY_MAX_PATH_BYTES)"
  obtain b where b: "budget_charge ?b0 (de_path root) = Inr b"
    using assms by (auto simp: walk_events_def split: sum.splits)
  obtain s' l' r where loop: "walk_loop opts sort_by_name (lifted rd) (logged cb) b
      [walk_event root 0] (s, []) = ((s', l'), r)" by (metis prod.collapse)
  have "r = Inr Complete" "walk_trace root opts sort_by_name rd cb s = l'"
    using assms b loop by (simp_all add: walk_trace_def walk_events_def)
  moreover have "pending_fits [] [walk_event root 0]" by (simp add: walk_event_def)
  ultimately show ?thesis using walk_loop_nested [of _ _ _ _ _ _ _ "[]"] loop by fastforce
qed

theorem walk_events_nested_witness:
  "replay [] (walk_trace (example_entry ''/'' Directory) list_new False
     (\<lambda>path _ n. (n, Inr (if path = ''/'' then [example_entry ''/a'' Directory] else [])))
     (\<lambda>e n. (n + 1, Inr Continue)) (0::nat)) = Some []"
  by (rule walk_events_nested)
     (simp add: walk_eval logged_def lifted_def)

text \<open>A depth limit and an entry or byte budget
  read back exactly what was set, zero and the maximum included; out-of-range
  depths are refused rather than treated as unlimited, and explicit settings
  always win over the client's defaults.\<close>

lemma limits_roundtrip:
  assumes "entries \<le> usize_max" "bytes \<le> usize_max"
  shows "map_option depth_limit_get (depth_limit_new depth) =
      (if depth \<le> 65533 then Some depth else None) \<and>
    depth_limit_get depth_limit_unlimited = usize_max \<and>
    list_max_entries_or (list_resolve (list_with_max_path_bytes bytes (list_with_max_entries entries o'))
      limits) d = entries \<and>
    list_max_path_bytes_or (list_resolve (list_with_max_path_bytes bytes (list_with_max_entries entries o'))
      limits) d = bytes"
  using assms
  by (simp add: depth_limit_new_def depth_limit_get_def depth_limit_is_unlimited_def u16_max_def
      depth_limit_unlimited_def list_resolve_def Let_def list_max_entries_or_def
      list_max_path_bytes_or_def list_max_entries_roundtrip list_max_path_bytes_roundtrip unwrap_or_def)

end
