(* ===== verification/Spec2Isabelle.thy ===== *)
theory Spec2Isabelle
  imports Nfs_Paths Vfs_Traversal
begin

text \<open>
  A verification library for the vectorised filesystem interfaces of this
  repository.

  \<^bold>\<open>The program.\<close>  The repository implements a filesystem interface whose operations take
  many requests at once.  \<^verbatim>\<open>crates/vfsi-core\<close> holds the portable vocabulary: errors,
  paths, attributes, open flags, requests, response and traversal budgets and the
  contracts the backends share.  \<^verbatim>\<open>crates/vfsi-nfs\<close> is the NFSv4.1 backend.  It packs many
  requests into few COMPOUNDs: \<^verbatim>\<open>compound.rs\<close> builds requests and reads replies,
  \<^verbatim>\<open>session.rs\<close> sends them on the slot of a session, \<^verbatim>\<open>planner.rs\<close> decides how many
  operations a COMPOUND may carry and which caller a failed operation belongs to, and
  \<^verbatim>\<open>client.rs\<close> implements the vectored operations.  The other crates are further backends
  and facades.

  \<^bold>\<open>The theories.\<close>

  \<^item> \<^verbatim>\<open>Vfs_Prelude\<close>: the machine integers of the sources (saturating, checked and wrapping
    arithmetic) and generic facts on lists.
  \<^item> \<^verbatim>\<open>Vfs_Error\<close>: \<^verbatim>\<open>vfsi-core/src/error.rs\<close>.  Error values, their portable kinds and the
    errno tables; the category of an error survives the trip through errno.
  \<^item> \<^verbatim>\<open>Vfs_Path\<close>: \<^verbatim>\<open>vfsi-core/src/path.rs\<close>.  A normalised path leads to the same place in every
    directory tree, splitting and joining are inverse.
  \<^item> \<^verbatim>\<open>Vfs_Types\<close>, \<^verbatim>\<open>Vfs_Attrs\<close>: \<^verbatim>\<open>vfsi-core/src/types.rs\<close>, \<^verbatim>\<open>write.rs\<close>, \<^verbatim>\<open>api/metadata.rs\<close>.  Open
    flags, descriptor allocation, attribute masks, timestamps, statistics.
  \<^item> \<^verbatim>\<open>Vfs_Internal\<close>: \<^verbatim>\<open>vfsi-core/src/internal.rs\<close>, \<^verbatim>\<open>internal/adb.rs\<close>.  Validation of batches,
    strict collection with cleanup, data-block layouts.
  \<^item> \<^verbatim>\<open>Vfs_Traversal\<close>: \<^verbatim>\<open>vfsi-core/src/api/visit.rs\<close>, \<^verbatim>\<open>traversal.rs\<close>, \<^verbatim>\<open>support.rs\<close>,
    \<^verbatim>\<open>internal/budget.rs\<close>.  The event walk over an arbitrary backend is bounded by its
    budgets, in what it delivers and in what it asks the backend for, and its events
    are well nested.
  \<^item> \<^verbatim>\<open>Nfs_Planner\<close>: \<^verbatim>\<open>vfsi-nfs/src/planner.rs\<close>.  Learned operation limits, execution maps and the
    attribution of failures.  Its locale \<^verbatim>\<open>reply_source\<close> is what the planner relies on;
    \<^verbatim>\<open>Nfs_Reply\<close> interprets it on the validated replies.
  \<^item> \<^verbatim>\<open>Nfs_Effects\<close>: operations on a state with the outcomes \<^verbatim>\<open>Done\<close>, \<^verbatim>\<open>Fail\<close> and \<^verbatim>\<open>Stuck\<close> (a panic or
    a loop that does not end), loops, and the locale \<^verbatim>\<open>step_order\<close> for properties of all
    steps of an operation, interpreted in \<^verbatim>\<open>Nfs_Client\<close>.
  \<^item> \<^verbatim>\<open>Nfs_Compound\<close>, \<^verbatim>\<open>Nfs_Reply\<close>: \<^verbatim>\<open>vfsi-nfs/src/compound.rs\<close>.  Requests, the wire form of
    attribute updates, the size check, the validation of replies and their accessors.
  \<^item> \<^verbatim>\<open>Nfs_Session\<close>: \<^verbatim>\<open>vfsi-nfs/src/session.rs\<close>.  Handshake, slot sequence numbers, poisoning after
    a lost request, shutdown.
  \<^item> \<^verbatim>\<open>Nfs_Client\<close>: the state of \<^verbatim>\<open>vfsi-nfs/src/client.rs\<close>, its limits, \<^verbatim>\<open>call_compound\<close>, operations on
    one object, deferred closes and reconnection.  Every request of a connected client
    is within the confirmed limits, and no deferred close is lost.
  \<^item> \<^verbatim>\<open>Nfs_Batch\<close>, \<^verbatim>\<open>Nfs_Batch_Spec\<close>: \<^verbatim>\<open>batch_ops\<close> of \<^verbatim>\<open>client.rs\<close> and the operations built on it, and
    their specification: the effect of the items one after the other.
  \<^item> \<^verbatim>\<open>Nfs_Lookup\<close>, \<^verbatim>\<open>Nfs_Vector\<close>: tolerant lookups, path resolution, removals, vectored reads and
    directory pages of \<^verbatim>\<open>client.rs\<close>.
  \<^item> \<^verbatim>\<open>Nfs_Pages\<close>: what the directory pages give; every name of a page is a single component.
  \<^item> \<^verbatim>\<open>Nfs_Cursor\<close>: the cursor of \<^verbatim>\<open>client.rs\<close> that moves between directories inside one COMPOUND,
    checked against the current and saved filehandles of the server, and the overlap
    index of write waves.
  \<^item> \<^verbatim>\<open>Nfs_Paths\<close>: \<^verbatim>\<open>removev_path_compound\<close>, \<^verbatim>\<open>renamev_path_compound\<close> and \<^verbatim>\<open>getattr_path_compound\<close> of
    \<^verbatim>\<open>client.rs\<close>.  They are instances of one loop; its locale \<^verbatim>\<open>path_items\<close> says what the items
    of a request must provide, and is interpreted for each of the three.  The items take
    effect one by one in order, each where its own path leads.

  \<^bold>\<open>Parameters.\<close>  The XDR encoder and the RPC library are not part of the repository.  They are
  the record \<^verbatim>\<open>transport\<close>, an argument of every operation that sends a request.  What
  a theorem needs of it is a named hypothesis: \<^verbatim>\<open>decoded_transport\<close> (the decoder fills
  in the fields of a successful operation), \<^verbatim>\<open>sized_transport\<close> (the encoder reports the size of
  a request), \<^verbatim>\<open>item_server\<close>, \<^verbatim>\<open>remove_server\<close>, \<^verbatim>\<open>path_server\<close> and \<^verbatim>\<open>walks\<close> (what
  a server does with a request), each with a concrete server that satisfies it.
  Clocks, process identifiers and random verifiers are arguments as well.

  \<^bold>\<open>Loops and bounds.\<close>  The loops of the client are \<^verbatim>\<open>loop_run\<close>, a partial function whose value is
  absent when the loop does not end; the theorems show that it does, from a
  lexicographic measure of the items left, the learned capacity and the chunk size.
  No fuel is used.  Integers are natural numbers with the bounds of their width
  written out where the code can meet them.

  \<^bold>\<open>Not modelled.\<close>  The compounds that merge OPEN, READ or WRITE and CLOSE of several paths,
  and the vectored opens and closes \<^verbatim>\<open>open_many\<close> and \<^verbatim>\<open>close_many\<close>; the \<^verbatim>\<open>Vfsi\<close> backend above the client (handle caches behind locks, reconnecting
  threads, the read pool); attribute decoding of \<^verbatim>\<open>nfs/metadata.rs\<close>; mount discovery and
  the calls into libntirpc; the generated bindings of \<^verbatim>\<open>nfsv41-sys\<close>; the local, SMB and
  io_uring backends, which are sequences of system calls, calls into a third-party
  protocol crate and memory shared with the kernel; the synchronous and automatic
  facades; the C and Python bindings; tests, benchmarks and fuzz targets.
\<close>

end
